(* ===== verification/Sov_Prelude.thy ===== *)
theory Sov_Prelude
  imports Complex_Main "HOL-Library.Word" "HOL-Library.List_Lexorder" "HOL-Library.Multiset"
begin

text \<open>
  Shared vocabulary of the development: the machine types of the Go sources, byte strings and
  their three-way comparison, slices, the fixed-width little- and big-endian integer codecs, and
  the list, option and word facts that the component theories use.

  A Go \<^verbatim>\<open>[]byte\<close>, \<^verbatim>\<open>[N]byte\<close> or \<^verbatim>\<open>string\<close> is a list of bytes. An array length is a property of
  the list (\<^verbatim>\<open>length xs = N\<close>), stated where a statement needs it.
\<close>

unbundle bit_operations_syntax

named_theorems codec_simps
named_theorems hamt_simps
named_theorems engine_simps

section \<open>Machine types\<close>

type_synonym byte = "8 word"
type_synonym bytes = "8 word list"
type_synonym gostring = "8 word list"
type_synonym u16 = "16 word"
type_synonym u32 = "32 word"
type_synonym u64 = "64 word"
type_synonym i64 = "64 word"

text \<open>Signed \<^verbatim>\<open>int32\<close> and \<^verbatim>\<open>int64\<close> values are the same words, read with \<^term>\<open>sint\<close>.\<close>

abbreviation MaxUint64 :: u64 where
  "MaxUint64 \<equiv> - 1"

section \<open>Three-way comparison of byte strings\<close>

text \<open>
  The byte loop that the sources write out for arrays, and Go's string comparison: the first
  differing byte decides. The two equations for lists of different length are Go's rule for
  strings; they never apply to two arrays of one type.
\<close>

fun cmpBytes :: "bytes \<Rightarrow> bytes \<Rightarrow> int" where
  "cmpBytes [] [] = 0"
| "cmpBytes [] (b # bs) = -1"
| "cmpBytes (a # as) [] = 1"
| "cmpBytes (a # as) (b # bs) =
     (if a \<noteq> b then (if a < b then -1 else 1) else cmpBytes as bs)"

lemma cmpBytes_eq_0 [simp]: "cmpBytes xs ys = 0 \<longleftrightarrow> xs = ys"
  by (induction xs ys rule: cmpBytes.induct) auto

lemma cmpBytes_neg: "cmpBytes xs ys < 0 \<longleftrightarrow> xs < ys"
  by (induction xs ys rule: cmpBytes.induct) auto

lemma cmpBytes_pos: "cmpBytes xs ys > 0 \<longleftrightarrow> ys < xs"
  by (induction xs ys rule: cmpBytes.induct) auto

lemmas cmpBytes_less [simp] = cmpBytes_neg cmpBytes_pos

lemma cmpBytes_nonpos [simp]: "cmpBytes xs ys \<le> 0 \<longleftrightarrow> xs \<le> ys"
  by (metis cmpBytes_pos linorder_not_less)

section \<open>Slices\<close>

definition gslice :: "nat \<Rightarrow> nat \<Rightarrow> 'a list \<Rightarrow> 'a list" where
  "gslice i j xs = take (j - i) (drop i xs)"

lemma length_gslice [simp]: "j \<le> length xs \<Longrightarrow> length (gslice i j xs) = j - i"
  by (auto simp: gslice_def)

lemma gslice_append_at [codec_simps]:
  "length xs = i \<Longrightarrow> j = i + length ys \<Longrightarrow> gslice i j (xs @ ys @ zs) = ys"
  by (simp add: gslice_def)

lemma gslice_append_at_end [codec_simps]:
  "length xs = i \<Longrightarrow> j = i + length ys \<Longrightarrow> gslice i j (xs @ ys) = ys"
  by (simp add: gslice_def)

lemma gslice_front [codec_simps]: "j = length ys \<Longrightarrow> gslice 0 j (ys @ zs) = ys"
  by (simp add: gslice_def)

lemma gslice_shift: "length h = m \<Longrightarrow> gslice (m + a) (m + b) (h @ xs) = gslice a b xs"
  by (simp add: gslice_def)

lemma gslice_join: "i \<le> j \<Longrightarrow> j \<le> k \<Longrightarrow> gslice i j xs @ gslice j k xs = gslice i k xs"
proof -
  assume a: "i \<le> j" "j \<le> k"
  have "take (k - j) (drop j xs) = take (k - j) (drop (j - i) (drop i xs))" using a by simp
  moreover have "k - i = (j - i) + (k - j)" using a by simp
  ultimately show "gslice i j xs @ gslice j k xs = gslice i k xs" by (simp add: gslice_def take_add)
qed

text \<open>\<^verbatim>\<open>copy(dst[off:], src)\<close> for a source that fits.\<close>

definition put_at :: "nat \<Rightarrow> 'a list \<Rightarrow> 'a list \<Rightarrow> 'a list" where
  "put_at off src dst = take off dst @ src @ drop (off + length src) dst"

lemma length_put_at [simp]:
  "off + length src \<le> length dst \<Longrightarrow> length (put_at off src dst) = length dst"
  by (simp add: put_at_def)

text \<open>\<^verbatim>\<open>copy(dst[:], src)\<close> into a fresh array of \<^verbatim>\<open>n\<close> bytes.\<close>

definition copyArray :: "nat \<Rightarrow> bytes \<Rightarrow> bytes" where
  "copyArray n src = take n src @ replicate (n - length src) 0"

lemma copyArray_exact [simp]: "length src = n \<Longrightarrow> copyArray n src = src"
  by (simp add: copyArray_def)

section \<open>Integer codecs\<close>

definition le_bytes :: "nat \<Rightarrow> 'a::len word \<Rightarrow> bytes" where
  "le_bytes n w = map (\<lambda>i. ucast (drop_bit (8 * i) w)) [0..<n]"

fun of_le :: "bytes \<Rightarrow> 'a::len word" where
  "of_le [] = 0"
| "of_le (b # bs) = ucast b OR push_bit 8 (of_le bs)"

definition be_bytes :: "nat \<Rightarrow> 'a::len word \<Rightarrow> bytes" where
  "be_bytes n w = rev (le_bytes n w)"

definition of_be :: "bytes \<Rightarrow> 'a::len word" where
  "of_be bs = of_le (rev bs)"

lemma length_le_bytes [simp]: "length (le_bytes n w) = n"
  by (simp add: le_bytes_def)

lemma length_be_bytes [simp]: "length (be_bytes n w) = n"
  by (simp add: be_bytes_def)

lemma bit_of_le:
  "bit (of_le bs :: 'a::len word) k \<longleftrightarrow>
     k < LENGTH('a) \<and> k div 8 < length bs \<and> bit (bs ! (k div 8)) (k mod 8)"
proof (induction bs arbitrary: k)
  case Nil
  then show ?case by simp
next
  case (Cons b bs)
  show ?case
  proof (cases "k < 8")
    case True
    then show ?thesis
      by (auto simp: bit_or_iff bit_push_bit_iff bit_ucast_iff)
  next
    case False
    then have "k div 8 = Suc ((k - 8) div 8)" "k mod 8 = (k - 8) mod 8"
      by (auto simp: le_div_geq le_mod_geq)
    moreover have "\<not> bit b k"
      using False by (auto dest: bit_imp_le_length)
    ultimately show ?thesis
      using False Cons.IH [of "k - 8"]
      by (auto simp: bit_or_iff bit_push_bit_iff bit_ucast_iff)
  qed
qed

lemma of_le_le_bytes [codec_simps]:
  assumes "LENGTH('a) \<le> 8 * n"
  shows "of_le (le_bytes n (w :: 'a::len word)) = w"
proof (rule bit_word_eqI)
  fix k assume k: "k < LENGTH('a)"
  with assms have "k div 8 < n" by auto
  then show "bit (of_le (le_bytes n w) :: 'a word) k = bit w k"
    using k by (simp add: bit_of_le le_bytes_def bit_ucast_iff bit_drop_bit_eq)
qed

lemma le_bytes_of_le [codec_simps]:
  assumes "8 * length bs \<le> LENGTH('a)" "n = length bs"
  shows "le_bytes n (of_le bs :: 'a::len word) = bs"
proof (rule nth_equalityI)
  show "length (le_bytes n (of_le bs :: 'a word)) = length bs"
    using assms by simp
next
  fix i assume "i < length (le_bytes n (of_le bs :: 'a word))"
  then have i: "i < length bs" using assms by simp
  show "le_bytes n (of_le bs :: 'a word) ! i = bs ! i"
  proof (rule bit_word_eqI)
    fix k assume k: "k < LENGTH(8)"
    then have "8 * i + k < LENGTH('a)" using i assms by auto
    then show "bit (le_bytes n (of_le bs :: 'a word) ! i) k = bit (bs ! i) k"
      using i k assms by (simp add: le_bytes_def bit_ucast_iff bit_drop_bit_eq bit_of_le)
  qed
qed

lemma of_be_be_bytes [codec_simps]:
  "LENGTH('a) \<le> 8 * n \<Longrightarrow> of_be (be_bytes n (w :: 'a::len word)) = w"
  by (simp add: of_be_def be_bytes_def of_le_le_bytes)

lemma be_bytes_of_be [codec_simps]:
  "8 * length bs \<le> LENGTH('a) \<Longrightarrow> n = length bs \<Longrightarrow> be_bytes n (of_be bs :: 'a::len word) = bs"
  by (simp add: of_be_def be_bytes_def le_bytes_of_le)

section \<open>Words\<close>

lemma less_plus_1:
  fixes x :: "'a::len word"
  assumes "x \<noteq> - 1"
  shows "x < x + 1"
proof -
  have "1 + x \<noteq> 0" using assms by (metis add_eq_0_iff)
  then have "unat (1 + x) = Suc (unat x)" by (rule unatSuc)
  then show ?thesis by (simp add: word_less_nat_alt add.commute)
qed

section \<open>Lists\<close>

text \<open>Position of the first element that satisfies a predicate, as a search loop finds it.\<close>

fun find_index :: "('a \<Rightarrow> bool) \<Rightarrow> 'a list \<Rightarrow> nat option" where
  "find_index P [] = None"
| "find_index P (x # xs) = (if P x then Some 0 else map_option Suc (find_index P xs))"

lemma find_index_None [simp]: "find_index P xs = None \<longleftrightarrow> (\<forall>x\<in>set xs. \<not> P x)"
  by (induction xs) auto

lemma find_index_SomeD:
  "find_index P xs = Some i \<Longrightarrow> i < length xs \<and> P (xs ! i)"
  by (induction xs arbitrary: i) (auto split: if_splits)

lemma find_Some_set: "find P xs = Some x \<Longrightarrow> x \<in> set xs \<and> P x"
  by (induction xs) (auto split: if_splits)

lemma map_of_concat_None:
  "(\<And>y. y \<in> set xss \<Longrightarrow> k \<notin> fst ` set y) \<Longrightarrow> map_of (concat xss) k = None"
  by (induction xss) (auto simp: map_add_def map_of_eq_None_iff split: option.splits)

lemma map_of_concat_split:
  assumes "\<And>y. y \<in> set xss \<union> set yss \<Longrightarrow> k \<notin> fst ` set y"
  shows "map_of (concat (xss @ x # yss)) k = map_of x k"
  using assms map_of_concat_None [of xss k] map_of_concat_None [of yss k]
  by (simp add: map_add_def split: option.splits)

lemma sorted_wrt_strict_unique:
  fixes xs ys :: "'a::linorder list"
  assumes "sorted_wrt (<) xs" "sorted_wrt (<) ys" "set xs = set ys"
  shows "xs = ys"
  using assms by (simp add: strict_sorted_equal)

text \<open>Records of one fixed width can be cut out of their concatenation again.\<close>

lemma concat_fixed_width_inj:
  assumes "concat (map f xs) = concat (map f ys)" "0 < n"
    and "\<And>x. x \<in> set xs \<union> set ys \<Longrightarrow> length (f x) = n"
    and "inj_on f (set xs \<union> set ys)"
  shows "xs = ys"
  using assms
proof (induction xs arbitrary: ys)
  case Nil
  then show ?case by (cases ys) auto
next
  case (Cons x xs)
  then obtain y ys' where ys: "ys = y # ys'" by (cases ys) auto
  then have "f x = f y" "concat (map f xs) = concat (map f ys')"
    using Cons.prems(1,3) by (auto simp: append_eq_append_conv)
  moreover have "xs = ys'"
    using Cons.IH [of ys'] Cons.prems(2-4) calculation(2) ys by (auto intro: inj_on_subset)
  moreover have "x = y"
    using inj_onD [OF Cons.prems(4), of x y] calculation(1) ys by simp
  ultimately show ?case using ys by simp
qed

end
