(* ===== verification/Hamt.thy ===== *)
theory Hamt
  imports Sov_Prelude
begin

text \<open>
  The hash array-mapped trie of \<^verbatim>\<open>pkg/sync/hamt.go\<close>: path-copying lookup, insertion, deletion and
  traversal on nodes, the \<^verbatim>\<open>HAMT\<close> wrapper with its element count, and the Merkle root over the
  sorted dots. A \<^verbatim>\<open>NodePtr\<close> is a \<^verbatim>\<open>HamtNode option\<close> (the null pointer is \<^verbatim>\<open>None\<close>); the arena that holds
  the nodes, its reference counts and the deep copies of leaves are not visible in the value of a
  persistent tree and are left out. \<^verbatim>\<open>maphash\<close> and \<^verbatim>\<open>sha256\<close> are arguments.
\<close>

section \<open>Data\<close>

datatype CausalDot = CausalDot (NodeID: bytes) (Counter: u64)

record CRDTEntry =
  PayloadDigest :: bytes
  OriginNodeID :: bytes
  DotNodeID :: bytes
  DotCounter :: u64
  SystemTime :: i64
  ValidTimeStart :: i64
  ValidTimeEnd :: i64
  AssertionTime :: i64
  DecisionTime :: i64
  H3Index :: u64

definition Dot :: "CRDTEntry \<Rightarrow> CausalDot" where
  "Dot e = CausalDot (DotNodeID e) (DotCounter e)"

record hamtLeaf =
  leafHash :: u64
  entityID :: gostring
  crdtEntries :: "CRDTEntry list"

definition makeLeaf :: "gostring \<Rightarrow> u64 \<Rightarrow> CRDTEntry list \<Rightarrow> hamtLeaf" where
  "makeLeaf key h es = \<lparr>leafHash = h, entityID = key, crdtEntries = es\<rparr>"

datatype HamtNode = HamtNode (bitmap: u32) (leaves: "hamtLeaf list") (children: "HamtNode list")

definition hamtBits :: nat where "hamtBits = 5"
definition hamtMask :: u64 where "hamtMask = 31"
definition hamtMaxDepth :: nat where "hamtMaxDepth = 7"

text \<open>\<^verbatim>\<open>(hash >> (uint(depth) * hamtBits)) & hamtMask\<close>, the child slot of a hash at a depth.\<close>

definition hashIdx :: "u64 \<Rightarrow> nat \<Rightarrow> nat" where
  "hashIdx h depth = unat (drop_bit (depth * hamtBits) h AND hamtMask)"

definition popcount :: "u32 \<Rightarrow> nat" where
  "popcount x = length (filter (bit x) [0..<32])"

definition bitOf :: "nat \<Rightarrow> u32" where
  "bitOf idx = push_bit idx 1"

definition childPos :: "u32 \<Rightarrow> nat \<Rightarrow> nat" where
  "childPos bm idx = popcount (bm AND (bitOf idx - 1))"

definition leafNode :: "hamtLeaf list \<Rightarrow> HamtNode" where
  "leafNode ls = HamtNode 0 ls []"

section \<open>Operations on nodes\<close>

text \<open>
  The children slice has exactly \<^verbatim>\<open>popcount(bitmap)\<close> elements, so the index test on \<^verbatim>\<open>children\<close> below
  never fails on a tree the code can build (the invariant of the next section); the branch stands
  for the out-of-range panic.
\<close>

function NodePtr_get :: "HamtNode option \<Rightarrow> gostring \<Rightarrow> u64 \<Rightarrow> nat \<Rightarrow> CRDTEntry list" where
  "NodePtr_get None key h depth = []"
| "NodePtr_get (Some n) key h depth =
     (if leaves n \<noteq> [] then
        (case find (\<lambda>l. entityID l = key) (leaves n) of
           Some l \<Rightarrow> crdtEntries l
         | None \<Rightarrow> [])
      else if depth \<ge> hamtMaxDepth then []
      else
        let idx = hashIdx h depth; b = bitOf idx in
        if bitmap n AND b = 0 then []
        else
          let pos = childPos (bitmap n) idx in
          if pos < length (children n)
          then NodePtr_get (Some (children n ! pos)) key h (depth + 1)
          else [])"
  by pat_completeness auto
termination
  by (relation "measure (\<lambda>(p, key, h, depth). hamtMaxDepth - depth)") auto

definition updateLeafEntry ::
  "hamtLeaf list \<Rightarrow> nat \<Rightarrow> gostring \<Rightarrow> u64 \<Rightarrow> CRDTEntry list \<Rightarrow> HamtNode option" where
  "updateLeafEntry oldLeaves idx key h es =
     (if es = [] then
        (if length oldLeaves = 1 then None
         else Some (leafNode (take idx oldLeaves @ drop (Suc idx) oldLeaves)))
      else Some (leafNode (oldLeaves[idx := makeLeaf key h es])))"

definition appendToCollision ::
  "HamtNode \<Rightarrow> hamtLeaf list \<Rightarrow> gostring \<Rightarrow> u64 \<Rightarrow> CRDTEntry list \<Rightarrow> HamtNode" where
  "appendToCollision p oldLeaves key h es =
     (if es = [] then p else leafNode (oldLeaves @ [makeLeaf key h es]))"

function setCollision ::
  "HamtNode \<Rightarrow> u64 \<Rightarrow> gostring \<Rightarrow> u64 \<Rightarrow> CRDTEntry list \<Rightarrow> nat \<Rightarrow> HamtNode" where
  "setCollision p oldHash newKey newHash newEntries depth =
     (if depth \<ge> hamtMaxDepth then appendToCollision p (leaves p) newKey newHash newEntries
      else
        let idxOld = hashIdx oldHash depth; idxNew = hashIdx newHash depth in
        if idxOld = idxNew then
          HamtNode (bitOf idxOld) []
            [setCollision p oldHash newKey newHash newEntries (depth + 1)]
        else
          let newLeaf = leafNode [makeLeaf newKey newHash newEntries] in
          HamtNode (bitOf idxOld OR bitOf idxNew) []
            (if idxOld < idxNew then [p, newLeaf] else [newLeaf, p]))"
  by pat_completeness auto
termination
  by (relation "measure (\<lambda>(p, oh, k, nh, es, depth). hamtMaxDepth - depth)") auto

declare setCollision.simps [simp del] NodePtr_get.simps [simp del]

lemma size_child_less:
  "i < length (children n) \<Longrightarrow> size (children n ! i) < size n"
  by (cases n) (auto dest!: nth_mem size_list_estimation' [of _ _ _ size, OF _ order_refl])

text \<open>
  The comparison of the new child with the old one is on pointers in the source; equal pointers
  are equal nodes, and where two different pointers hold equal nodes the rebuilt node equals the
  old one, so the comparison of values returns the same tree.
\<close>

function NodePtr_set ::
  "HamtNode option \<Rightarrow> gostring \<Rightarrow> u64 \<Rightarrow> CRDTEntry list \<Rightarrow> nat \<Rightarrow> HamtNode option" where
  "NodePtr_set None key h es depth = None"
| "NodePtr_set (Some n) key h es depth =
     (if leaves n \<noteq> [] then
        (case find_index (\<lambda>l. entityID l = key) (leaves n) of
           Some i \<Rightarrow> updateLeafEntry (leaves n) i key h es
         | None \<Rightarrow>
             if es = [] then Some n
             else Some (setCollision n (leafHash (leaves n ! 0)) key h es depth))
      else
        let idx = hashIdx h depth; b = bitOf idx; pos = childPos (bitmap n) idx in
        if bitmap n AND b = 0 then
          (if es = [] then Some n
           else Some (HamtNode (bitmap n OR b) []
                  (take pos (children n) @ leafNode [makeLeaf key h es] # drop pos (children n))))
        else if pos < length (children n) then
          (let childPtr = children n ! pos in
           case NodePtr_set (Some childPtr) key h es (depth + 1) of
             None \<Rightarrow>
               (if bitmap n AND NOT b = 0 then None
                else Some (HamtNode (bitmap n AND NOT b) []
                       (take pos (children n) @ drop (Suc pos) (children n))))
           | Some newChild \<Rightarrow>
               (if newChild = childPtr then Some n
                else Some (HamtNode (bitmap n) [] ((children n)[pos := newChild]))))
        else Some n)"
  by pat_completeness auto

termination
  by (relation "measure (\<lambda>(p, key, h, es, depth). case p of None \<Rightarrow> 0 | Some n \<Rightarrow> size n)")
     (auto simp: size_child_less)

declare NodePtr_set.simps [simp del]

definition NodePtr_delete :: "HamtNode option \<Rightarrow> gostring \<Rightarrow> u64 \<Rightarrow> nat \<Rightarrow> HamtNode option" where
  "NodePtr_delete p key h depth = NodePtr_set p key h [] depth"

text \<open>
  A traversal calls \<^verbatim>\<open>fn\<close> on each binding and stops at the first \<^verbatim>\<open>false\<close>. The callback's effects are a
  state threaded through the calls.
\<close>

fun visit :: "('a \<Rightarrow> 's \<Rightarrow> bool \<times> 's) \<Rightarrow> 'a list \<Rightarrow> 's \<Rightarrow> bool \<times> 's" where
  "visit f [] s = (True, s)"
| "visit f (x # xs) s = (case f x s of (go, s') \<Rightarrow> if go then visit f xs s' else (False, s'))"

lemma visit_cong [fundef_cong]:
  "xs = ys \<Longrightarrow> s = t \<Longrightarrow> (\<And>x s. x \<in> set ys \<Longrightarrow> f x s = g x s) \<Longrightarrow> visit f xs s = visit g ys t"
  by (induction xs arbitrary: ys s t) (auto split: prod.splits)

fun forEach_node :: "(gostring \<Rightarrow> CRDTEntry list \<Rightarrow> 's \<Rightarrow> bool \<times> 's) \<Rightarrow> HamtNode \<Rightarrow> 's \<Rightarrow> bool \<times> 's" where
  "forEach_node fn (HamtNode bm ls cs) s =
     (if ls \<noteq> [] then visit (\<lambda>l. fn (entityID l) (crdtEntries l)) ls s
      else visit (\<lambda>c. forEach_node fn c) cs s)"

definition forEach ::
  "(gostring \<Rightarrow> CRDTEntry list \<Rightarrow> 's \<Rightarrow> bool \<times> 's) \<Rightarrow> HamtNode option \<Rightarrow> 's \<Rightarrow> bool \<times> 's" where
  "forEach fn p s = (case p of None \<Rightarrow> (True, s) | Some n \<Rightarrow> forEach_node fn n s)"

section \<open>The \<^verbatim>\<open>HAMT\<close> wrapper\<close>

type_synonym Seed = u64

record HAMT =
  root :: "HamtNode option"
  seed :: Seed
  hamt_count :: int

definition newHAMTWithSeed :: "Seed \<Rightarrow> HAMT" where
  "newHAMTWithSeed sd = \<lparr>root = Some (HamtNode 0 [] []), seed = sd, hamt_count = 0\<rparr>"

text \<open>\<^verbatim>\<open>NewHAMT\<close> draws its seed with \<^verbatim>\<open>maphash.MakeSeed\<close>: the seed drawn is the argument.\<close>

definition NewHAMT :: "Seed \<Rightarrow> HAMT" where
  "NewHAMT madeSeed = \<lparr>root = Some (HamtNode 0 [] []), seed = madeSeed, hamt_count = 0\<rparr>"

definition hashKey :: "(Seed \<Rightarrow> gostring \<Rightarrow> u64) \<Rightarrow> HAMT \<Rightarrow> gostring \<Rightarrow> u64" where
  "hashKey maphash h key = maphash (seed h) key"

definition Len :: "HAMT \<Rightarrow> int" where
  "Len h = hamt_count h"

definition HAMT_Get :: "(Seed \<Rightarrow> gostring \<Rightarrow> u64) \<Rightarrow> HAMT \<Rightarrow> gostring \<Rightarrow> CRDTEntry list" where
  "HAMT_Get maphash h key = NodePtr_get (root h) key (hashKey maphash h key) 0"

definition HAMT_Set ::
  "(Seed \<Rightarrow> gostring \<Rightarrow> u64) \<Rightarrow> HAMT \<Rightarrow> gostring \<Rightarrow> CRDTEntry list \<Rightarrow> HAMT" where
  "HAMT_Set maphash h key es =
     (let hash = hashKey maphash h key;
          existing = NodePtr_get (root h) key hash 0;
          newRoot = NodePtr_set (root h) key hash es 0;
          delta = (if existing = [] \<and> es \<noteq> [] then 1
                   else if existing \<noteq> [] \<and> es = [] then - 1 else 0)
      in \<lparr>root = newRoot, seed = seed h, hamt_count = hamt_count h + delta\<rparr>)"

definition HAMT_Delete :: "(Seed \<Rightarrow> gostring \<Rightarrow> u64) \<Rightarrow> HAMT \<Rightarrow> gostring \<Rightarrow> HAMT" where
  "HAMT_Delete maphash h key =
     (let hash = hashKey maphash h key;
          existing = NodePtr_get (root h) key hash 0
      in if existing = [] then h
         else \<lparr>root = NodePtr_delete (root h) key hash 0, seed = seed h, hamt_count = hamt_count h - 1\<rparr>)"

definition ForEach ::
  "(gostring \<Rightarrow> CRDTEntry list \<Rightarrow> 's \<Rightarrow> bool \<times> 's) \<Rightarrow> HAMT \<Rightarrow> 's \<Rightarrow> 's" where
  "ForEach fn h s = snd (forEach fn (root h) s)"

definition AllEntries :: "HAMT \<Rightarrow> CRDTEntry list" where
  "AllEntries h = ForEach (\<lambda>_ es result. (True, result @ es)) h []"

text \<open>The order of \<^verbatim>\<open>sort.Slice\<close> in \<^verbatim>\<open>MerkleRoot\<close>: the node id byte by byte, then the counter.\<close>

definition dotPairLess :: "CausalDot \<Rightarrow> CausalDot \<Rightarrow> bool" where
  "dotPairLess a b =
     (let c = cmpBytes (NodeID a) (NodeID b) in
      if c \<noteq> 0 then c < 0 else Counter a < Counter b)"

instantiation CausalDot :: linorder
begin

definition less_CausalDot :: "CausalDot \<Rightarrow> CausalDot \<Rightarrow> bool" where
  "less_CausalDot a b \<longleftrightarrow> dotPairLess a b"

definition less_eq_CausalDot :: "CausalDot \<Rightarrow> CausalDot \<Rightarrow> bool" where
  "less_eq_CausalDot a b \<longleftrightarrow> dotPairLess a b \<or> a = b"

instance
proof
  fix x y z :: CausalDot
  show "(x < y) = (x \<le> y \<and> \<not> y \<le> x)" "x \<le> x"
    by (cases x; cases y; auto simp: less_CausalDot_def less_eq_CausalDot_def dotPairLess_def
          Let_def split: if_splits)+
  show "x \<le> y \<Longrightarrow> y \<le> z \<Longrightarrow> x \<le> z" "x \<le> y \<Longrightarrow> y \<le> x \<Longrightarrow> x = y" "x \<le> y \<or> y \<le> x"
    by (cases x; cases y; cases z; auto simp: less_eq_CausalDot_def dotPairLess_def Let_def
          split: if_splits)+
qed

end

lemma less_dot_iff:
  "a < b \<longleftrightarrow> NodeID a < NodeID b \<or> NodeID a = NodeID b \<and> Counter a < Counter b"
  by (auto simp: less_CausalDot_def dotPairLess_def Let_def)

definition dotBytes :: "CausalDot \<Rightarrow> bytes" where
  "dotBytes d = NodeID d @ be_bytes 8 (Counter d)"

definition hashDotPairs :: "(bytes \<Rightarrow> bytes) \<Rightarrow> CausalDot list \<Rightarrow> bytes" where
  "hashDotPairs sha256 pairs =
     (if pairs = [] then replicate 32 0 else sha256 (concat (map dotBytes pairs)))"

definition MerkleRoot :: "(bytes \<Rightarrow> bytes) \<Rightarrow> HAMT \<Rightarrow> bytes" where
  "MerkleRoot sha256 h =
     (let pairs = ForEach (\<lambda>_ es acc. (True, acc @ map Dot es)) h [] in
      hashDotPairs sha256 (sort pairs))"

section \<open>Abstraction and invariant\<close>

text \<open>The bindings of a subtree in traversal order, and the slots of a branch node.\<close>

fun binds :: "HamtNode \<Rightarrow> (gostring \<times> CRDTEntry list) list" where
  "binds (HamtNode bm ls cs) =
     (if ls \<noteq> [] then map (\<lambda>l. (entityID l, crdtEntries l)) ls else concat (map binds cs))"

definition bits_of :: "u32 \<Rightarrow> nat list" where
  "bits_of bm = filter (bit bm) [0..<32]"

definition leaves_ok :: "(gostring \<Rightarrow> u64) \<Rightarrow> hamtLeaf list \<Rightarrow> bool" where
  "leaves_ok H ls \<longleftrightarrow>
     distinct (map entityID ls) \<and> (\<forall>l\<in>set ls. leafHash l = H (entityID l) \<and> crdtEntries l \<noteq> [])"

text \<open>
  The shape that the operations keep: a leaf node has no children, and more than one key only at
  the depth limit; a branch node has no leaves, one child per set bit, and every key below the
  child of slot \<^verbatim>\<open>i\<close> has \<^verbatim>\<open>i\<close> as its hash segment at this depth.
\<close>

lemma size_zip_child [termination_simp]:
  "(i, c) \<in> set (zip is cs) \<Longrightarrow> size c < Suc (size_list size cs)"
  by (auto dest!: set_zip_rightD simp: less_Suc_eq_le size_list_estimation')

function node_ok :: "(gostring \<Rightarrow> u64) \<Rightarrow> nat \<Rightarrow> HamtNode \<Rightarrow> bool" where
  "node_ok H d (HamtNode bm ls cs) =
     (if ls \<noteq> [] then
        bm = 0 \<and> cs = [] \<and> leaves_ok H ls \<and> (length ls = 1 \<or> hamtMaxDepth \<le> d)
      else
        d < hamtMaxDepth \<and> length cs = popcount bm \<and>
        (\<forall>(i, c) \<in> set (zip (bits_of bm) cs).
           node_ok H (Suc d) c \<and> binds c \<noteq> [] \<and> (\<forall>k \<in> fst ` set (binds c). hashIdx (H k) d = i)))"
  by pat_completeness auto
termination
  by (relation "measure (\<lambda>(H, d, n). size n)")
     (auto simp: size_zip_child)

definition hamt_map :: "HAMT \<Rightarrow> gostring \<Rightarrow> CRDTEntry list" where
  "hamt_map h k =
     (case root h of None \<Rightarrow> []
      | Some n \<Rightarrow> (case map_of (binds n) k of None \<Rightarrow> [] | Some es \<Rightarrow> es))"

definition hamt_binds :: "HAMT \<Rightarrow> (gostring \<times> CRDTEntry list) list" where
  "hamt_binds h = (case root h of None \<Rightarrow> [] | Some n \<Rightarrow> binds n)"

text \<open>A map built by insertions from the empty one: the root is not null.\<close>

definition hamt_ok :: "(Seed \<Rightarrow> gostring \<Rightarrow> u64) \<Rightarrow> HAMT \<Rightarrow> bool" where
  "hamt_ok maphash h \<longleftrightarrow>
     (case root h of None \<Rightarrow> False | Some n \<Rightarrow> node_ok (maphash (seed h)) 0 n) \<and>
     hamt_count h = int (length (hamt_binds h))"

section \<open>Bits, slots and ranks\<close>

lemma hashIdx_less [simp]: "hashIdx h d < 32"
proof -
  have "drop_bit (d * hamtBits) h AND hamtMask = take_bit 5 (drop_bit (d * hamtBits) h)"
    by (simp add: hamtMask_def take_bit_eq_mask mask_eq_exp_minus_1)
  then have "hashIdx h d = take_bit 5 (unat (drop_bit (d * hamtBits) h))"
    by (simp add: hashIdx_def unsigned_take_bit_eq)
  then show ?thesis
    using take_bit_nat_less_exp [of 5 "unat (drop_bit (d * hamtBits) h)"] by simp
qed

lemma bit_bitOf [simp]: "i < 32 \<Longrightarrow> bit (bitOf i) j \<longleftrightarrow> j = i"
  by (auto simp: bitOf_def bit_exp_iff)

lemma and_bitOf_eq_0 [simp]: "i < 32 \<Longrightarrow> bm AND bitOf i = 0 \<longleftrightarrow> \<not> bit bm i"
  by (auto intro!: bit_word_eqI simp: bit_and_iff dest: arg_cong [of _ _ "\<lambda>w. bit w i"])

lemma bit_bitOf_minus_1: "i < 32 \<Longrightarrow> bit (bitOf i - 1) j \<longleftrightarrow> j < i"
  by (auto simp: bitOf_def push_bit_eq_mult bit_mask_iff simp flip: mask_eq_exp_minus_1)

definition bits_below :: "u32 \<Rightarrow> nat \<Rightarrow> nat list" where
  "bits_below bm i = filter (bit bm) [0..<i]"

definition bits_above :: "u32 \<Rightarrow> nat \<Rightarrow> nat list" where
  "bits_above bm i = filter (bit bm) [Suc i..<32]"

lemma popcount_bits_of: "popcount bm = length (bits_of bm)"
  by (simp add: popcount_def bits_of_def)

lemma upt_32_split: "i < 32 \<Longrightarrow> [0..<32] = [0..<i] @ i # [Suc i..<32]"
  using upt_add_eq_append [of 0 i "32 - i"] by (simp add: upt_conv_Cons)

lemma childPos_below: "i < 32 \<Longrightarrow> childPos bm i = length (bits_below bm i)"
proof -
  assume i: "i < 32"
  have "filter (bit (bm AND (bitOf i - 1))) [0..<32] = filter (bit bm) [0..<i]"
    using i by (subst upt_32_split [of i]) (auto simp: bit_and_iff bit_bitOf_minus_1 filter_empty_conv
        intro!: filter_cong)
  then show ?thesis by (simp add: childPos_def popcount_def bits_below_def)
qed

lemma bits_of_split:
  "i < 32 \<Longrightarrow> bits_of bm = bits_below bm i @ (if bit bm i then [i] else []) @ bits_above bm i"
  by (simp add: bits_of_def bits_below_def bits_above_def upt_32_split [of i])

lemma bits_below_above_cong:
  assumes "\<And>j. j \<noteq> i \<Longrightarrow> bit bm' j = bit bm j"
  shows "bits_below bm' i = bits_below bm i" "bits_above bm' i = bits_above bm i"
  using assms by (auto simp: bits_below_def bits_above_def intro!: filter_cong)

lemma not_in_below_above [simp]: "i \<notin> set (bits_below bm i)" "i \<notin> set (bits_above bm i)"
  by (auto simp: bits_below_def bits_above_def)

lemma bits_of_eq_Nil: "bits_of bm = [] \<longleftrightarrow> bm = 0"
  by (auto simp: bits_of_def filter_empty_conv intro!: bit_word_eqI)

lemma bits_of_or:
  "i < 32 \<Longrightarrow> bits_of (bm OR bitOf i) = bits_below bm i @ i # bits_above bm i"
  using bits_below_above_cong [of i "bm OR bitOf i" bm]
  by (simp add: bits_of_split [of i] bit_or_iff)

lemma bits_of_clear:
  "i < 32 \<Longrightarrow> bits_of (bm AND NOT (bitOf i)) = bits_below bm i @ bits_above bm i"
proof -
  assume i: "i < 32"
  then have b: "bit (bm AND NOT (bitOf i)) j \<longleftrightarrow> bit bm j \<and> j \<noteq> i" for j
    by (auto simp: bit_and_iff bit_not_iff dest: bit_imp_le_length)
  then show ?thesis
    using i bits_below_above_cong [of i "bm AND NOT (bitOf i)" bm]
    by (simp add: bits_of_split [of i])
qed

lemma bits_of_single: "i < 32 \<Longrightarrow> bits_of (bitOf i) = [i]"
  using bits_of_or [of i 0] by (simp add: bits_below_def bits_above_def)

lemma bits_of_pair: "i < j \<Longrightarrow> j < 32 \<Longrightarrow> bits_of (bitOf i OR bitOf j) = [i, j]"
  by (rule sorted_wrt_strict_unique) (auto simp: bits_of_def bit_or_iff intro: sorted_wrt_filter)

section \<open>Slots of a branch\<close>

definition slot_ok :: "(gostring \<Rightarrow> u64) \<Rightarrow> nat \<Rightarrow> nat \<Rightarrow> HamtNode \<Rightarrow> bool" where
  "slot_ok H d i c \<longleftrightarrow>
     node_ok H (Suc d) c \<and> binds c \<noteq> [] \<and> (\<forall>k \<in> dom (map_of (binds c)). hashIdx (H k) d = i)"

definition slots_ok :: "(gostring \<Rightarrow> u64) \<Rightarrow> nat \<Rightarrow> nat list \<Rightarrow> HamtNode list \<Rightarrow> bool" where
  "slots_ok H d is cs \<longleftrightarrow> list_all2 (slot_ok H d) is cs"

lemma slots_ok_simps [simp]:
  "slots_ok H d [] cs \<longleftrightarrow> cs = []"
  "slots_ok H d (i # is) (c # cs) \<longleftrightarrow> slot_ok H d i c \<and> slots_ok H d is cs"
  by (auto simp: slots_ok_def)

lemma slots_ok_append:
  "length cs1 = length is1 \<Longrightarrow>
   slots_ok H d (is1 @ is2) (cs1 @ cs2) \<longleftrightarrow> slots_ok H d is1 cs1 \<and> slots_ok H d is2 cs2"
  by (simp add: slots_ok_def list_all2_append)

lemma slots_ok_length: "slots_ok H d is cs \<Longrightarrow> length cs = length is"
  by (auto simp: slots_ok_def dest: list_all2_lengthD)

lemma node_ok_branch [simp]:
  "node_ok H d (HamtNode bm [] cs) \<longleftrightarrow> d < hamtMaxDepth \<and> slots_ok H d (bits_of bm) cs"
  by (auto simp: slots_ok_def slot_ok_def popcount_bits_of list_all2_iff dom_map_of_conv_image_fst)

lemma node_ok_leaf [simp]:
  "ls \<noteq> [] \<Longrightarrow> node_ok H d (HamtNode bm ls cs) \<longleftrightarrow>
     bm = 0 \<and> cs = [] \<and> leaves_ok H ls \<and> (length ls = 1 \<or> hamtMaxDepth \<le> d)"
  by simp

declare node_ok.simps [simp del]

lemma other_slots:
  assumes "slots_ok H d is cs" "hashIdx (H k) d \<notin> set is" "c \<in> set cs"
  shows "map_of (binds c) k = None"
proof -
  obtain j where "j < length cs" "c = cs ! j" "j < length is" "slot_ok H d (is ! j) c"
    using assms(1,3) by (auto simp: slots_ok_def list_all2_conv_all_nth in_set_conv_nth)
  moreover then have "is ! j \<noteq> hashIdx (H k) d" using assms(2) nth_mem by metis
  ultimately show ?thesis by (force simp: slot_ok_def domIff)
qed

lemma concat_binds_hit:
  assumes "slots_ok H d is1 cs1" "slots_ok H d is2 cs2"
    and "hashIdx (H k) d \<notin> set is1" "hashIdx (H k) d \<notin> set is2"
  shows "map_of (concat (map binds (cs1 @ c # cs2))) k = map_of (binds c) k"
proof -
  have "map_of (concat (map binds cs1 @ binds c # map binds cs2)) k = map_of (binds c) k"
    using other_slots [of H d is1 cs1 k] other_slots [of H d is2 cs2 k] assms
    by (intro map_of_concat_split) (auto simp: map_of_eq_None_iff)
  then show ?thesis by simp
qed

lemma concat_binds_miss:
  assumes "slots_ok H d is cs" "hashIdx (H k) d \<notin> set is"
  shows "map_of (concat (map binds cs)) k = None"
  using other_slots [of H d "is" cs k] assms
  by (intro map_of_concat_None) (auto simp: map_of_eq_None_iff)

text \<open>The children of a branch, cut at the slot of an index: with the bit set and with it clear.\<close>

lemma branch_hit:
  assumes "slots_ok H d (bits_of bm) cs" "bit bm i" "i < 32"
  obtains cs1 c cs2 where "cs = cs1 @ c # cs2" "childPos bm i = length cs1"
    "slots_ok H d (bits_below bm i) cs1" "slot_ok H d i c" "slots_ok H d (bits_above bm i) cs2"
proof -
  have "list_all2 (slot_ok H d) (bits_below bm i @ i # bits_above bm i) cs"
    using assms bits_of_split [of i bm] by (simp add: slots_ok_def)
  then obtain cs1 c cs2 where cs: "cs = cs1 @ c # cs2" "length cs1 = length (bits_below bm i)"
    "list_all2 (slot_ok H d) (bits_below bm i) cs1" "slot_ok H d i c"
    "list_all2 (slot_ok H d) (bits_above bm i) cs2"
    by (auto simp: list_all2_append1 list_all2_Cons1)
  with that [of cs1 c cs2] show thesis
    using assms(3) by (simp add: slots_ok_def childPos_below)
qed

lemma branch_miss:
  assumes "slots_ok H d (bits_of bm) cs" "\<not> bit bm i" "i < 32"
  obtains cs1 cs2 where "cs = cs1 @ cs2" "childPos bm i = length cs1"
    "slots_ok H d (bits_below bm i) cs1" "slots_ok H d (bits_above bm i) cs2"
proof -
  have "list_all2 (slot_ok H d) (bits_below bm i @ bits_above bm i) cs"
    using assms bits_of_split [of i bm] by (simp add: slots_ok_def)
  then obtain cs1 cs2 where cs: "cs = cs1 @ cs2" "length cs1 = length (bits_below bm i)"
    "list_all2 (slot_ok H d) (bits_below bm i) cs1"
    "list_all2 (slot_ok H d) (bits_above bm i) cs2"
    by (auto simp: list_all2_append1)
  with that [of cs1 cs2] show thesis
    using assms(3) by (simp add: slots_ok_def childPos_below)
qed

lemma not_in_bits_of: "hashIdx h d = i \<Longrightarrow> \<not> bit bm i \<Longrightarrow> i \<notin> set (bits_of bm)"
  by (auto simp: bits_of_def)

section \<open>Lookup\<close>

lemma find_leaf:
  "distinct (map entityID ls) \<Longrightarrow>
   (case find (\<lambda>l. entityID l = k) ls of Some l \<Rightarrow> Some (crdtEntries l) | None \<Rightarrow> None) =
   map_of (map (\<lambda>l. (entityID l, crdtEntries l)) ls) k"
  by (induction ls) auto

definition lookup_es :: "(gostring \<rightharpoonup> CRDTEntry list) \<Rightarrow> gostring \<Rightarrow> CRDTEntry list" where
  "lookup_es m k = (case m k of None \<Rightarrow> [] | Some es \<Rightarrow> es)"

lemma lookup_es_upd [simp]:
  "lookup_es (m(k := v)) k' = (if k' = k then (case v of None \<Rightarrow> [] | Some es \<Rightarrow> es) else lookup_es m k')"
  by (simp add: lookup_es_def)

lemma NodePtr_get_correct:
  "node_ok H d n \<Longrightarrow> NodePtr_get (Some n) k (H k) d = lookup_es (map_of (binds n)) k"
proof (induction "Some n" k "H k" d arbitrary: n rule: NodePtr_get.induct)
  case (2 n k d)
  obtain bm ls cs where n: "n = HamtNode bm ls cs" by (cases n)
  show ?case
  proof (cases "ls = []")
    case False
    then show ?thesis
      using 2(2) n find_leaf [of ls k]
      by (auto simp: NodePtr_get.simps lookup_es_def leaves_ok_def split: option.splits)
  next
    case True
    let ?i = "hashIdx (H k) d"
    have ok: "d < hamtMaxDepth" "slots_ok H d (bits_of bm) cs" using 2(2) n True by auto
    show ?thesis
    proof (cases "bit bm ?i")
      case True
      from branch_hit [OF ok(2) True] obtain cs1 c cs2 where cs: "cs = cs1 @ c # cs2"
        "childPos bm ?i = length cs1" "slots_ok H d (bits_below bm ?i) cs1" "slot_ok H d ?i c"
        "slots_ok H d (bits_above bm ?i) cs2" by auto
      then have "NodePtr_get (Some c) k (H k) (d + 1) = lookup_es (map_of (binds c)) k"
        using 2(1) True \<open>ls = []\<close> ok n by (simp add: slot_ok_def)
      with cs show ?thesis
        using True \<open>ls = []\<close> ok n
          concat_binds_hit [of H d "bits_below bm ?i" cs1 "bits_above bm ?i" cs2 k c]
        by (simp add: NodePtr_get.simps Let_def slot_ok_def lookup_es_def)
    next
      case False
      then show ?thesis
        using \<open>ls = []\<close> ok n concat_binds_miss [OF ok(2), of k] not_in_bits_of [of "H k" d ?i bm]
        by (simp add: NodePtr_get.simps Let_def lookup_es_def)
    qed
  qed
qed

section \<open>Update\<close>

definition upd_es ::
  "(gostring \<rightharpoonup> CRDTEntry list) \<Rightarrow> gostring \<Rightarrow> CRDTEntry list \<Rightarrow> (gostring \<rightharpoonup> CRDTEntry list)" where
  "upd_es m k es = m(k := (if es = [] then None else Some es))"

definition ptr_map :: "HamtNode option \<Rightarrow> (gostring \<rightharpoonup> CRDTEntry list)" where
  "ptr_map p = (case p of None \<Rightarrow> Map.empty | Some n \<Rightarrow> map_of (binds n))"

lemma binds_leafNode [simp]:
  "ls \<noteq> [] \<Longrightarrow> binds (leafNode ls) = map (\<lambda>l. (entityID l, crdtEntries l)) ls"
  by (simp add: leafNode_def)

lemma makeLeaf_sel [simp]:
  "leafHash (makeLeaf k h es) = h" "entityID (makeLeaf k h es) = k" "crdtEntries (makeLeaf k h es) = es"
  by (simp_all add: makeLeaf_def)

lemma map_of_split_key:
  assumes "k \<notin> fst ` set xs" "k \<notin> fst ` set ys"
  shows "map_of (xs @ (k, v) # ys) = (map_of (xs @ ys))(k \<mapsto> v)"
    and "map_of (xs @ ys) = (map_of (xs @ (k, v) # ys))(k := None)"
proof -
  have "map_of xs k = None" "map_of ys k = None"
    using assms by (auto simp: map_of_eq_None_iff)
  then show "map_of (xs @ (k, v) # ys) = (map_of (xs @ ys))(k \<mapsto> v)"
    and "map_of (xs @ ys) = (map_of (xs @ (k, v) # ys))(k := None)"
    by (auto simp: fun_eq_iff map_add_def split: option.splits)
qed

lemma updateLeafEntry_correct:
  assumes ok: "leaves_ok H ls" and i: "i < length ls" "entityID (ls ! i) = k"
    and d: "length ls = 1 \<or> hamtMaxDepth \<le> d"
  shows "ptr_map (updateLeafEntry ls i k (H k) es) =
           upd_es (map_of (map (\<lambda>l. (entityID l, crdtEntries l)) ls)) k es"
    and "updateLeafEntry ls i k (H k) es = Some n' \<Longrightarrow> node_ok H d n' \<and> binds n' \<noteq> []"
proof -
  let ?f = "\<lambda>l. (entityID l, crdtEntries l)"
  define l1 l2 where "l1 = take i ls" and "l2 = drop (Suc i) ls"
  have ls: "ls = l1 @ ls ! i # l2"
    unfolding l1_def l2_def using i(1) by (rule id_take_nth_drop)
  have len: "length l1 = i" using i by (simp add: l1_def)
  obtain l where l: "ls = l1 @ l # l2" "entityID l = k" using ls i by metis
  then have upd: "ls[i := x] = l1 @ x # l2" for x using len by (auto simp flip: len)
  have other: "k \<notin> fst ` set (map ?f l1)" "k \<notin> fst ` set (map ?f l2)"
    using ok l by (auto simp: leaves_ok_def)
  have f: "map ?f ls = map ?f l1 @ (k, crdtEntries l) # map ?f l2"
    using l by simp
  show "ptr_map (updateLeafEntry ls i k (H k) es) = upd_es (map_of (map ?f ls)) k es"
  proof (cases "es = []")
    case True
    have "map_of (map ?f (l1 @ l2)) = (map_of (map ?f ls))(k := None)"
      using map_of_split_key(2) [OF other] unfolding f map_append .
    then show ?thesis
      using True l len by (cases "l1 @ l2") (auto simp: updateLeafEntry_def ptr_map_def upd_es_def)
  next
    case False
    have "map_of (map ?f (l1 @ makeLeaf k (H k) es # l2)) = (map_of (map ?f ls))(k \<mapsto> es)"
      unfolding f by (simp only: list.map map_append makeLeaf_sel map_of_split_key(1) [OF other]
          fun_upd_upd)
    then show ?thesis
      using False by (simp add: upd updateLeafEntry_def ptr_map_def upd_es_def)
  qed
  have "leaves_ok H (l1 @ l2)" "es \<noteq> [] \<Longrightarrow> leaves_ok H (l1 @ makeLeaf k (H k) es # l2)"
    using ok l by (auto simp: leaves_ok_def)
  then show "updateLeafEntry ls i k (H k) es = Some n' \<Longrightarrow> node_ok H d n' \<and> binds n' \<noteq> []"
    using d l len by (cases "l1 @ l2") (auto simp: upd updateLeafEntry_def leafNode_def split: if_splits)
qed

lemma node_ok_leaf_mono:
  "node_ok H d n \<Longrightarrow> leaves n \<noteq> [] \<Longrightarrow> d \<le> d' \<Longrightarrow> node_ok H d' n"
  by (cases n) auto

lemma setCollision_correct:
  assumes "node_ok H d p" "leaves p \<noteq> []" "map_of (binds p) k = None" "es \<noteq> []"
    and "oh = leafHash (leaves p ! 0)"
  shows "node_ok H d (setCollision p oh k (H k) es d) \<and>
         map_of (binds (setCollision p oh k (H k) es d)) = (map_of (binds p))(k \<mapsto> es)"
  using assms
proof (induction "hamtMaxDepth - d" arbitrary: d)
  case 0
  obtain ls where p: "p = HamtNode 0 ls []" "ls \<noteq> []" "leaves_ok H ls"
    using 0 by (cases p) auto
  then have "k \<notin> entityID ` set ls" using 0 by (auto simp: map_of_eq_None_iff image_image)
  then show ?case
    using p 0 map_of_split_key(1) [of k "binds p" "[]" es]
    by (auto simp: setCollision.simps [of _ _ _ _ _ d] appendToCollision_def leafNode_def
        leaves_ok_def image_image)
next
  case (Suc m)
  then have d: "d < hamtMaxDepth" by simp
  obtain l where p: "p = HamtNode 0 [l] []" "leaves_ok H [l]"
    using Suc(3,4) d by (cases p; cases "leaves p") auto
  let ?i = "hashIdx oh d" and ?j = "hashIdx (H k) d"
  have oh: "oh = H (entityID l)" using p Suc(7) by (simp add: leaves_ok_def)
  have k: "entityID l \<noteq> k" using p Suc(5) by (auto split: if_splits)
  have slots: "slot_ok H d ?i p" "slot_ok H d ?j (leafNode [makeLeaf k (H k) es])"
    using p oh Suc(6) by (auto simp: slot_ok_def leafNode_def leaves_ok_def)
  show ?case
  proof (cases "?i = ?j")
    case True
    have IH: "node_ok H (Suc d) (setCollision p oh k (H k) es (Suc d))"
      "map_of (binds (setCollision p oh k (H k) es (Suc d))) = (map_of (binds p))(k \<mapsto> es)"
      using Suc(1) [of "Suc d"] Suc(2-7) node_ok_leaf_mono [of H d p "Suc d"] by auto
    then have "binds (setCollision p oh k (H k) es (Suc d)) \<noteq> []"
      by (metis map_of.simps(1) map_upd_nonempty)
    then have "slot_ok H d ?i (setCollision p oh k (H k) es (Suc d))"
      using IH True p oh by (auto simp: slot_ok_def)
    then show ?thesis
      using IH True d by (simp add: setCollision.simps [of _ _ _ _ _ d] Let_def bits_of_single)
  next
    case False
    then show ?thesis
      using d slots p k bits_of_pair [of ?i ?j] bits_of_pair [of ?j ?i]
      by (cases "?i < ?j")
         (auto simp: setCollision.simps [of _ _ _ _ _ d] Let_def fun_eq_iff or.commute)
  qed
qed

text \<open>What an update of a subtree at depth \<^verbatim>\<open>d\<close> promises, and the three ways a branch is rebuilt.\<close>

definition set_spec ::
  "(gostring \<Rightarrow> u64) \<Rightarrow> nat \<Rightarrow> HamtNode \<Rightarrow> gostring \<Rightarrow> CRDTEntry list \<Rightarrow> HamtNode option \<Rightarrow> bool" where
  "set_spec H d n k es p \<longleftrightarrow>
     ptr_map p = upd_es (map_of (binds n)) k es \<and>
     (p = None \<longrightarrow> map_of (binds n) k \<noteq> None) \<and>
     (\<forall>n'. p = Some n' \<longrightarrow> node_ok H d n' \<and> (binds n \<noteq> [] \<or> es \<noteq> [] \<longrightarrow> binds n' \<noteq> []))"

lemma set_spec_same: "node_ok H d n \<Longrightarrow> map_of (binds n) k = None \<Longrightarrow> set_spec H d n k [] (Some n)"
  by (auto simp: set_spec_def ptr_map_def upd_es_def)

definition branch_at ::
  "(gostring \<Rightarrow> u64) \<Rightarrow> nat \<Rightarrow> gostring \<Rightarrow> u32 \<Rightarrow> nat \<Rightarrow> HamtNode list \<Rightarrow> HamtNode list \<Rightarrow> bool" where
  "branch_at H d k bm i cs1 cs2 \<longleftrightarrow>
     i = hashIdx (H k) d \<and> d < hamtMaxDepth \<and>
     slots_ok H d (bits_below bm i) cs1 \<and> slots_ok H d (bits_above bm i) cs2"

lemma branch_atD:
  assumes "branch_at H d k bm i cs1 cs2"
  shows "i = hashIdx (H k) d" "i < 32" "d < hamtMaxDepth"
    "slots_ok H d (bits_below bm i) cs1" "slots_ok H d (bits_above bm i) cs2"
    "length cs1 = length (bits_below bm i)"
  using assms by (auto simp: branch_at_def slots_ok_length)

lemma branch_lookup:
  "branch_at H d k bm i cs1 cs2 \<Longrightarrow>
   map_of (concat (map binds (cs1 @ c # cs2))) k = map_of (binds c) k"
  by (rule concat_binds_hit [of H d "bits_below bm i" _ "bits_above bm i"]) (auto simp: branch_at_def)

lemma branch_lookup_other:
  assumes "map_of (binds c) k' = map_of (binds c') k'"
  shows "map_of (concat (map binds (cs1 @ c # cs2))) k' =
         map_of (concat (map binds (cs1 @ c' # cs2))) k'"
  using assms by (simp add: map_add_def split: option.splits)

lemma branch_lookup_without:
  assumes "map_of (binds c) k' = None"
  shows "map_of (concat (map binds (cs1 @ cs2))) k' = map_of (concat (map binds (cs1 @ c # cs2))) k'"
  using assms by (simp add: map_add_def split: option.splits)

lemma branch_replace:
  assumes b: "branch_at H d k bm i cs1 cs2"
    and c: "slot_ok H d i c" and bit: "bit bm i" and sp: "set_spec H (Suc d) c k es (Some c')"
  shows "set_spec H d (HamtNode bm [] (cs1 @ c # cs2)) k es (Some (HamtNode bm [] (cs1 @ c' # cs2)))"
proof -
  have c': "map_of (binds c') = upd_es (map_of (binds c)) k es" "binds c' \<noteq> []" "node_ok H (Suc d) c'"
    using sp c by (auto simp: set_spec_def ptr_map_def slot_ok_def)
  then have "slot_ok H d i c'"
    using c branch_atD(1) [OF b] by (auto simp: slot_ok_def upd_es_def split: if_splits)
  moreover have "map_of (concat (map binds (cs1 @ c' # cs2))) =
      upd_es (map_of (concat (map binds (cs1 @ c # cs2)))) k es"
  proof
    fix k'
    show "map_of (concat (map binds (cs1 @ c' # cs2))) k' =
        upd_es (map_of (concat (map binds (cs1 @ c # cs2)))) k es k'"
      using c' branch_lookup [OF b, of c'] branch_lookup_other [of c k' c']
      by (cases "k' = k") (auto simp: upd_es_def)
  qed
  ultimately show ?thesis
    using bit c'(2) branch_atD [OF b] bits_of_split [of i bm]
    by (simp add: set_spec_def ptr_map_def slots_ok_append)
qed

lemma branch_add:
  assumes b: "branch_at H d k bm i cs1 cs2" and bit: "\<not> bit bm i" and es: "es \<noteq> []"
  shows "set_spec H d (HamtNode bm [] (cs1 @ cs2)) k es
           (Some (HamtNode (bm OR bitOf i) [] (cs1 @ leafNode [makeLeaf k (H k) es] # cs2)))"
proof -
  let ?c = "leafNode [makeLeaf k (H k) es]"
  have "slot_ok H d i ?c" "binds ?c \<noteq> []"
    using es branch_atD(1) [OF b] by (auto simp: slot_ok_def leafNode_def leaves_ok_def)
  moreover have "map_of (concat (map binds (cs1 @ ?c # cs2))) =
      upd_es (map_of (concat (map binds (cs1 @ cs2)))) k es"
  proof
    fix k'
    show "map_of (concat (map binds (cs1 @ ?c # cs2))) k' =
        upd_es (map_of (concat (map binds (cs1 @ cs2)))) k es k'"
      using es branch_lookup [OF b, of ?c] branch_lookup_without [of ?c k']
      by (cases "k' = k") (auto simp: upd_es_def)
  qed
  ultimately show ?thesis
    using branch_atD [OF b] bits_of_or [of i bm]
    by (simp add: set_spec_def ptr_map_def slots_ok_append)
qed

lemma branch_remove:
  assumes b: "branch_at H d k bm i cs1 cs2"
    and c: "slot_ok H d i c" and bit: "bit bm i" and sp: "set_spec H (Suc d) c k es None"
  shows "set_spec H d (HamtNode bm [] (cs1 @ c # cs2)) k es
           (if bm AND NOT (bitOf i) = 0 then None
            else Some (HamtNode (bm AND NOT (bitOf i)) [] (cs1 @ cs2)))"
proof -
  have es: "es = []" and dom: "\<And>k'. k' \<noteq> k \<Longrightarrow> map_of (binds c) k' = None"
    using sp by (auto simp: set_spec_def ptr_map_def upd_es_def fun_eq_iff split: if_splits)
  have k: "map_of (concat (map binds (cs1 @ c # cs2))) k \<noteq> None"
    unfolding branch_lookup [OF b] using sp by (simp add: set_spec_def)
  have bits: "bits_of (bm AND NOT (bitOf i)) = bits_below bm i @ bits_above bm i"
    by (rule bits_of_clear [OF branch_atD(2) [OF b]])
  have ok: "slots_ok H d (bits_of (bm AND NOT (bitOf i))) (cs1 @ cs2)"
    unfolding bits using branch_atD(4-6) [OF b] by (simp add: slots_ok_append)
  have m: "map_of (concat (map binds (cs1 @ cs2))) =
      upd_es (map_of (concat (map binds (cs1 @ c # cs2)))) k es"
  proof
    fix k'
    have "hashIdx (H k) d \<notin> set (bits_of (bm AND NOT (bitOf i)))"
      unfolding bits using branch_atD(1) [OF b] by simp
    from concat_binds_miss [OF ok this] have "map_of (concat (map binds (cs1 @ cs2))) k = None" .
    then show "map_of (concat (map binds (cs1 @ cs2))) k' =
        upd_es (map_of (concat (map binds (cs1 @ c # cs2)))) k es k'"
      using es dom branch_lookup_without [of c k'] by (cases "k' = k") (auto simp: upd_es_def)
  qed
  have emp: "bm AND NOT (bitOf i) = 0 \<longleftrightarrow> cs1 @ cs2 = []"
    using slots_ok_length [OF ok] by (metis bits_of_eq_Nil length_0_conv)
  have "cs1 @ cs2 \<noteq> [] \<Longrightarrow> \<exists>c'\<in>set (cs1 @ cs2). binds c' \<noteq> []"
    using ok by (cases "cs1 @ cs2"; cases "bits_of (bm AND NOT (bitOf i))")
      (auto simp: slot_ok_def slots_ok_def)
  then show ?thesis
    using m ok branch_atD(3) [OF b] emp k by (auto simp: set_spec_def ptr_map_def)
qed

lemma NodePtr_set_correct:
  "node_ok H d n \<Longrightarrow> set_spec H d n k es (NodePtr_set (Some n) k (H k) es d)"
proof (induction "Some n" k "H k" es d arbitrary: n rule: NodePtr_set.induct)
  case (2 n k es d)
  obtain bm ls cs where n: "n = HamtNode bm ls cs" by (cases n)
  let ?i = "hashIdx (H k) d"
  consider (leaf_hit) i where "ls \<noteq> []" "find_index (\<lambda>l. entityID l = k) ls = Some i"
    | (leaf_miss) "ls \<noteq> []" "find_index (\<lambda>l. entityID l = k) ls = None"
    | (hit) "ls = []" "bit bm ?i" | (miss) "ls = []" "\<not> bit bm ?i"
    by fastforce
  then show ?case
  proof cases
    case leaf_hit
    then have "map_of (binds n) k \<noteq> None"
      using n find_index_SomeD [OF leaf_hit(2)] nth_mem [of i ls]
      by (auto simp: map_of_eq_None_iff image_image)
    with leaf_hit show ?thesis
      using updateLeafEntry_correct [of H ls i k d es] 2(2) n find_index_SomeD [OF leaf_hit(2)]
      by (auto simp: NodePtr_set.simps set_spec_def)
  next
    case leaf_miss
    then have "map_of (binds n) k = None" using n by (auto simp: map_of_eq_None_iff)
    moreover from this have "es \<noteq> [] \<Longrightarrow>
        set_spec H d n k es (Some (setCollision n (leafHash (ls ! 0)) k (H k) es d))"
      using setCollision_correct [of H d n k es "leafHash (ls ! 0)"] 2(2) n leaf_miss(1)
      by (auto simp: set_spec_def ptr_map_def upd_es_def map_upd_nonempty [symmetric])
    ultimately show ?thesis
      using leaf_miss n set_spec_same [OF 2(2)]
      by (auto simp: NodePtr_set.simps simp del: find_index_None)
  next
    case hit
    with 2(2) n have ok: "slots_ok H d (bits_of bm) cs" "d < hamtMaxDepth" by auto
    obtain cs1 c cs2 where cs: "cs = cs1 @ c # cs2" "childPos bm ?i = length cs1" "slot_ok H d ?i c"
      and b: "branch_at H d k bm ?i cs1 cs2"
      by (rule branch_hit [OF ok(1) hit(2) hashIdx_less]) (use ok(2) in \<open>simp add: branch_at_def\<close>)
    have "set_spec H (Suc d) c k es (NodePtr_set (Some c) k (H k) es (Suc d))"
      using 2(1) n hit cs by (auto simp: slot_ok_def)
    then show ?thesis
      using branch_replace [OF b cs(3) hit(2)] branch_remove [OF b cs(3) hit(2)] n hit cs
      by (cases "NodePtr_set (Some c) k (H k) es (Suc d)")
         (auto simp: NodePtr_set.simps(2) [of "HamtNode bm [] (cs1 @ c # cs2)"] Let_def)
  next
    case miss
    with 2(2) n have ok: "slots_ok H d (bits_of bm) cs" "d < hamtMaxDepth" by auto
    obtain cs1 cs2 where cs: "cs = cs1 @ cs2" "childPos bm ?i = length cs1"
      and b: "branch_at H d k bm ?i cs1 cs2"
      by (rule branch_miss [OF ok(1) miss(2) hashIdx_less]) (use ok(2) in \<open>simp add: branch_at_def\<close>)
    have "map_of (binds n) k = None"
      using concat_binds_miss [of H d "bits_of bm" cs k] not_in_bits_of [OF refl miss(2)] 2(2) n miss
      by simp
    then show ?thesis
      using branch_add [OF b miss(2)] set_spec_same [OF 2(2)] n miss cs
      by (auto simp: NodePtr_set.simps(2) [of "HamtNode bm [] (cs1 @ cs2)"] Let_def)
  qed
qed

section \<open>Traversal\<close>

lemma visit_append:
  "visit f (xs @ ys) s = (case visit f xs s of (go, s') \<Rightarrow> if go then visit f ys s' else (False, s'))"
  by (induction xs arbitrary: s) (auto split: prod.splits)

lemma visit_map: "visit f (map g xs) s = visit (\<lambda>x. f (g x)) xs s"
  by (induction xs arbitrary: s) (auto split: prod.splits)

lemma visit_concat: "visit f (concat xss) s = visit (visit f) xss s"
  by (induction xss arbitrary: s) (auto simp: visit_append split: prod.splits)

lemma visit_total: "visit (\<lambda>x s. (True, g x s)) xs s = (True, fold g xs s)"
  by (induction xs arbitrary: s) auto

lemma forEach_node_binds: "forEach_node fn n s = visit (\<lambda>(k, es). fn k es) (binds n) s"
proof (induction fn n s rule: forEach_node.induct)
  case (1 fn bm ls cs s)
  show ?case
  proof (cases "ls = []")
    case True
    then have "forEach_node fn (HamtNode bm ls cs) s =
        visit (\<lambda>c. visit (\<lambda>(k, es). fn k es) (binds c)) cs s"
      using 1 by (simp cong: visit_cong)
    then show ?thesis using True by (simp add: visit_concat visit_map)
  qed (simp add: visit_map)
qed

lemma forEach_total:
  "ForEach (\<lambda>k es s. (True, g k es s)) h s = fold (\<lambda>(k, es). g k es) (hamt_binds h) s"
  by (simp add: ForEach_def forEach_def hamt_binds_def forEach_node_binds visit_total case_prod_unfold
      split: option.splits)

lemma fold_append_concat: "fold (\<lambda>(k, es) acc. acc @ f k es) kvs acc = acc @ concat (map (\<lambda>(k, es). f k es) kvs)"
  by (induction kvs arbitrary: acc) auto

section \<open>Keys are enumerated once\<close>

lemma map_of_binds_dom: "fst ` set (binds n) = dom (map_of (binds n))"
  by (simp add: dom_map_of_conv_image_fst)

lemma slots_distinct:
  assumes "slots_ok H d is cs" "distinct is"
    and "\<And>c. c \<in> set cs \<Longrightarrow> distinct (map fst (binds c))"
  shows "distinct (map fst (concat (map binds cs)))"
  using assms
proof (induction cs arbitrary: "is")
  case (Cons c cs)
  from Cons.prems(1) obtain i js where "is": "is = i # js" "slot_ok H d i c" "slots_ok H d js cs"
    by (auto simp: slots_ok_def list_all2_Cons2)
  have "fst ` set (binds c) \<inter> fst ` set (concat (map binds cs)) = {}"
  proof (rule ccontr)
    assume "\<not> ?thesis"
    then obtain k c' where k: "k \<in> dom (map_of (binds c))" "c' \<in> set cs" "k \<in> fst ` set (binds c')"
      by (force simp: map_of_binds_dom [symmetric])
    then have "hashIdx (H k) d = i" using "is"(2) by (auto simp: slot_ok_def)
    then show False
      using other_slots [OF "is"(3) _ k(2)] Cons.prems(2) k(3) "is"(1) by (auto simp: map_of_eq_None_iff)
  qed
  then show ?case using Cons.IH [OF "is"(3)] Cons.prems "is" by auto
qed simp

lemma bits_of_distinct [simp]: "distinct (bits_of bm)"
  by (simp add: bits_of_def)

lemma node_ok_distinct: "node_ok H d n \<Longrightarrow> distinct (map fst (binds n))"
proof (induction n arbitrary: d)
  case (HamtNode bm ls cs)
  show ?case
  proof (cases "ls = []")
    case True
    with HamtNode.prems have ok: "slots_ok H d (bits_of bm) cs" by simp
    have "distinct (map fst (binds c))" if "c \<in> set cs" for c
      using HamtNode.IH [OF that, of "Suc d"] ok that
      by (auto simp: slots_ok_def slot_ok_def list_all2_conv_all_nth in_set_conv_nth)
    then show ?thesis using slots_distinct [OF ok] True by simp
  next
    case False
    then show ?thesis using HamtNode.prems by (auto simp: leaves_ok_def comp_def)
  qed
qed

lemma node_ok_nonempty: "node_ok H d n \<Longrightarrow> (k, es) \<in> set (binds n) \<Longrightarrow> es \<noteq> []"
proof (induction n arbitrary: d)
  case (HamtNode bm ls cs)
  show ?case
  proof (cases "ls = []")
    case True
    with HamtNode.prems obtain c where c: "c \<in> set cs" "(k, es) \<in> set (binds c)"
      and ok: "slots_ok H d (bits_of bm) cs" by auto
    then have "node_ok H (Suc d) c"
      by (auto simp: slots_ok_def slot_ok_def list_all2_conv_all_nth in_set_conv_nth)
    then show ?thesis using HamtNode.IH c by blast
  next
    case False
    then show ?thesis using HamtNode.prems by (auto simp: leaves_ok_def)
  qed
qed

lemma length_binds:
  "node_ok H d n \<Longrightarrow> length (binds n) = card (dom (map_of (binds n)))"
  using node_ok_distinct [of H d n] distinct_card [of "map fst (binds n)"]
  by (simp add: dom_map_of_conv_image_fst)

section \<open>The wrapper as a finite map\<close>

lemma hamt_okE:
  assumes "hamt_ok maphash h"
  obtains n where "root h = Some n" "node_ok (maphash (seed h)) 0 n" "hamt_count h = int (length (binds n))"
  using assms by (auto simp: hamt_ok_def hamt_binds_def split: option.splits)

lemma hamt_map_lookup: "root h = Some n \<Longrightarrow> hamt_map h k = lookup_es (map_of (binds n)) k"
  by (simp add: hamt_map_def lookup_es_def)

lemma newHAMT_ok [simp]: "hamt_ok maphash (newHAMTWithSeed sd)" "hamt_ok maphash (NewHAMT sd)"
  by (simp_all add: hamt_ok_def newHAMTWithSeed_def NewHAMT_def hamt_binds_def bits_of_eq_Nil
      hamtMaxDepth_def bits_of_def)

lemma newHAMT_map [simp]:
  "hamt_map (newHAMTWithSeed sd) k = []" "hamt_map (NewHAMT sd) k = []"
  "hamt_binds (newHAMTWithSeed sd) = []" "hamt_binds (NewHAMT sd) = []"
  by (simp_all add: hamt_map_def newHAMTWithSeed_def NewHAMT_def hamt_binds_def)

lemma HAMT_Get_map: "hamt_ok maphash h \<Longrightarrow> HAMT_Get maphash h k = hamt_map h k"
  by (auto elim!: hamt_okE simp: HAMT_Get_def hashKey_def NodePtr_get_correct hamt_map_lookup)

lemma hamt_binds_iff:
  "hamt_ok maphash h \<Longrightarrow> (k, es) \<in> set (hamt_binds h) \<longleftrightarrow> es \<noteq> [] \<and> hamt_map h k = es"
  by (elim hamt_okE) (auto simp: hamt_binds_def hamt_map_def
      dest: node_ok_nonempty node_ok_distinct map_of_SomeD split: option.splits)

lemma hamt_binds_distinct: "hamt_ok maphash h \<Longrightarrow> distinct (map fst (hamt_binds h))"
  by (auto elim!: hamt_okE simp: hamt_binds_def node_ok_distinct)

lemma ptr_map_Set:
  assumes "hamt_ok maphash h"
  shows "hamt_map (HAMT_Set maphash h k es) k' = (if k' = k then es else hamt_map h k')"
proof -
  obtain n where n: "root h = Some n" "node_ok (maphash (seed h)) 0 n"
    using assms by (rule hamt_okE)
  then show ?thesis
    using NodePtr_set_correct [OF n(2), of k es]
    by (cases "NodePtr_set (Some n) k (maphash (seed h) k) es 0")
       (auto simp: HAMT_Set_def hashKey_def set_spec_def ptr_map_def upd_es_def hamt_map_def Let_def
         fun_eq_iff split: option.splits if_splits)
qed

lemma card_dom_upd_es:
  assumes "finite (dom m)"
  shows "int (card (dom (upd_es m k es))) =
    int (card (dom m)) + (if m k = None \<and> es \<noteq> [] then 1 else if m k \<noteq> None \<and> es = [] then - 1 else 0)"
  using assms card_Suc_Diff1 [of "dom m" k]
  by (auto simp: upd_es_def insert_absorb card_insert_if domIff dest: domI)

lemma HAMT_Set_count:
  assumes "hamt_ok maphash h"
  shows "hamt_count (HAMT_Set maphash h k es) = int (length (hamt_binds (HAMT_Set maphash h k es)))"
proof -
  obtain n where n: "root h = Some n" "node_ok (maphash (seed h)) 0 n"
    "hamt_count h = int (length (binds n))"
    using assms by (rule hamt_okE)
  let ?p = "NodePtr_set (Some n) k (maphash (seed h) k) es 0"
  have sp: "set_spec (maphash (seed h)) 0 n k es ?p" by (rule NodePtr_set_correct [OF n(2)])
  have len: "length (hamt_binds (HAMT_Set maphash h k es)) = card (dom (upd_es (map_of (binds n)) k es))"
    using sp n by (cases ?p) (auto simp: set_spec_def HAMT_Set_def Let_def hashKey_def hamt_binds_def
        ptr_map_def length_binds dest: sym)
  have "NodePtr_get (Some n) k (maphash (seed h) k) 0 = [] \<longleftrightarrow> map_of (binds n) k = None"
    using NodePtr_get_correct [OF n(2), of k] node_ok_nonempty [OF n(2)]
    by (auto simp: lookup_es_def dest: map_of_SomeD split: option.splits)
  then show ?thesis
    unfolding len card_dom_upd_es [OF finite_dom_map_of]
    using n by (simp add: HAMT_Set_def Let_def hashKey_def length_binds)
qed

lemma HAMT_Set_ok:
  assumes "hamt_ok maphash h" "es \<noteq> [] \<or> hamt_map h k = [] \<or> (\<exists>k'. k' \<noteq> k \<and> hamt_map h k' \<noteq> [])"
  shows "hamt_ok maphash (HAMT_Set maphash h k es)"
proof -
  obtain n where n: "root h = Some n" "node_ok (maphash (seed h)) 0 n"
    using assms(1) by (rule hamt_okE)
  let ?p = "NodePtr_set (Some n) k (maphash (seed h) k) es 0"
  have sp: "set_spec (maphash (seed h)) 0 n k es ?p" by (rule NodePtr_set_correct [OF n(2)])
  have "?p \<noteq> None"
    using sp assms(2) n node_ok_nonempty [OF n(2)]
    by (auto simp: set_spec_def ptr_map_def upd_es_def fun_eq_iff hamt_map_def
        dest: map_of_SomeD split: option.splits if_splits)
  then obtain n' where "?p = Some n'" "node_ok (maphash (seed h)) 0 n'"
    using sp by (auto simp: set_spec_def)
  then show ?thesis
    using n HAMT_Set_count [OF assms(1), of k es]
    by (simp add: hamt_ok_def HAMT_Set_def Let_def hashKey_def)
qed

lemma HAMT_Delete_Set:
  "hamt_ok maphash h \<Longrightarrow>
   HAMT_Delete maphash h k = (if hamt_map h k = [] then h else HAMT_Set maphash h k [])"
  using HAMT_Get_map [of maphash h k]
  by (simp add: HAMT_Delete_def HAMT_Set_def NodePtr_delete_def HAMT_Get_def Let_def)

lemma seed_HAMT_Set [simp]: "seed (HAMT_Set maphash h k es) = seed h"
  by (simp add: HAMT_Set_def Let_def)

text \<open>A null root: every insertion is dropped, and the element count still moves.\<close>

lemma null_root_Set:
  "root h = None \<Longrightarrow> HAMT_Set maphash h k es =
     \<lparr>root = None, seed = seed h, hamt_count = hamt_count h + (if es = [] then 0 else 1)\<rparr>"
  by (simp add: HAMT_Set_def Let_def NodePtr_set.simps NodePtr_get.simps)

lemma AllEntries_binds: "AllEntries h = concat (map snd (hamt_binds h))"
  unfolding AllEntries_def forEach_total fold_append_concat by (simp add: case_prod_unfold)

definition hamt_dots :: "HAMT \<Rightarrow> CausalDot list" where
  "hamt_dots h = concat (map (\<lambda>(k, es). map Dot es) (hamt_binds h))"

lemma MerkleRoot_dots: "MerkleRoot sha256 h = hashDotPairs sha256 (sort (hamt_dots h))"
  unfolding MerkleRoot_def Let_def forEach_total fold_append_concat hamt_dots_def by simp

section \<open>The map interface the engine uses\<close>

text \<open>
  What the engine relies on when it reads, rebuilds and stitches maps: \<^verbatim>\<open>get\<close> after \<^verbatim>\<open>set\<close>, and a
  traversal that enumerates exactly the non-empty bindings, each key once.
\<close>

locale entity_map =
  fixes get_m :: "'m \<Rightarrow> 'k \<Rightarrow> 'v list"
    and set_m :: "'m \<Rightarrow> 'k \<Rightarrow> 'v list \<Rightarrow> 'm"
    and binds_m :: "'m \<Rightarrow> ('k \<times> 'v list) list"
    and inv_m :: "'m \<Rightarrow> bool"
    and empty_m :: "'a \<Rightarrow> 'm"
  assumes inv_empty: "inv_m (empty_m a)"
    and get_empty: "get_m (empty_m a) k = []"
    and inv_set: "inv_m m \<Longrightarrow> es \<noteq> [] \<Longrightarrow> inv_m (set_m m k es)"
    and get_set: "inv_m m \<Longrightarrow> es \<noteq> [] \<Longrightarrow> get_m (set_m m k es) k' = (if k' = k then es else get_m m k')"
    and binds_iff: "inv_m m \<Longrightarrow> (k, es) \<in> set (binds_m m) \<longleftrightarrow> es \<noteq> [] \<and> get_m m k = es"
    and binds_distinct: "inv_m m \<Longrightarrow> distinct (map fst (binds_m m))"
begin

lemma inv_fold_set:
  "inv_m m \<Longrightarrow> (\<forall>(k, es)\<in>set kvs. es \<noteq> []) \<Longrightarrow> inv_m (fold (\<lambda>(k, es) m. set_m m k es) kvs m)"
  by (induction kvs arbitrary: m) (auto simp: inv_set)

lemma get_fold_set:
  "inv_m m \<Longrightarrow> (\<forall>(k, es)\<in>set kvs. es \<noteq> []) \<Longrightarrow> distinct (map fst kvs) \<Longrightarrow>
   get_m (fold (\<lambda>(k, es) m. set_m m k es) kvs m) k =
     (case map_of kvs k of None \<Rightarrow> get_m m k | Some es \<Rightarrow> es)"
proof (induction kvs arbitrary: m)
  case (Cons kv kvs)
  obtain k0 es0 where kv: "kv = (k0, es0)" by (cases kv)
  have "map_of kvs k0 = None" using Cons.prems kv by (auto simp: map_of_eq_None_iff)
  then show ?case using Cons kv by (auto simp: inv_set get_set split: option.splits)
qed simp

lemma get_map_of: "inv_m m \<Longrightarrow> get_m m k = (case map_of (binds_m m) k of None \<Rightarrow> [] | Some es \<Rightarrow> es)"
  using binds_iff [of m k "get_m m k"] binds_iff [of m k] binds_distinct [of m]
  by (cases "get_m m k = []") (auto split: option.splits dest: map_of_SomeD)

lemma same_binds:
  "inv_m a \<Longrightarrow> inv_m b \<Longrightarrow> (\<And>k. get_m a k = get_m b k) \<Longrightarrow> mset (binds_m a) = mset (binds_m b)"
  using binds_distinct [of a] binds_distinct [of b]
  by (intro iffD1 [OF set_eq_iff_mset_eq_distinct]) (auto simp: binds_iff distinct_map)

lemma binds_rebuild:
  assumes "\<forall>(k, es)\<in>set kvs. es \<noteq> []" "distinct (map fst kvs)"
  shows "mset (binds_m (fold (\<lambda>(k, es) m. set_m m k es) kvs (empty_m a))) = mset kvs"
proof -
  let ?m = "fold (\<lambda>(k, es) m. set_m m k es) kvs (empty_m a)"
  have inv: "inv_m ?m" using assms by (intro inv_fold_set inv_empty)
  have "set (binds_m ?m) = set kvs"
    using assms binds_iff [OF inv] get_fold_set [OF inv_empty assms]
    by (auto simp: get_empty split: option.splits dest: map_of_SomeD)
  then show ?thesis
    using assms binds_distinct [OF inv]
    by (intro iffD1 [OF set_eq_iff_mset_eq_distinct]) (auto simp: distinct_map)
qed

end

interpretation hm: entity_map "HAMT_Get maphash" "HAMT_Set maphash" hamt_binds "hamt_ok maphash"
  newHAMTWithSeed for maphash
  by unfold_locales
     (auto simp: HAMT_Get_map HAMT_Set_ok ptr_map_Set hamt_binds_iff hamt_binds_distinct)

section \<open>Merkle roots\<close>

lemma hamt_same_binds:
  assumes "hamt_ok mh a" "hamt_ok mh' b" "\<And>k. hamt_map a k = hamt_map b k"
  shows "mset (hamt_binds a) = mset (hamt_binds b)"
  using hamt_binds_distinct [OF assms(1)] hamt_binds_distinct [OF assms(2)]
  by (intro iffD1 [OF set_eq_iff_mset_eq_distinct])
     (auto simp: hamt_binds_iff [OF assms(1)] hamt_binds_iff [OF assms(2)] assms(3) distinct_map)

lemma mset_concat_map: "mset (concat (map f xs)) = (\<Sum>x\<in>#mset xs. mset (f x))"
  by (induction xs) auto

lemma mset_concat_map_cong:
  "mset xs = mset ys \<Longrightarrow> mset (concat (map f xs)) = mset (concat (map f ys))"
  by (simp add: mset_concat_map)

lemma sort_mset_cong: "mset xs = mset ys \<Longrightarrow> sort xs = sort ys"
  by (rule properties_for_sort) simp_all

lemma dotBytes_inj: "inj_on dotBytes {d. length (NodeID d) = 16}"
proof (rule inj_onI)
  fix a b assume ab: "a \<in> {d. length (NodeID d) = 16}" "b \<in> {d. length (NodeID d) = 16}"
    "dotBytes a = dotBytes b"
  then have "NodeID a = NodeID b" "be_bytes 8 (Counter a) = be_bytes 8 (Counter b)"
    by (simp_all add: dotBytes_def)
  from arg_cong [OF this(2), of "of_be :: bytes \<Rightarrow> u64"] have "Counter a = Counter b"
    by (simp add: of_be_be_bytes)
  with \<open>NodeID a = NodeID b\<close> show "a = b" by (cases a; cases b) simp
qed

lemma hashDotPairs_inj:
  assumes "hashDotPairs sha256 xs = hashDotPairs sha256 ys"
    and "\<forall>d\<in>set xs \<union> set ys. length (NodeID d) = 16"
    and "inj_on sha256 {concat (map dotBytes xs), concat (map dotBytes ys)}"
    and "sha256 (concat (map dotBytes xs)) \<noteq> replicate 32 0"
    and "sha256 (concat (map dotBytes ys)) \<noteq> replicate 32 0"
  shows "xs = ys"
proof -
  have "concat (map dotBytes xs) = concat (map dotBytes ys)"
  proof (cases "xs = [] \<or> ys = []")
    case True
    then show ?thesis
      using assms(1,4,5) unfolding hashDotPairs_def by (cases "xs = []"; cases "ys = []") metis+
  next
    case False
    then have "sha256 (concat (map dotBytes xs)) = sha256 (concat (map dotBytes ys))"
      using assms(1) by (simp add: hashDotPairs_def)
    then show ?thesis by (rule inj_onD [OF assms(3)]) simp_all
  qed
  then show ?thesis
    by (rule concat_fixed_width_inj [where n = 24])
       (use assms(2) in \<open>auto simp: dotBytes_def intro: inj_on_subset [OF dotBytes_inj]\<close>)
qed

section \<open>Properties\<close>

text \<open>
  C22. \<^verbatim>\<open>Set\<close> is a map update for every hash function, also under full hash collisions: it keeps the
  trie invariant, the key reads back the new entries, every other key reads what it read before,
  and \<^verbatim>\<open>Len\<close> grows by one exactly when the key was absent.
\<close>

theorem HAMT_Set_updates:
  assumes "hamt_ok maphash h" "es \<noteq> []"
  shows "hamt_ok maphash (HAMT_Set maphash h k es) \<and>
    HAMT_Get maphash (HAMT_Set maphash h k es) k' = (if k' = k then es else HAMT_Get maphash h k') \<and>
    Len (HAMT_Set maphash h k es) = Len h + (if HAMT_Get maphash h k = [] then 1 else 0)"
proof -
  have "Len (HAMT_Set maphash h k es) = Len h + (if HAMT_Get maphash h k = [] then 1 else 0)"
    using assms(2) by (simp add: Len_def HAMT_Set_def Let_def HAMT_Get_def)
  then show ?thesis using assms by (simp add: hm.inv_set hm.get_set)
qed

definition ex_entry :: "u64 \<Rightarrow> CRDTEntry" where
  "ex_entry c = \<lparr>PayloadDigest = replicate 32 7, OriginNodeID = replicate 16 1,
     DotNodeID = replicate 16 1, DotCounter = c, SystemTime = 10, ValidTimeStart = 0,
     ValidTimeEnd = 0, AssertionTime = 0, DecisionTime = 0, H3Index = 0\<rparr>"

text \<open>The witness runs two insertions whose hashes agree on all 64 bits, so they share one leaf.\<close>

definition ex_hamt :: HAMT where
  "ex_hamt = HAMT_Set (\<lambda>_ _. 0) (newHAMTWithSeed 3) [97] [ex_entry 1]"

lemma ex_hamt_ok: "hamt_ok (\<lambda>_ _. 0) ex_hamt"
  by (simp add: ex_hamt_def hm.inv_set)

theorem HAMT_Set_updates_witness:
  "HAMT_Get (\<lambda>_ _. 0) (HAMT_Set (\<lambda>_ _. 0) ex_hamt [98] [ex_entry 2]) [98] = [ex_entry 2] \<and>
   Len (HAMT_Set (\<lambda>_ _. 0) ex_hamt [98] [ex_entry 2]) = 2"
  using HAMT_Set_updates [OF ex_hamt_ok, of "[ex_entry 2]" "[98]" "[98]"]
  by (simp add: ex_hamt_def hm.get_set hm.get_empty)
     (simp add: Len_def HAMT_Set_def newHAMTWithSeed_def HAMT_Get_def NodePtr_get.simps Let_def)

text \<open>
  \<^verbatim>\<open>Delete\<close> removes exactly the named key. The result is again a well-formed map with one key
  fewer, provided that another key remains; when the key is absent the map is returned unchanged.
\<close>

theorem HAMT_Delete_removes:
  assumes "hamt_ok maphash h" "HAMT_Get maphash h k \<noteq> []" "k0 \<noteq> k" "HAMT_Get maphash h k0 \<noteq> []"
  shows "hamt_ok maphash (HAMT_Delete maphash h k) \<and>
    HAMT_Get maphash (HAMT_Delete maphash h k) k' = (if k' = k then [] else HAMT_Get maphash h k') \<and>
    Len (HAMT_Delete maphash h k) = Len h - 1"
proof -
  have del: "HAMT_Delete maphash h k = HAMT_Set maphash h k []"
    using assms by (simp add: HAMT_Delete_Set HAMT_Get_map)
  have ok: "hamt_ok maphash (HAMT_Set maphash h k [])"
    using assms by (intro HAMT_Set_ok) (auto simp: HAMT_Get_map)
  have "Len (HAMT_Set maphash h k []) = Len h - 1"
    using assms(2) by (simp add: Len_def HAMT_Set_def Let_def HAMT_Get_def)
  then show ?thesis
    using assms(1) ok by (simp add: del HAMT_Get_map ptr_map_Set)
qed

theorem HAMT_Delete_removes_witness:
  "HAMT_Get (\<lambda>_ _. 0) (HAMT_Delete (\<lambda>_ _. 0) (HAMT_Set (\<lambda>_ _. 0) ex_hamt [98] [ex_entry 2]) [97]) [97] = []"
proof -
  let ?h = "HAMT_Set (\<lambda>_ _. 0) ex_hamt [98] [ex_entry 2]"
  have "hamt_ok (\<lambda>_ _. 0) ?h" "HAMT_Get (\<lambda>_ _. 0) ?h [97] \<noteq> []" "HAMT_Get (\<lambda>_ _. 0) ?h [98] \<noteq> []"
    using ex_hamt_ok by (simp_all add: hm.inv_set hm.get_set) (simp add: ex_hamt_def hm.get_set)
  then show ?thesis
    using HAMT_Delete_removes [of "\<lambda>_ _. 0" ?h "[97]" "[98]" "[97]"] by simp
qed

text \<open>
  The traversal hands every stored key to the callback exactly once, with its entries, and no
  other key; a callback that never stops sees the whole map whatever the shape of the trie.
\<close>

theorem ForEach_visits_each_key_once:
  assumes "hamt_ok maphash h"
  shows "\<exists>kvs. ForEach (\<lambda>k es acc. (True, acc @ [(k, es)])) h [] = kvs \<and> distinct (map fst kvs) \<and>
           (\<forall>k es. (k, es) \<in> set kvs \<longleftrightarrow> es \<noteq> [] \<and> HAMT_Get maphash h k = es) \<and>
           int (length kvs) = Len h"
proof -
  have "ForEach (\<lambda>k es acc. (True, acc @ [(k, es)])) h [] = hamt_binds h"
    unfolding forEach_total fold_append_concat by (simp add: case_prod_unfold concat_map_singleton)
  then show ?thesis
    using assms hm.binds_iff [OF assms] hm.binds_distinct [OF assms] by (simp add: Len_def hamt_ok_def)
qed

theorem ForEach_visits_each_key_once_witness:
  "\<exists>kvs. ForEach (\<lambda>k es acc. (True, acc @ [(k, es)])) ex_hamt [] = kvs \<and> distinct (map fst kvs) \<and>
     ([97], [ex_entry 1]) \<in> set kvs"
  using ForEach_visits_each_key_once [OF ex_hamt_ok] by (auto simp: ex_hamt_def hm.get_set)

text \<open>
  The Merkle root is a function of the stored content alone: two maps built in any order, with
  different hash seeds and so with different shapes, have the same root when every key reads the
  same.
\<close>

theorem MerkleRoot_content:
  assumes "hamt_ok mh a" "hamt_ok mh' b" "\<And>k. HAMT_Get mh a k = HAMT_Get mh' b k"
  shows "MerkleRoot sha256 a = MerkleRoot sha256 b"
proof -
  have "mset (hamt_binds a) = mset (hamt_binds b)"
    using assms(3) by (intro hamt_same_binds [OF assms(1,2)])
      (simp add: HAMT_Get_map [OF assms(1)] HAMT_Get_map [OF assms(2)])
  then have "mset (hamt_dots a) = mset (hamt_dots b)"
    unfolding hamt_dots_def by (rule mset_concat_map_cong)
  from sort_mset_cong [OF this] show ?thesis by (simp add: MerkleRoot_dots)
qed

theorem MerkleRoot_content_witness:
  "MerkleRoot (\<lambda>bs. take 32 bs) (HAMT_Set (\<lambda>_ _. 0) (newHAMTWithSeed 3) [97] [ex_entry 1]) =
   MerkleRoot (\<lambda>bs. take 32 bs) (HAMT_Set (\<lambda>_ k. ucast (k ! 0)) (newHAMTWithSeed 9) [97] [ex_entry 1])"
  by (rule MerkleRoot_content [of "\<lambda>_ _. 0" _ "\<lambda>_ k. ucast (k ! 0)"])
     (simp_all add: hm.inv_set hm.get_set hm.get_empty)

text \<open>
  C34. Equal Merkle roots mean equal sets of dots, as long as SHA-256 does not collide on the two
  byte strings hashed and does not return the all-zero digest that stands for the empty map.
\<close>

theorem MerkleRoot_separates:
  assumes "MerkleRoot sha256 a = MerkleRoot sha256 b"
    and "\<forall>d\<in>set (hamt_dots a) \<union> set (hamt_dots b). length (NodeID d) = 16"
    and "inj_on sha256 {concat (map dotBytes (sort (hamt_dots a))), concat (map dotBytes (sort (hamt_dots b)))}"
    and "sha256 (concat (map dotBytes (sort (hamt_dots a)))) \<noteq> replicate 32 0"
    and "sha256 (concat (map dotBytes (sort (hamt_dots b)))) \<noteq> replicate 32 0"
  shows "mset (hamt_dots a) = mset (hamt_dots b)"
proof -
  have "sort (hamt_dots a) = sort (hamt_dots b)"
    by (rule hashDotPairs_inj [OF _ _ assms(3-5)]) (use assms(1,2) in \<open>simp_all add: MerkleRoot_dots\<close>)
  then show ?thesis by (metis mset_sort)
qed

definition ex_hamt2 :: HAMT where
  "ex_hamt2 = HAMT_Set (\<lambda>_ k. ucast (k ! 0)) (newHAMTWithSeed 9) [97] [ex_entry 1]"

lemma ex_hamt_dots: "hamt_dots ex_hamt = [Dot (ex_entry 1)]" "hamt_dots ex_hamt2 = [Dot (ex_entry 1)]"
  by code_simp+

theorem MerkleRoot_separates_witness:
  "mset (hamt_dots ex_hamt) = mset (hamt_dots ex_hamt2)"
  by (rule MerkleRoot_separates [of "\<lambda>bs. bs"])
     (simp_all add: MerkleRoot_dots ex_hamt_dots dotBytes_def Dot_def ex_entry_def list_eq_iff_nth_eq)

text \<open>
  C35. Deleting the only key leaves a null root, and from then on the map is dead: every later \<^verbatim>\<open>Set\<close>
  is dropped, so no key ever reads back, while \<^verbatim>\<open>Len\<close> counts the insertion.
\<close>

theorem Set_lost_after_last_Delete:
  assumes "hamt_ok maphash h" "HAMT_Get maphash h k \<noteq> []" "\<And>k'. k' \<noteq> k \<Longrightarrow> HAMT_Get maphash h k' = []"
    and "es \<noteq> []"
  shows "HAMT_Get maphash (HAMT_Set maphash (HAMT_Delete maphash h k) k1 es) k2 = [] \<and>
    Len (HAMT_Set maphash (HAMT_Delete maphash h k) k1 es) = 1"
proof -
  let ?d = "HAMT_Set maphash h k []"
  have del: "HAMT_Delete maphash h k = ?d"
    using assms by (simp add: HAMT_Delete_Set HAMT_Get_map)
  have empty: "hamt_map ?d k' = []" for k'
    using ptr_map_Set [OF assms(1), of k "[]" k'] assms(3) HAMT_Get_map [OF assms(1)] by simp
  have "root ?d = None"
  proof (rule ccontr)
    assume "root ?d \<noteq> None"
    then obtain n n' where n: "root h = Some n" "node_ok (maphash (seed h)) 0 n" "root ?d = Some n'"
      using assms(1) by (auto elim: hamt_okE)
    then have "set_spec (maphash (seed h)) 0 n k [] (Some n')"
      using NodePtr_set_correct [OF n(2), of k "[]"] by (simp add: HAMT_Set_def Let_def hashKey_def)
    moreover have "binds n \<noteq> []"
      using assms(2) HAMT_Get_map [OF assms(1)] n(1) by (auto simp: hamt_map_def)
    ultimately have n': "node_ok (maphash (seed h)) 0 n'" "binds n' \<noteq> []"
      by (simp_all add: set_spec_def)
    then obtain k' es' where "(k', es') \<in> set (binds n')" by (cases "binds n'") auto
    then show False
      using empty [of k'] n(3) n' node_ok_nonempty [OF n'(1)] node_ok_distinct [OF n'(1)]
      by (auto simp: hamt_map_def)
  qed
  moreover from this have "hamt_count ?d = 0"
    using HAMT_Set_count [OF assms(1), of k "[]"] by (simp add: hamt_binds_def)
  ultimately show ?thesis
    unfolding del using assms(4) by (simp add: null_root_Set HAMT_Get_def NodePtr_get.simps Len_def)
qed

theorem Set_lost_after_last_Delete_witness:
  "HAMT_Get (\<lambda>_ _. 0) (HAMT_Set (\<lambda>_ _. 0) (HAMT_Delete (\<lambda>_ _. 0) ex_hamt [97]) [98] [ex_entry 2]) [98] = [] \<and>
   Len (HAMT_Set (\<lambda>_ _. 0) (HAMT_Delete (\<lambda>_ _. 0) ex_hamt [97]) [98] [ex_entry 2]) = 1"
  by (rule Set_lost_after_last_Delete [OF ex_hamt_ok])
     (simp_all add: ex_hamt_def hm.get_set hm.get_empty)

end
