(* ===== verification/Dot_Merge.thy ===== *)
theory Dot_Merge
  imports Hamt
begin

text \<open>
  The leaf level of the engine, from \<^verbatim>\<open>pkg/sync/crdt.go\<close>: the three-way comparison of dots, the
  insertion of a new entry into a dot-sorted leaf, and the two-pointer merge of two dot-sorted leaves
  that \<^verbatim>\<open>Join\<close> and \<^verbatim>\<open>SetShardCount\<close> run. A leaf is read as a finite map from dots to entries;
  the merge is then map union in which the existing entry wins.
\<close>

section \<open>Definitions\<close>

definition compareDots :: "CausalDot \<Rightarrow> CausalDot \<Rightarrow> int" where
  "compareDots a b =
     (let c = cmpBytes (NodeID a) (NodeID b) in
      if c \<noteq> 0 then c
      else if Counter a < Counter b then -1
      else if Counter a > Counter b then 1 else 0)"

text \<open>
  \<^verbatim>\<open>insertionSortLastEntry\<close>: the backward shift. The second argument is \<^verbatim>\<open>j + 1\<close>, so that it stays a
  natural number when \<^verbatim>\<open>j\<close> reaches \<^verbatim>\<open>-1\<close>.
\<close>

fun shiftBack :: "CRDTEntry list \<Rightarrow> nat \<Rightarrow> CRDTEntry \<Rightarrow> CRDTEntry list" where
  "shiftBack dst 0 lst = dst[0 := lst]"
| "shiftBack dst (Suc j) lst =
     (if compareDots (Dot (dst ! j)) (Dot lst) > 0
      then shiftBack (dst[Suc j := dst ! j]) j lst
      else dst[Suc j := lst])"

definition insertionSortLastEntry :: "CRDTEntry list \<Rightarrow> CRDTEntry list" where
  "insertionSortLastEntry dst =
     (let n = length dst in
      if n < 2 then dst else shiftBack dst (n - 1) (dst ! (n - 1)))"

text \<open>
  The merge loop of \<^verbatim>\<open>perShardMerge\<close> and \<^verbatim>\<open>mergeExistingDot\<close>: the merged leaf with the numbers of
  inserted and of skipped entries. The code's flag \<^verbatim>\<open>added\<close> is set exactly where \<^verbatim>\<open>inserted\<close> is
  counted.
\<close>

fun mergeDots :: "CRDTEntry list \<Rightarrow> CRDTEntry list \<Rightarrow> CRDTEntry list \<times> nat \<times> nat" where
  "mergeDots [] is = (is, length is, 0)"
| "mergeDots (e # es) [] = (e # es, 0, 0)"
| "mergeDots (e # es) (i # is) =
     (let cmp = compareDots (Dot e) (Dot i) in
      if cmp < 0 then
        (case mergeDots es (i # is) of (m, ins, sk) \<Rightarrow> (e # m, ins, sk))
      else if cmp > 0 then
        (case mergeDots (e # es) is of (m, ins, sk) \<Rightarrow> (i # m, Suc ins, sk))
      else
        (case mergeDots es is of (m, ins, sk) \<Rightarrow> (e # m, ins, Suc sk)))"

definition mergeExistingDot ::
  "(Seed \<Rightarrow> gostring \<Rightarrow> u64) \<Rightarrow> HAMT \<Rightarrow> gostring \<Rightarrow> CRDTEntry list \<Rightarrow> HAMT" where
  "mergeExistingDot maphash base entityId incoming =
     (case mergeDots (HAMT_Get maphash base entityId) incoming of
        (merged, inserted, _) \<Rightarrow>
          if inserted = 0 then base else HAMT_Set maphash base entityId merged)"

text \<open>A leaf as a map from dots, and its well-formedness: strictly increasing dots.\<close>

definition dotmap :: "CRDTEntry list \<Rightarrow> (CausalDot \<rightharpoonup> CRDTEntry)" where
  "dotmap es = map_of (map (\<lambda>e. (Dot e, e)) es)"

definition leaf_ok :: "CRDTEntry list \<Rightarrow> bool" where
  "leaf_ok es \<longleftrightarrow> sorted_wrt (<) (map Dot es)"

section \<open>The order on dots\<close>

lemma compareDots_simps [simp]:
  "compareDots a b < 0 \<longleftrightarrow> a < b"
  "compareDots a b > 0 \<longleftrightarrow> b < a"
  "compareDots a b = 0 \<longleftrightarrow> a = b"
  by (cases a; cases b; auto simp: compareDots_def less_dot_iff Let_def)+

section \<open>Leaves as maps\<close>

lemma dotmap_simps [simp]:
  "dotmap [] = Map.empty"
  "dotmap (e # es) = (dotmap es)(Dot e \<mapsto> e)"
  by (simp_all add: dotmap_def)

lemma dom_dotmap: "dom (dotmap es) = Dot ` set es"
  by (simp add: dotmap_def dom_map_of_conv_image_fst image_image)

lemma dotmap_SomeD: "dotmap es d = Some e \<Longrightarrow> e \<in> set es \<and> Dot e = d"
  by (auto simp: dotmap_def dest!: map_of_SomeD)

lemma dotmap_None: "dotmap es d = None \<longleftrightarrow> d \<notin> Dot ` set es"
  by (metis dom_dotmap domIff)

lemma leaf_ok_simps [simp]:
  "leaf_ok []"
  "leaf_ok (e # es) \<longleftrightarrow> (\<forall>x\<in>set es. Dot e < Dot x) \<and> leaf_ok es"
  by (simp_all add: leaf_ok_def)

lemma dotmap_set: "leaf_ok es \<Longrightarrow> e \<in> set es \<Longrightarrow> dotmap es (Dot e) = Some e"
  by (induction es) auto

text \<open>A well-formed leaf is determined by its map.\<close>

lemma leaf_ext: "leaf_ok a \<Longrightarrow> leaf_ok b \<Longrightarrow> dotmap a = dotmap b \<Longrightarrow> a = b"
proof -
  assume ab: "leaf_ok a" "leaf_ok b" "dotmap a = dotmap b"
  then have "Dot ` set a = Dot ` set b" by (metis dom_dotmap)
  then have "map Dot a = map Dot b"
    using ab by (intro sorted_wrt_strict_unique) (simp_all add: leaf_ok_def)
  moreover have "inj_on Dot (set a \<union> set b)"
  proof (rule inj_onI)
    fix x y assume "x \<in> set a \<union> set b" "y \<in> set a \<union> set b" "Dot x = Dot y"
    moreover have "\<And>z. z \<in> set a \<union> set b \<Longrightarrow> dotmap a (Dot z) = Some z"
      using ab dotmap_set [OF ab(1)] dotmap_set [OF ab(2)] by auto
    ultimately show "x = y" by (metis option.inject)
  qed
  ultimately show "a = b" by (rule map_inj_on)
qed

section \<open>The merge\<close>

abbreviation merged_of :: "CRDTEntry list \<Rightarrow> CRDTEntry list \<Rightarrow> CRDTEntry list" where
  "merged_of es is \<equiv> fst (mergeDots es is)"

abbreviation inserted_of :: "CRDTEntry list \<Rightarrow> CRDTEntry list \<Rightarrow> nat" where
  "inserted_of es is \<equiv> fst (snd (mergeDots es is))"

abbreviation skipped_of :: "CRDTEntry list \<Rightarrow> CRDTEntry list \<Rightarrow> nat" where
  "skipped_of es is \<equiv> snd (snd (mergeDots es is))"

lemma mergeDots_lt [simp]:
  "Dot e < Dot i \<Longrightarrow> mergeDots (e # es) (i # is) =
     (e # merged_of es (i # is), inserted_of es (i # is), skipped_of es (i # is))"
  by (simp add: Let_def split: prod.splits)

lemma mergeDots_gt [simp]:
  "Dot i < Dot e \<Longrightarrow> mergeDots (e # es) (i # is) =
     (i # merged_of (e # es) is, Suc (inserted_of (e # es) is), skipped_of (e # es) is)"
  by (auto simp: Let_def split: prod.splits)

lemma mergeDots_eq [simp]:
  "Dot e = Dot i \<Longrightarrow> mergeDots (e # es) (i # is) =
     (e # merged_of es is, inserted_of es is, Suc (skipped_of es is))"
  by (auto simp: Let_def split: prod.splits)

declare mergeDots.simps(3) [simp del]

lemma merge_induct [case_names Nil_l Nil_r lt gt eq]:
  assumes "\<And>is. P [] is" "\<And>e es. P (e # es) []"
    and "\<And>e es i is. Dot e < Dot i \<Longrightarrow> P es (i # is) \<Longrightarrow> P (e # es) (i # is)"
    and "\<And>e es i is. Dot i < Dot e \<Longrightarrow> P (e # es) is \<Longrightarrow> P (e # es) (i # is)"
    and "\<And>e es i is. Dot e = Dot i \<Longrightarrow> P es is \<Longrightarrow> P (e # es) (i # is)"
  shows "P es is"
  by (induction es "is" rule: mergeDots.induct)
     (metis assms compareDots_simps linorder_less_linear)+

lemma mergeDots_dots: "Dot ` set (merged_of es is) = Dot ` set es \<union> Dot ` set is"
  by (induction es "is" rule: merge_induct) (auto simp: insert_commute)

lemma mergeDots_set: "set (merged_of es is) \<subseteq> set es \<union> set is"
  by (induction es "is" rule: merge_induct) auto

lemma mergeDots_bound:
  "(\<forall>x\<in>set es. d < Dot x) \<Longrightarrow> (\<forall>x\<in>set is. d < Dot x) \<Longrightarrow> x \<in> set (merged_of es is) \<Longrightarrow> d < Dot x"
  using mergeDots_set [of es "is"] by blast

lemma mergeDots_leaf_ok: "leaf_ok es \<Longrightarrow> leaf_ok is \<Longrightarrow> leaf_ok (merged_of es is)"
  by (induction es "is" rule: merge_induct)
     (fastforce dest: subsetD [OF mergeDots_set] less_trans)+

text \<open>The merge is the union of the two maps in which the existing entry wins.\<close>

lemma mergeDots_dotmap:
  "leaf_ok es \<Longrightarrow> leaf_ok is \<Longrightarrow> dotmap (merged_of es is) = dotmap is ++ dotmap es"
proof (induction es "is" rule: merge_induct)
  case (gt e es i "is")
  then have "dotmap (e # es) (Dot i) = None" by (auto simp: dotmap_None)
  then show ?case using gt by (auto simp: fun_eq_iff map_add_def split: option.splits)
next
  case (eq e es i "is")
  then show ?case by (simp add: fun_eq_iff map_add_def)
qed auto

lemma mergeDots_length: "length (merged_of es is) = length es + inserted_of es is"
  by (induction es "is" rule: merge_induct) auto

lemma mergeDots_count: "inserted_of es is + skipped_of es is = length is"
  by (induction es "is" rule: merge_induct) auto

lemma leaf_ok_length: "leaf_ok es \<Longrightarrow> length es = card (Dot ` set es)"
  using distinct_card [of "map Dot es"] by (simp add: leaf_ok_def strict_sorted_iff)

lemma mergeDots_inserted:
  assumes "leaf_ok es" "leaf_ok is"
  shows "inserted_of es is = card (Dot ` set is - Dot ` set es)"
proof -
  have "length es + inserted_of es is = card (Dot ` set es \<union> Dot ` set is)"
    using leaf_ok_length [OF mergeDots_leaf_ok [OF assms]]
    by (simp only: mergeDots_dots mergeDots_length)
  also have "\<dots> = card (Dot ` set es) + card (Dot ` set is - Dot ` set es)"
    by (simp add: card_Un_disjoint [symmetric] Un_Diff_cancel)
  finally show ?thesis using leaf_ok_length [OF assms(1)] by simp
qed

lemma mergeDots_none_inserted: "inserted_of es is = 0 \<Longrightarrow> merged_of es is = es"
  by (induction es "is" rule: merge_induct) auto

lemma mergeDots_nonempty: "is \<noteq> [] \<Longrightarrow> merged_of es is \<noteq> []"
  using mergeDots_dots [of es "is"] by auto

lemma merge_restrict: "dotmap (merged_of es is) d = None \<longleftrightarrow> d \<notin> Dot ` set es \<union> Dot ` set is"
  by (simp only: dotmap_None mergeDots_dots)

section \<open>Insertion into a leaf\<close>

lemma shiftBack_append:
  "length xs = n \<Longrightarrow> sorted_wrt (\<le>) (map Dot xs) \<Longrightarrow>
   shiftBack (xs @ y # ys) n x =
     takeWhile (\<lambda>e. Dot e \<le> Dot x) xs @
       (if dropWhile (\<lambda>e. Dot e \<le> Dot x) xs = [] then [x]
        else x # dropWhile (\<lambda>e. Dot e \<le> Dot x) xs) @ ys"
proof (induction n arbitrary: xs y ys)
  case (Suc n)
  then obtain zs z where xs: "xs = zs @ [z]" "length zs = n"
    by (metis length_Suc_conv_rev)
  show ?case
  proof (cases "Dot z \<le> Dot x")
    case True
    then have "\<forall>e\<in>set xs. Dot e \<le> Dot x"
      using Suc.prems(2) xs by (auto simp: sorted_wrt_append intro: order_trans)
    then show ?thesis
      using True xs by (simp add: nth_append not_less [symmetric] list_update_append takeWhile_eq_all_conv [THEN iffD2]
          dropWhile_eq_Nil_conv [THEN iffD2])
  next
    case False
    then have "shiftBack (xs @ y # ys) (Suc n) x = shiftBack (zs @ z # z # ys) n x"
      using xs by (simp add: nth_append list_update_append linorder_not_le)
    then show ?thesis
      using False Suc.IH [of zs z "z # ys"] Suc.prems(2) xs
      by (auto simp: sorted_wrt_append takeWhile_append dropWhile_append dropWhile_eq_Nil_conv
          takeWhile_eq_all_conv)
  qed
qed simp

lemma insertionSortLast_split:
  assumes "sorted_wrt (\<le>) (map Dot xs)"
  shows "insertionSortLastEntry (xs @ [x]) =
    takeWhile (\<lambda>e. Dot e \<le> Dot x) xs @ x # dropWhile (\<lambda>e. Dot e \<le> Dot x) xs"
  using shiftBack_append [OF refl assms, of x "[]" x]
  by (cases xs) (auto simp: insertionSortLastEntry_def Let_def)

lemma insertionSortLast_fresh:
  assumes "leaf_ok xs" "Dot x \<notin> Dot ` set xs"
  shows "leaf_ok (insertionSortLastEntry (xs @ [x]))"
    and "dotmap (insertionSortLastEntry (xs @ [x])) = (dotmap xs)(Dot x \<mapsto> x)"
    and "insertionSortLastEntry (xs @ [x]) \<noteq> []"
proof -
  define l r where l_def: "l = takeWhile (\<lambda>e. Dot e \<le> Dot x) xs"
    and r_def: "r = dropWhile (\<lambda>e. Dot e \<le> Dot x) xs"
  have "sorted_wrt (\<le>) (map Dot xs)"
    using assms(1) unfolding leaf_ok_def by (rule sorted_wrt_mono_rel [rotated]) auto
  from insertionSortLast_split [OF this] have eq: "insertionSortLastEntry (xs @ [x]) = l @ x # r"
    by (simp add: l_def r_def)
  have xs: "xs = l @ r" by (simp add: l_def r_def)
  then have ok: "leaf_ok (l @ r)" using assms(1) by simp
  have l: "Dot e < Dot x" if "e \<in> set l" for e
    using that assms(2) set_takeWhileD [OF that [unfolded l_def]]
    by (metis image_eqI order_le_imp_less_or_eq)
  have r: "Dot x < Dot e" if "e \<in> set r" for e
  proof -
    have "r \<noteq> []" using that by auto
    then have "\<not> Dot (hd r) \<le> Dot x" unfolding r_def by (rule hd_dropWhile)
    moreover have "Dot (hd r) \<le> Dot e"
      using ok that by (cases r) (auto simp: leaf_ok_def sorted_wrt_append)
    ultimately show ?thesis by simp
  qed
  show "leaf_ok (insertionSortLastEntry (xs @ [x]))"
    unfolding eq using ok l r by (auto simp: leaf_ok_def sorted_wrt_append dest: less_trans)
  have "map_of (map (\<lambda>e. (Dot e, e)) l) (Dot x) = None"
    by (auto simp: map_of_eq_None_iff image_image dest: l)
  then show "dotmap (insertionSortLastEntry (xs @ [x])) = (dotmap xs)(Dot x \<mapsto> x)"
    unfolding eq unfolding xs by (auto simp: dotmap_def fun_eq_iff map_add_def split: option.splits)
  show "insertionSortLastEntry (xs @ [x]) \<noteq> []" unfolding eq by simp
qed

end
