(* ===== verification/Engine.thy ===== *)
theory Engine
  imports Dot_Merge
begin

text \<open>
  The delta-CRDT engine of \<^verbatim>\<open>pkg/sync/crdt.go\<close>, \<^verbatim>\<open>merkle_sharded.go\<close> and \<^verbatim>\<open>point_get.go\<close>: shards and
  routing, the Lamport clock with its persisted limit, local insertion, \<^verbatim>\<open>Join\<close>, re-sharding, the
  stitched view \<^verbatim>\<open>State\<close>, point reads and the sharded Merkle root.

  The model is the sequential behaviour of each call: a compare-and-swap loop succeeds in its first
  round. Reclamation has no effect on the values and is left out. Arguments that stand for what is
  not in the sources: \<^verbatim>\<open>maphash\<close>, \<^verbatim>\<open>sha256\<close>, the seeds drawn by \<^verbatim>\<open>MakeSeed\<close>, the order that
  \<^verbatim>\<open>slices.SortFunc\<close> gives to equal elements, and the rounding \<^verbatim>\<open>f64\<close> of a float64 operation. A panic
  after \<^verbatim>\<open>Close\<close> is the result \<^verbatim>\<open>None\<close>.
\<close>

section \<open>State\<close>

type_synonym hasher = "Seed \<Rightarrow> gostring \<Rightarrow> u64"
type_synonym incomingEntry = "gostring \<times> CRDTEntry"

text \<open>
  \<^verbatim>\<open>persistQueue\<close> holds the limits that were handed to the persist worker, the latest first. A limit
  is handed over by a non-blocking send that succeeds only when the worker waits at the channel:
  \<^verbatim>\<open>workerIdle\<close> says for each limit whether it does.
\<close>

record DeltaCRDTEngine =
  localNodeID :: bytes
  shards :: "HAMT list"
  routeSeed :: Seed
  lamportCounter :: u64
  lastSavedCounter :: u64
  persistQueue :: "u64 list"
  workerIdle :: "u64 \<Rightarrow> bool"
  observedInboundRate :: real
  lamportSkewHorizonSeconds :: real
  lamportSkewAbsoluteSlack :: u64
  entriesInserted :: u64
  entriesSkipped :: u64
  deltasApplied :: u64
  closing :: bool

record CRDTDelta =
  Entries :: "incomingEntry list option"
  DeltaOriginNodeID :: bytes

definition defaultShardCount :: nat where "defaultShardCount = 256"

definition initShardsLocked :: "(nat \<Rightarrow> Seed) \<Rightarrow> nat \<Rightarrow> HAMT list" where
  "initShardsLocked mkSeed n = map (\<lambda>i. NewHAMT (mkSeed i)) [0..<n]"

definition NewDeltaCRDTEngine ::
  "(nat \<Rightarrow> Seed) \<Rightarrow> Seed \<Rightarrow> (u64 \<Rightarrow> bool) \<Rightarrow> bytes \<Rightarrow> u64 \<Rightarrow> u64 option \<Rightarrow> DeltaCRDTEngine" where
  "NewDeltaCRDTEngine mkSeed rSeed idle nodeID initialCounter recovered =
     (let start = (case recovered of
                     Some r \<Rightarrow> if r > 0 \<and> r > initialCounter then r else initialCounter
                   | None \<Rightarrow> initialCounter)
      in \<lparr>localNodeID = nodeID, shards = initShardsLocked mkSeed defaultShardCount,
          routeSeed = rSeed, lamportCounter = start, lastSavedCounter = start,
          persistQueue = [], workerIdle = idle, observedInboundRate = 0,
          lamportSkewHorizonSeconds = 60, lamportSkewAbsoluteSlack = 1000,
          entriesInserted = 0, entriesSkipped = 0, deltasApplied = 0, closing = False\<rparr>)"

definition SetLamportHorizonSeconds :: "real \<Rightarrow> DeltaCRDTEngine \<Rightarrow> DeltaCRDTEngine" where
  "SetLamportHorizonSeconds h e = e\<lparr>lamportSkewHorizonSeconds := h\<rparr>"

definition SetLamportAbsoluteSlack :: "u64 \<Rightarrow> DeltaCRDTEngine \<Rightarrow> DeltaCRDTEngine" where
  "SetLamportAbsoluteSlack s e = e\<lparr>lamportSkewAbsoluteSlack := s\<rparr>"

section \<open>Routing\<close>

definition routeIndex :: "hasher \<Rightarrow> Seed \<Rightarrow> nat \<Rightarrow> gostring \<Rightarrow> nat" where
  "routeIndex maphash sd n entityId =
     (if n = 0 then 0
      else
        let h = maphash sd entityId in
        if n AND (n - 1) = 0 then unat (h AND of_nat (n - 1))
        else unat (h mod of_nat n))"

definition routeShard :: "hasher \<Rightarrow> DeltaCRDTEngine \<Rightarrow> gostring \<Rightarrow> nat" where
  "routeShard maphash e entityId = routeIndex maphash (routeSeed e) (length (shards e)) entityId"

section \<open>Lamport clock\<close>

text \<open>\<^verbatim>\<open>select { case e.persistCh <- nextLimit: default: }\<close> after the watermark was raised.\<close>

definition raiseLimit :: "u64 \<Rightarrow> DeltaCRDTEngine \<Rightarrow> DeltaCRDTEngine" where
  "raiseLimit nextLimit e =
     e\<lparr>lastSavedCounter := nextLimit,
       persistQueue := (if workerIdle e nextLimit then nextLimit # persistQueue e else persistQueue e)\<rparr>"

definition NextDot :: "DeltaCRDTEngine \<Rightarrow> CausalDot \<times> DeltaCRDTEngine" where
  "NextDot e =
     (let counter = lamportCounter e + 1;
          e1 = e\<lparr>lamportCounter := counter\<rparr>
      in if counter \<le> lastSavedCounter e1 then (CausalDot (localNodeID e1) counter, e1)
         else
           let nextLimit = counter + 1000;
               e2 = (if nextLimit \<le> lastSavedCounter e1 then e1 else raiseLimit nextLimit e1)
           in (CausalDot (localNodeID e2) counter, e2))"

definition lamportSkewEWMAAlpha :: real where "lamportSkewEWMAAlpha = 1 / 10"

definition ewmaNext :: "(real \<Rightarrow> real) \<Rightarrow> u64 \<Rightarrow> real \<Rightarrow> real" where
  "ewmaNext f64 delta prev =
     f64 (f64 (f64 lamportSkewEWMAAlpha * f64 (of_nat (unat delta))) +
          f64 (f64 (1 - lamportSkewEWMAAlpha) * prev))"

definition AdvanceLamportTo :: "(real \<Rightarrow> real) \<Rightarrow> u64 \<Rightarrow> DeltaCRDTEngine \<Rightarrow> DeltaCRDTEngine" where
  "AdvanceLamportTo f64 remoteCounter e =
     (let current = lamportCounter e in
      if current \<ge> remoteCounter then e
      else
        let e1 = e\<lparr>lamportCounter := remoteCounter\<rparr>;
            e2 = (if remoteCounter \<le> lastSavedCounter e1 then e1
                  else raiseLimit (remoteCounter + 1000) e1)
        in e2\<lparr>observedInboundRate :=
                ewmaNext f64 (remoteCounter - current) (observedInboundRate e2)\<rparr>)"

definition LamportCounter :: "DeltaCRDTEngine \<Rightarrow> u64" where
  "LamportCounter e = lamportCounter e"

text \<open>The Lamport file: 8 bytes big-endian; the reader rejects a shorter file.\<close>

definition persistLamport :: "u64 \<Rightarrow> bytes" where
  "persistLamport val = be_bytes 8 val"

definition recoverLamport :: "bytes option \<Rightarrow> u64 option" where
  "recoverLamport file =
     (case file of None \<Rightarrow> None
      | Some data \<Rightarrow> if length data < 8 then None else Some (of_be (take 8 data)))"

section \<open>Local insertion\<close>

definition InsertLocal ::
  "hasher \<Rightarrow> gostring \<Rightarrow> CRDTEntry \<Rightarrow> DeltaCRDTEngine \<Rightarrow> (CausalDot \<times> DeltaCRDTEngine) option" where
  "InsertLocal maphash entityId entry e =
     (if closing e then None
      else
        let (dot, e1) = NextDot e;
            entry1 = entry\<lparr>DotNodeID := NodeID dot, DotCounter := Counter dot,
                           OriginNodeID := localNodeID e1\<rparr>;
            shardIdx = routeShard maphash e1 entityId;
            current = shards e1 ! shardIdx;
            existing = HAMT_Get maphash current entityId;
            newEntries = insertionSortLastEntry (existing @ [entry1]);
            newState = HAMT_Set maphash current entityId newEntries
        in Some (dot, e1\<lparr>shards := (shards e1)[shardIdx := newState],
                         entriesInserted := entriesInserted e1 + 1\<rparr>))"

section \<open>Join\<close>

definition cmpIncomingEntries :: "incomingEntry \<Rightarrow> incomingEntry \<Rightarrow> int" where
  "cmpIncomingEntries a b =
     (if fst a \<noteq> fst b then (if fst a < fst b then -1 else 1)
      else compareDots (Dot (snd a)) (Dot (snd b)))"

text \<open>
  Step 3, in place: the element at \<^verbatim>\<open>k-1\<close> is the last one kept. The second component counts what
  is dropped.
\<close>

fun dedupFrom :: "incomingEntry \<Rightarrow> incomingEntry list \<Rightarrow> incomingEntry list \<times> nat" where
  "dedupFrom kept [] = ([], 0)"
| "dedupFrom kept (x # xs) =
     (if fst x \<noteq> fst kept \<or> compareDots (Dot (snd x)) (Dot (snd kept)) \<noteq> 0
      then (case dedupFrom x xs of (ys, n) \<Rightarrow> (x # ys, n))
      else (case dedupFrom kept xs of (ys, n) \<Rightarrow> (ys, Suc n)))"

fun dedupIncoming :: "incomingEntry list \<Rightarrow> incomingEntry list \<times> nat" where
  "dedupIncoming [] = ([], 0)"
| "dedupIncoming (x # xs) = (case dedupFrom x xs of (ys, n) \<Rightarrow> (x # ys, n))"

text \<open>Step 4: the runs of equal entity ids, each with its entries.\<close>

function blockRanges :: "incomingEntry list \<Rightarrow> (gostring \<times> CRDTEntry list) list" where
  "blockRanges [] = []"
| "blockRanges ((eid, en) # rest) =
     (eid, en # map snd (takeWhile (\<lambda>x. fst x = eid) rest)) #
       blockRanges (dropWhile (\<lambda>x. fst x = eid) rest)"
  by pat_completeness auto
termination
  by (relation "measure length") (auto simp: length_dropWhile_le le_imp_less_Suc)

fun perShardMerge ::
  "hasher \<Rightarrow> HAMT \<Rightarrow> (gostring \<times> CRDTEntry list) list \<Rightarrow> HAMT \<times> nat \<times> nat \<times> bool" where
  "perShardMerge maphash base [] = (base, 0, 0, False)"
| "perShardMerge maphash base ((eid, block) # batches) =
     (case mergeDots (HAMT_Get maphash base eid) block of
        (merged, ins, sk) \<Rightarrow>
          let added = (ins > 0);
              modified = (if added then HAMT_Set maphash base eid merged else base)
          in (case perShardMerge maphash modified batches of
                (modified', ins', sk', addedAny) \<Rightarrow>
                  (modified', ins + ins', sk + sk', added \<or> addedAny)))"

text \<open>One round of the driver loop: merge the blocks of a shard and publish the new root if it grew.\<close>

definition mergeShard ::
  "hasher \<Rightarrow> (nat \<Rightarrow> (gostring \<times> CRDTEntry list) list) \<Rightarrow> nat \<Rightarrow>
     HAMT list \<times> nat \<times> nat \<Rightarrow> HAMT list \<times> nat \<times> nat" where
  "mergeShard maphash shardBatches idx st =
     (case st of (shs, totalInserted, totalSkipped) \<Rightarrow>
       (case perShardMerge maphash (shs ! idx) (shardBatches idx) of
          (modified, ins, sk, added) \<Rightarrow>
            if added then (shs[idx := modified], totalInserted + ins, totalSkipped + sk)
            else (shs, totalInserted, totalSkipped + sk)))"

definition Join ::
  "hasher \<Rightarrow> ((incomingEntry \<Rightarrow> incomingEntry \<Rightarrow> int) \<Rightarrow> incomingEntry list \<Rightarrow> incomingEntry list) \<Rightarrow>
     (real \<Rightarrow> real) \<Rightarrow> CRDTDelta \<Rightarrow> DeltaCRDTEngine \<Rightarrow> DeltaCRDTEngine option" where
  "Join maphash sortFunc f64 delta e =
     (if closing e then None
      else case Entries delta of
        None \<Rightarrow> Some e
      | Some incoming \<Rightarrow>
          let e1 = fold (\<lambda>x. AdvanceLamportTo f64 (DotCounter (snd x))) incoming e in
          if incoming = [] then Some e1
          else
            let (deduped, dropped) = dedupIncoming (sortFunc cmpIncomingEntries incoming);
                blocks = blockRanges deduped;
                shardBatches = (\<lambda>idx. filter (\<lambda>b. routeShard maphash e1 (fst b) = idx) blocks);
                shardOrder = sort (remdups (map (\<lambda>b. routeShard maphash e1 (fst b)) blocks));
                (shs, totalInserted, totalSkipped) =
                  fold (mergeShard maphash shardBatches) shardOrder (shards e1, 0, 0)
            in Some (e1\<lparr>shards := shs,
                        entriesSkipped := entriesSkipped e1 + of_nat dropped + of_nat totalSkipped,
                        entriesInserted := entriesInserted e1 + of_nat totalInserted,
                        deltasApplied := deltasApplied e1 + 1\<rparr>))"

section \<open>Re-sharding, views and reads\<close>

definition reemit ::
  "hasher \<Rightarrow> gostring \<Rightarrow> CRDTEntry list \<Rightarrow> DeltaCRDTEngine \<Rightarrow> bool \<times> DeltaCRDTEngine" where
  "reemit maphash entityId entries e =
     (let idx = routeShard maphash e entityId in
      (True, e\<lparr>shards := (shards e)[idx := mergeExistingDot maphash (shards e ! idx) entityId entries]\<rparr>))"

text \<open>\<^verbatim>\<open>SetShardCount\<close>; \<^verbatim>\<open>None\<close> is the panic on a count that is not a positive power of two.\<close>

definition SetShardCount ::
  "hasher \<Rightarrow> (nat \<Rightarrow> Seed) \<Rightarrow> int \<Rightarrow> DeltaCRDTEngine \<Rightarrow> DeltaCRDTEngine option" where
  "SetShardCount maphash mkSeed n e =
     (if n < 1 \<or> n AND (n - 1) \<noteq> 0 then None
      else if int (length (shards e)) = n then Some e
      else Some (fold (\<lambda>r e. ForEach (reemit maphash) r e) (shards e)
                   (e\<lparr>shards := initShardsLocked mkSeed (nat n)\<rparr>)))"

definition State :: "hasher \<Rightarrow> Seed \<Rightarrow> DeltaCRDTEngine \<Rightarrow> HAMT" where
  "State maphash madeSeed e =
     fold (\<lambda>r merged. ForEach (\<lambda>eid es m. (True, HAMT_Set maphash m eid es)) r merged)
       (shards e) (NewHAMT madeSeed)"

definition PointGet :: "hasher \<Rightarrow> gostring \<Rightarrow> DeltaCRDTEngine \<Rightarrow> CRDTEntry list" where
  "PointGet maphash entityId e =
     (if length (shards e) = 0 then []
      else HAMT_Get maphash (shards e ! routeShard maphash e entityId) entityId)"

definition collectDots :: "gostring \<Rightarrow> CRDTEntry list \<Rightarrow> CausalDot list \<Rightarrow> bool \<times> CausalDot list" where
  "collectDots _ es acc = (True, acc @ map Dot es)"

definition hashShardDotPairs :: "(bytes \<Rightarrow> bytes) \<Rightarrow> CausalDot list \<Rightarrow> bytes" where
  "hashShardDotPairs sha256 pairs =
     (let ps = sort pairs in
      if ps = [] then replicate 32 0
      else sha256 (concat (map (\<lambda>p. NodeID p @ be_bytes 8 (Counter p)) ps)))"

definition MerkleRootFromShards :: "(bytes \<Rightarrow> bytes) \<Rightarrow> DeltaCRDTEngine \<Rightarrow> bytes" where
  "MerkleRootFromShards sha256 e =
     hashShardDotPairs sha256 (fold (ForEach collectDots) (shards e) [])"

text \<open>
  \<^verbatim>\<open>CaptureShardsPinned\<close>: the walk threads the collected pairs, the largest local counter and the
  state of the callback, and stops at the first \<^verbatim>\<open>false\<close>.
\<close>

definition captureEntity ::
  "bytes \<Rightarrow> (gostring \<Rightarrow> CRDTEntry list \<Rightarrow> 's \<Rightarrow> bool \<times> 's) \<Rightarrow> gostring \<Rightarrow> CRDTEntry list \<Rightarrow>
     CausalDot list \<times> u64 \<times> 's \<Rightarrow> bool \<times> (CausalDot list \<times> u64 \<times> 's)" where
  "captureEntity self fn eid es st =
     (case st of (pairs, mx, s) \<Rightarrow>
        let pairs' = pairs @ map Dot es;
            mx' = fold (\<lambda>en m. if DotNodeID en = self \<and> DotCounter en > m then DotCounter en else m) es mx;
            (go, s') = fn eid es s
        in (go, (pairs', mx', s')))"

definition CaptureShardsPinned ::
  "(bytes \<Rightarrow> bytes) \<Rightarrow> (gostring \<Rightarrow> CRDTEntry list \<Rightarrow> 's \<Rightarrow> bool \<times> 's) \<Rightarrow> DeltaCRDTEngine \<Rightarrow> 's \<Rightarrow>
     bytes \<times> u64 \<times> 's" where
  "CaptureShardsPinned sha256 fn e s =
     (case visit (\<lambda>r. forEach (captureEntity (localNodeID e) fn) (root r)) (shards e) ([], 0, s) of
        (_, pairs, mx, s') \<Rightarrow> (hashShardDotPairs sha256 pairs, mx, s'))"

end
