(* ===== verification/Engine_Join.thy ===== *)
theory Engine_Join
  imports Engine "HOL-Library.Product_Lexorder"
begin

text \<open>
  The engine invariant, and \<^verbatim>\<open>Join\<close> and \<^verbatim>\<open>InsertLocal\<close> proved against it: what every entity reads
  after the call, as a merge of dot maps. The results hold for every order that the sort gives to
  elements with the same entity and dot.
\<close>

section \<open>Invariant and abstraction\<close>

definition eng_ok :: "hasher \<Rightarrow> DeltaCRDTEngine \<Rightarrow> bool" where
  "eng_ok maphash e \<longleftrightarrow>
     0 < length (shards e) \<and> length (shards e) < 2 ^ 63 \<and>
     (\<forall>i<length (shards e). hamt_ok maphash (shards e ! i) \<and>
        (\<forall>(k, es)\<in>set (hamt_binds (shards e ! i)). routeShard maphash e k = i \<and> leaf_ok es))"

text \<open>The abstract state: for every entity a finite map from dots to entries.\<close>

definition eng_map :: "hasher \<Rightarrow> DeltaCRDTEngine \<Rightarrow> gostring \<Rightarrow> (CausalDot \<rightharpoonup> CRDTEntry)" where
  "eng_map maphash e k = dotmap (PointGet maphash k e)"

text \<open>What \<^verbatim>\<open>slices.SortFunc\<close> promises for the comparison of \<^verbatim>\<open>Join\<close>: a sorted permutation.\<close>

definition sort_ok ::
  "((incomingEntry \<Rightarrow> incomingEntry \<Rightarrow> int) \<Rightarrow> incomingEntry list \<Rightarrow> incomingEntry list) \<Rightarrow> bool" where
  "sort_ok sortFunc \<longleftrightarrow>
     (\<forall>xs. mset (sortFunc cmpIncomingEntries xs) = mset xs \<and>
           sorted_wrt (\<lambda>a b. cmpIncomingEntries a b \<le> 0) (sortFunc cmpIncomingEntries xs))"

definition keyDot :: "incomingEntry \<Rightarrow> gostring \<times> CausalDot" where
  "keyDot x = (fst x, Dot (snd x))"

text \<open>The entries of one entity that survive sorting and deduplication, in dot order.\<close>

definition joinBlock ::
  "((incomingEntry \<Rightarrow> incomingEntry \<Rightarrow> int) \<Rightarrow> incomingEntry list \<Rightarrow> incomingEntry list) \<Rightarrow>
     incomingEntry list \<Rightarrow> gostring \<Rightarrow> CRDTEntry list" where
  "joinBlock sortFunc ds k =
     map snd (filter (\<lambda>x. fst x = k) (fst (dedupIncoming (sortFunc cmpIncomingEntries ds))))"

section \<open>Routing\<close>

lemma routeIndex_less:
  assumes "0 < n" "n < 2 ^ 64"
  shows "routeIndex maphash sd n k < n"
proof -
  have n: "unat (of_nat n :: u64) = n" "unat (of_nat (n - 1) :: u64) = n - 1"
    using assms by (simp_all add: unat_of_nat del: of_nat_diff)
  have "unat (maphash sd k AND (of_nat (n - 1) :: u64)) \<le> n - 1"
    using word_and_le1 [of "maphash sd k" "of_nat (n - 1)"] n(2) by (simp add: word_le_nat_alt)
  moreover have "unat (maphash sd k mod (of_nat n :: u64)) < n"
    using assms(1) n(1) by (simp add: unat_mod)
  ultimately show ?thesis using assms(1) by (auto simp: routeIndex_def Let_def)
qed

lemma routeShard_less: "eng_ok maphash e \<Longrightarrow> routeShard maphash e k < length (shards e)"
  unfolding routeShard_def by (rule routeIndex_less) (auto simp: eng_ok_def)

lemma routeShard_cong:
  "routeSeed e' = routeSeed e \<Longrightarrow> length (shards e') = length (shards e) \<Longrightarrow>
   routeShard maphash e' = routeShard maphash e"
  by (auto simp: routeShard_def)

lemma eng_okD:
  assumes "eng_ok maphash e" "i < length (shards e)"
  shows "hamt_ok maphash (shards e ! i)"
    and "HAMT_Get maphash (shards e ! i) k \<noteq> [] \<Longrightarrow> routeShard maphash e k = i"
    and "leaf_ok (HAMT_Get maphash (shards e ! i) k)"
proof -
  show ok: "hamt_ok maphash (shards e ! i)" using assms by (simp add: eng_ok_def)
  have b: "\<forall>(k, es)\<in>set (hamt_binds (shards e ! i)). routeShard maphash e k = i \<and> leaf_ok es"
    using assms by (simp add: eng_ok_def)
  then show "HAMT_Get maphash (shards e ! i) k \<noteq> [] \<Longrightarrow> routeShard maphash e k = i"
    using hm.binds_iff [OF ok, of k] by blast
  show "leaf_ok (HAMT_Get maphash (shards e ! i) k)"
    using b hm.binds_iff [OF ok, of k "HAMT_Get maphash (shards e ! i) k"]
    by (cases "HAMT_Get maphash (shards e ! i) k = []") fastforce+
qed

lemma eng_okI:
  assumes "0 < length (shards e)" "length (shards e) < 2 ^ 63"
    and "\<And>i. i < length (shards e) \<Longrightarrow> hamt_ok maphash (shards e ! i)"
    and "\<And>i k. i < length (shards e) \<Longrightarrow> HAMT_Get maphash (shards e ! i) k \<noteq> [] \<Longrightarrow>
           routeShard maphash e k = i \<and> leaf_ok (HAMT_Get maphash (shards e ! i) k)"
  shows "eng_ok maphash e"
proof -
  have "routeShard maphash e k = i \<and> leaf_ok es"
    if "i < length (shards e)" "(k, es) \<in> set (hamt_binds (shards e ! i))" for i k es
    using that assms(4) [of i k] hm.binds_iff [OF assms(3) [OF that(1)], of k es] by auto
  then show ?thesis using assms(1-3) by (fastforce simp: eng_ok_def)
qed

lemma PointGet_shard:
  "eng_ok maphash e \<Longrightarrow> PointGet maphash k e = HAMT_Get maphash (shards e ! routeShard maphash e k) k"
  by (auto simp: PointGet_def eng_ok_def)

lemma PointGet_leaf_ok: "eng_ok maphash e \<Longrightarrow> leaf_ok (PointGet maphash k e)"
  by (simp add: PointGet_shard eng_okD(3) routeShard_less)

text \<open>Two well-formed engines with the same abstract state return the same entries in the same order.\<close>

lemma eng_map_ext:
  "eng_ok mh e \<Longrightarrow> eng_ok mh' e' \<Longrightarrow> eng_map mh e k = eng_map mh' e' k \<Longrightarrow>
   PointGet mh k e = PointGet mh' k e'"
  unfolding eng_map_def by (rule leaf_ext [OF PointGet_leaf_ok PointGet_leaf_ok])

section \<open>Sorting, deduplication and blocks\<close>

lemma cmpIncoming_le: "cmpIncomingEntries a b \<le> 0 \<longleftrightarrow> keyDot a \<le> keyDot b"
  by (auto simp: cmpIncomingEntries_def keyDot_def less_eq_prod_def not_less [symmetric])

lemma sort_ok_sorted:
  "sort_ok sortFunc \<Longrightarrow> sorted (map keyDot (sortFunc cmpIncomingEntries xs))"
  by (simp add: sort_ok_def cmpIncoming_le sorted_wrt_map)

lemma sort_ok_set: "sort_ok sortFunc \<Longrightarrow> set (sortFunc cmpIncomingEntries xs) = set xs"
  unfolding sort_ok_def by (metis set_mset_mset)

lemma dedupFrom_step:
  "keyDot x = keyDot p \<Longrightarrow> fst (dedupFrom p (x # xs)) = fst (dedupFrom p xs)"
  "keyDot x \<noteq> keyDot p \<Longrightarrow> fst (dedupFrom p (x # xs)) = x # fst (dedupFrom x xs)"
  by (auto simp: keyDot_def split: prod.splits)

lemma dedupFrom_spec:
  "sorted (map keyDot (p # xs)) \<Longrightarrow>
   sorted_wrt (<) (map keyDot (p # fst (dedupFrom p xs))) \<and>
   set (fst (dedupFrom p xs)) \<subseteq> set xs \<and>
   keyDot ` set (p # fst (dedupFrom p xs)) = keyDot ` set (p # xs)"
proof (induction xs arbitrary: p)
  case (Cons x xs)
  show ?case
  proof (cases "keyDot x = keyDot p")
    case True
    then show ?thesis
      using Cons.IH [of p] Cons.prems by (auto simp: dedupFrom_step simp del: dedupFrom.simps)
  next
    case False
    then have "keyDot p < keyDot x" using Cons.prems by auto
    with False show ?thesis
      using Cons.IH [of x] Cons.prems
      by (auto simp: dedupFrom_step simp del: dedupFrom.simps dest: less_trans)
  qed
qed simp

lemma dedupIncoming_spec:
  assumes "sorted (map keyDot xs)"
  shows "sorted_wrt (<) (map keyDot (fst (dedupIncoming xs)))"
    and "set (fst (dedupIncoming xs)) \<subseteq> set xs"
    and "keyDot ` set (fst (dedupIncoming xs)) = keyDot ` set xs"
  using assms dedupFrom_spec [of "hd xs" "tl xs"]
  by (cases xs; auto split: prod.splits)+

lemma takeWhile_key_sorted:
  "sorted (map fst xs) \<Longrightarrow> (\<forall>x\<in>set xs. k \<le> fst x) \<Longrightarrow>
   takeWhile (\<lambda>x. fst x = k) xs = filter (\<lambda>x. fst x = k) xs \<and>
   dropWhile (\<lambda>x. fst x = k) xs = filter (\<lambda>x. fst x \<noteq> k) xs"
proof (induction xs)
  case (Cons x xs)
  show ?case
  proof (cases "fst x = k")
    case False
    then have "\<forall>y\<in>set xs. fst y \<noteq> k" using Cons.prems by fastforce
    then show ?thesis using False by (simp add: filter_id_conv filter_empty_conv)
  qed (use Cons in auto)
qed simp

lemma blockRanges_spec:
  assumes "sorted (map fst xs)"
  shows "distinct (map fst (blockRanges xs)) \<and> fst ` set (blockRanges xs) = fst ` set xs \<and>
    (\<forall>(k, b)\<in>set (blockRanges xs). b = map snd (filter (\<lambda>x. fst x = k) xs))"
  using assms
proof (induction xs rule: blockRanges.induct)
  case (2 eid en rest)
  have le: "\<forall>x\<in>set rest. eid \<le> fst x" and s: "sorted (map fst rest)" using 2(2) by auto
  note tw = takeWhile_key_sorted [OF s le]
  have s': "sorted (map fst (dropWhile (\<lambda>x. fst x = eid) rest))"
    using s tw by (simp add: sorted_filter)
  let ?r = "dropWhile (\<lambda>x. fst x = eid) rest" and ?br = "blockRanges (dropWhile (\<lambda>x. fst x = eid) rest)"
  have IH: "distinct (map fst ?br)" "fst ` set ?br = fst ` set ?r"
    "\<And>k b. (k, b) \<in> set ?br \<Longrightarrow> b = map snd (filter (\<lambda>x. fst x = k) ?r)"
    using 2(1) [OF s'] by blast+
  have r: "fst ` set ?r = fst ` set rest - {eid}"
    unfolding conjunct2 [OF tw] by auto
  have "b = map snd (filter (\<lambda>x. fst x = k) ((eid, en) # rest))" if kb: "(k, b) \<in> set ?br" for k b
  proof -
    have k: "k \<noteq> eid" using imageI [OF kb, of fst] IH(2) r by simp
    then have "filter (\<lambda>x. fst x = k) (filter (\<lambda>x. fst x \<noteq> eid) rest) = filter (\<lambda>x. fst x = k) rest"
      unfolding filter_filter by (intro filter_cong) auto
    then show ?thesis using IH(3) [OF kb] k unfolding conjunct2 [OF tw] by simp
  qed
  moreover have "(eid, en # map snd (takeWhile (\<lambda>x. fst x = eid) rest)) =
      (eid, map snd (filter (\<lambda>x. fst x = eid) ((eid, en) # rest)))"
    unfolding conjunct1 [OF tw] by simp
  ultimately show ?case
    unfolding blockRanges.simps using IH(1,2) r by (simp add: insert_absorb) blast
qed simp

lemma sorted_keyDot_fst: "sorted (map keyDot xs) \<Longrightarrow> sorted (map fst xs)"
  by (induction xs) (auto simp: keyDot_def less_eq_prod_def)

lemma strict_sorted_imp_sorted: "sorted_wrt (<) (xs :: 'a::linorder list) \<Longrightarrow> sorted xs"
  by (simp add: strict_sorted_iff)

lemma strict_sorted_filter_leaf:
  "sorted_wrt (<) (map keyDot xs) \<Longrightarrow> leaf_ok (map snd (filter (\<lambda>x. fst x = k) xs))"
  by (induction xs) (auto simp: keyDot_def)

lemma joinBlock_leaf_ok: "sort_ok sortFunc \<Longrightarrow> leaf_ok (joinBlock sortFunc ds k)"
  unfolding joinBlock_def by (intro strict_sorted_filter_leaf dedupIncoming_spec sort_ok_sorted)

lemma joinBlock_subset: "sort_ok sortFunc \<Longrightarrow> en \<in> set (joinBlock sortFunc ds k) \<Longrightarrow> (k, en) \<in> set ds"
  using dedupIncoming_spec(2) [OF sort_ok_sorted, of sortFunc ds] sort_ok_set [of sortFunc ds]
  by (auto simp: joinBlock_def)

lemma joinBlock_dots:
  assumes "sort_ok sortFunc"
  shows "Dot ` set (joinBlock sortFunc ds k) = {Dot en | en. (k, en) \<in> set ds}"
proof -
  let ?dd = "fst (dedupIncoming (sortFunc cmpIncomingEntries ds))"
  have "keyDot ` set ?dd = keyDot ` set ds"
    using dedupIncoming_spec(3) [OF sort_ok_sorted [OF assms]] sort_ok_set [OF assms] by metis
  then have "{d. (k, d) \<in> keyDot ` set ?dd} = {d. (k, d) \<in> keyDot ` set ds}" by simp
  moreover have "Dot ` set (joinBlock sortFunc ds k) = {d. (k, d) \<in> keyDot ` set ?dd}"
    unfolding joinBlock_def keyDot_def by force
  moreover have "{Dot en | en. (k, en) \<in> set ds} = {d. (k, d) \<in> keyDot ` set ds}"
    unfolding keyDot_def by force
  ultimately show ?thesis by simp
qed

lemma blockRanges_join:
  assumes "sort_ok sortFunc"
    and "bs = blockRanges (fst (dedupIncoming (sortFunc cmpIncomingEntries ds)))"
  shows "distinct (map fst bs)"
    and "(k, b) \<in> set bs \<Longrightarrow> b = joinBlock sortFunc ds k"
    and "k \<notin> fst ` set bs \<Longrightarrow> joinBlock sortFunc ds k = []"
proof -
  have s: "sorted (map fst (fst (dedupIncoming (sortFunc cmpIncomingEntries ds))))"
    by (intro sorted_keyDot_fst strict_sorted_imp_sorted dedupIncoming_spec sort_ok_sorted assms)
  from blockRanges_spec [OF s] assms(2)
  show "distinct (map fst bs)" "(k, b) \<in> set bs \<Longrightarrow> b = joinBlock sortFunc ds k"
    "k \<notin> fst ` set bs \<Longrightarrow> joinBlock sortFunc ds k = []"
    by (auto simp: joinBlock_def filter_empty_conv)
qed

section \<open>Merging the blocks of a shard\<close>

lemma perShardMerge_Cons:
  "fst (perShardMerge mh base ((k, b) # bs)) =
   fst (perShardMerge mh (if inserted_of (HAMT_Get mh base k) b = 0 then base
                          else HAMT_Set mh base k (merged_of (HAMT_Get mh base k) b)) bs)"
  by (auto simp: Let_def split: prod.splits)

lemma perShardMerge_unchanged:
  "\<not> snd (snd (snd (perShardMerge mh base bs))) \<Longrightarrow> fst (perShardMerge mh base bs) = base"
  by (induction mh base bs rule: perShardMerge.induct) (auto simp: Let_def split: prod.splits if_splits)

lemma perShardMerge_spec:
  assumes "hamt_ok mh base" "distinct (map fst bs)"
  shows "hamt_ok mh (fst (perShardMerge mh base bs)) \<and>
    HAMT_Get mh (fst (perShardMerge mh base bs)) k =
      (case map_of bs k of None \<Rightarrow> HAMT_Get mh base k | Some b \<Rightarrow> merged_of (HAMT_Get mh base k) b)"
  using assms
proof (induction bs arbitrary: base)
  case (Cons kb bs)
  obtain k0 b where kb: "kb = (k0, b)" by (cases kb)
  let ?es = "HAMT_Get mh base k0"
  let ?m = "if inserted_of ?es b = 0 then base else HAMT_Set mh base k0 (merged_of ?es b)"
  have ne: "inserted_of ?es b \<noteq> 0 \<Longrightarrow> merged_of ?es b \<noteq> []"
    using mergeDots_length [of ?es b] by auto
  have ok: "hamt_ok mh ?m" using Cons.prems(1) ne by (simp add: hm.inv_set)
  have get: "HAMT_Get mh ?m k = (if k = k0 then merged_of ?es b else HAMT_Get mh base k)"
    using Cons.prems(1) ne mergeDots_none_inserted [of ?es b] by (simp add: hm.get_set)
  have "map_of bs k0 = None" using Cons.prems(2) kb by (auto simp: map_of_eq_None_iff)
  then show ?case
    using Cons.IH [OF ok] Cons.prems(2) get unfolding kb perShardMerge_Cons
    by (auto split: option.splits)
qed simp

lemma mergeShard_fst:
  "idx < length shs \<Longrightarrow>
   fst (mergeShard mh sb idx (shs, a, b)) = shs[idx := fst (perShardMerge mh (shs ! idx) (sb idx))]"
  using perShardMerge_unchanged [of mh "shs ! idx" "sb idx"]
  by (auto simp: mergeShard_def list_update_id split: prod.splits)

lemma mergeShard_fold:
  assumes "distinct order" "\<forall>i\<in>set order. i < length (fst st)" "i < length (fst st)"
  shows "length (fst (fold (mergeShard mh sb) order st)) = length (fst st) \<and>
    fst (fold (mergeShard mh sb) order st) ! i =
      (if i \<in> set order then fst (perShardMerge mh (fst st ! i) (sb i)) else fst st ! i)"
  using assms
proof (induction order arbitrary: st)
  case (Cons x xs)
  obtain shs a b where st: "st = (shs, a, b)" by (cases st)
  have x: "x < length shs" using Cons.prems st by simp
  let ?st = "mergeShard mh sb x st"
  have f: "fst ?st = shs[x := fst (perShardMerge mh (shs ! x) (sb x))]"
    unfolding st using x by (rule mergeShard_fst)
  have "length (fst (fold (mergeShard mh sb) xs ?st)) = length (fst ?st) \<and>
    fst (fold (mergeShard mh sb) xs ?st) ! i =
      (if i \<in> set xs then fst (perShardMerge mh (fst ?st ! i) (sb i)) else fst ?st ! i)"
    using Cons.prems st f by (intro Cons.IH) auto
  then show ?case using Cons.prems f st by (auto simp: nth_list_update)
qed simp

section \<open>Join\<close>

lemma AdvanceLamportTo_frame [simp]:
  "shards (AdvanceLamportTo f64 c e) = shards e"
  "routeSeed (AdvanceLamportTo f64 c e) = routeSeed e"
  "localNodeID (AdvanceLamportTo f64 c e) = localNodeID e"
  "closing (AdvanceLamportTo f64 c e) = closing e"
  by (simp_all add: AdvanceLamportTo_def raiseLimit_def Let_def)

lemma fold_Advance_frame [simp]:
  "shards (fold (\<lambda>x. AdvanceLamportTo f64 (g x)) xs e) = shards e"
  "routeSeed (fold (\<lambda>x. AdvanceLamportTo f64 (g x)) xs e) = routeSeed e"
  "localNodeID (fold (\<lambda>x. AdvanceLamportTo f64 (g x)) xs e) = localNodeID e"
  "closing (fold (\<lambda>x. AdvanceLamportTo f64 (g x)) xs e) = closing e"
  by (induction xs arbitrary: e) auto

lemma joinBlock_Nil [simp]: "sort_ok sortFunc \<Longrightarrow> joinBlock sortFunc [] k = []"
  using joinBlock_dots [of sortFunc "[]" k] by auto

lemma merged_of_Nil [simp]: "merged_of es [] = es"
  by (cases es) auto

definition delta_entries :: "CRDTDelta \<Rightarrow> incomingEntry list" where
  "delta_entries delta = (case Entries delta of None \<Rightarrow> [] | Some ds \<Rightarrow> ds)"

lemma Join_defined: "Join mh sortFunc f64 delta e = None \<longleftrightarrow> closing e"
  by (auto simp: Join_def Let_def split: option.splits prod.splits)

lemma Join_frame:
  "Join mh sortFunc f64 delta e = Some e' \<Longrightarrow>
   routeSeed e' = routeSeed e \<and> localNodeID e' = localNodeID e \<and> closing e' = closing e \<and>
   lamportCounter e' = lamportCounter
     (fold (\<lambda>x. AdvanceLamportTo f64 (DotCounter (snd x))) (delta_entries delta) e)"
  by (auto simp: Join_def Let_def delta_entries_def split: option.splits prod.splits if_splits)

lemma Join_shards:
  assumes ok: "eng_ok mh e" and s: "sort_ok sortFunc" and j: "Join mh sortFunc f64 delta e = Some e'"
  shows "length (shards e') = length (shards e)"
    and "i < length (shards e) \<Longrightarrow> hamt_ok mh (shards e' ! i) \<and>
      HAMT_Get mh (shards e' ! i) k =
        (if routeShard mh e k = i then merged_of (HAMT_Get mh (shards e ! i) k) (joinBlock sortFunc (delta_entries delta) k)
         else HAMT_Get mh (shards e ! i) k)"
proof -
  let ?ds = "delta_entries delta"
  let ?bs = "blockRanges (fst (dedupIncoming (sortFunc cmpIncomingEntries ?ds)))"
  let ?r = "\<lambda>b. routeShard mh e (fst b)"
  let ?sb = "\<lambda>idx. filter (\<lambda>b. ?r b = idx) ?bs"
  let ?order = "sort (remdups (map ?r ?bs))"
  have "(length (shards e') = length (shards e)) \<and> (i < length (shards e) \<longrightarrow>
      shards e' ! i = fst (perShardMerge mh (shards e ! i) (?sb i)))" for i
  proof (cases "?ds = []")
    case True
    then have "shards e' = shards e" "?bs = []"
      using j s sort_ok_set [OF s, of ?ds]
      by (auto simp: Join_def delta_entries_def Let_def split: option.splits prod.splits if_splits)
    then show ?thesis by simp
  next
    case False
    let ?e1 = "fold (\<lambda>x. AdvanceLamportTo f64 (DotCounter (snd x))) ?ds e"
    have r: "routeShard mh ?e1 = routeShard mh e" by (rule routeShard_cong) simp_all
    have sh: "shards e' = fst (fold (mergeShard mh ?sb) ?order (shards e, 0, 0))"
      using j False r
      by (auto simp: Join_def delta_entries_def Let_def split: option.splits prod.splits if_splits)
    have lt: "\<forall>i\<in>set ?order. i < length (shards e)" using routeShard_less [OF ok] by auto
    have "i \<notin> set ?order \<Longrightarrow> ?sb i = []" by (auto simp: filter_empty_conv)
    then show ?thesis
      using mergeShard_fold [of ?order "(shards e, 0, 0)" i mh ?sb] mergeShard_fold
        [of ?order "(shards e, 0, 0)" 0 mh ?sb] lt ok
      unfolding sh by (auto simp: eng_ok_def)
  qed
  note main = this
  show "length (shards e') = length (shards e)" using main by blast
  assume i: "i < length (shards e)"
  have d: "distinct (map fst (?sb i))"
    using blockRanges_join(1) [OF s refl, of ?ds] by (rule distinct_map_filter)
  have "map_of (?sb i) k = (if k \<in> fst ` set ?bs \<and> routeShard mh e k = i
      then Some (joinBlock sortFunc ?ds k) else None)"
    using blockRanges_join(2) [OF s refl, of k _ ?ds] d
    by (force simp: map_of_eq_None_iff map_of_eq_Some_iff)
  then show "hamt_ok mh (shards e' ! i) \<and> HAMT_Get mh (shards e' ! i) k =
      (if routeShard mh e k = i then merged_of (HAMT_Get mh (shards e ! i) k) (joinBlock sortFunc ?ds k)
       else HAMT_Get mh (shards e ! i) k)"
    using main [of i] i perShardMerge_spec [OF eng_okD(1) [OF ok i] d, of k]
      blockRanges_join(3) [OF s refl, of k ?ds] by auto
qed

lemma Join_ok:
  assumes "eng_ok mh e" "sort_ok sortFunc" "Join mh sortFunc f64 delta e = Some e'"
  shows "eng_ok mh e'"
proof -
  note js = Join_shards [OF assms]
  have r: "routeShard mh e' = routeShard mh e"
    using Join_frame [OF assms(3)] js(1) by (intro routeShard_cong) auto
  show ?thesis
  proof (rule eng_okI)
    show "0 < length (shards e')" "length (shards e') < 2 ^ 63"
      using assms(1) js(1) by (auto simp: eng_ok_def)
  next
    fix i assume "i < length (shards e')"
    then show "hamt_ok mh (shards e' ! i)" using js by simp
  next
    fix i k assume i: "i < length (shards e')" and ne: "HAMT_Get mh (shards e' ! i) k \<noteq> []"
    then have i': "i < length (shards e)" using js(1) by simp
    show "routeShard mh e' k = i \<and> leaf_ok (HAMT_Get mh (shards e' ! i) k)"
      using ne js(2) [OF i', of k] eng_okD(2,3) [OF assms(1) i', of k] joinBlock_leaf_ok [OF assms(2)]
      unfolding r by (auto simp: mergeDots_leaf_ok split: if_splits)
  qed
qed

lemma Join_PointGet:
  assumes "eng_ok mh e" "sort_ok sortFunc" "Join mh sortFunc f64 delta e = Some e'"
  shows "PointGet mh k e' = merged_of (PointGet mh k e) (joinBlock sortFunc (delta_entries delta) k)"
proof -
  have r: "routeShard mh e' = routeShard mh e"
    using Join_frame [OF assms(3)] Join_shards(1) [OF assms] by (intro routeShard_cong) auto
  show ?thesis
    using Join_shards(2) [OF assms routeShard_less [OF assms(1), of k], of k]
    unfolding PointGet_shard [OF Join_ok [OF assms]] PointGet_shard [OF assms(1)] r by simp
qed

lemma Join_eng_map:
  assumes "eng_ok mh e" "sort_ok sortFunc" "Join mh sortFunc f64 delta e = Some e'"
  shows "eng_map mh e' k = dotmap (joinBlock sortFunc (delta_entries delta) k) ++ eng_map mh e k"
  unfolding eng_map_def Join_PointGet [OF assms]
  by (intro mergeDots_dotmap PointGet_leaf_ok assms joinBlock_leaf_ok)

lemma Join_cases:
  assumes "eng_ok mh e" "sort_ok sortFunc" "Join mh sortFunc f64 delta e = Some e'"
  shows "eng_map mh e k d = Some v \<Longrightarrow> eng_map mh e' k d = Some v"
    and "eng_map mh e' k d = Some v \<Longrightarrow> eng_map mh e k d = Some v \<or> (k, v) \<in> set (delta_entries delta) \<and> Dot v = d"
    and "(k, v) \<in> set (delta_entries delta) \<Longrightarrow> eng_map mh e' k (Dot v) \<noteq> None"
proof -
  note em = Join_eng_map [OF assms, of k]
  show "eng_map mh e k d = Some v \<Longrightarrow> eng_map mh e' k d = Some v" by (simp add: em)
  show "eng_map mh e' k d = Some v \<Longrightarrow> eng_map mh e k d = Some v \<or> (k, v) \<in> set (delta_entries delta) \<and> Dot v = d"
    using joinBlock_subset [OF assms(2)] by (auto simp: em map_add_Some_iff dest!: dotmap_SomeD)
  assume "(k, v) \<in> set (delta_entries delta)"
  then have "Dot v \<in> Dot ` set (joinBlock sortFunc (delta_entries delta) k)"
    unfolding joinBlock_dots [OF assms(2)] by blast
  then show "eng_map mh e' k (Dot v) \<noteq> None"
    by (auto simp: em map_add_None dotmap_None)
qed

section \<open>The Lamport clock and fresh dots\<close>

definition lamport_ok :: "DeltaCRDTEngine \<Rightarrow> bool" where
  "lamport_ok e \<longleftrightarrow>
     (\<forall>r\<in>set (shards e). \<forall>(k, es)\<in>set (hamt_binds r). \<forall>en\<in>set es. DotCounter en \<le> lamportCounter e)"

lemma AdvanceLamportTo_lamport [simp]:
  "lamportCounter (AdvanceLamportTo f64 c e) = max (lamportCounter e) c"
  by (auto simp: AdvanceLamportTo_def raiseLimit_def Let_def max_def)

lemma fold_Advance_lamport:
  "lamportCounter (fold (\<lambda>x. AdvanceLamportTo f64 (g x)) xs e) = fold (\<lambda>x. max (g x)) xs (lamportCounter e)"
  by (induction xs arbitrary: e) (auto simp: max.commute)

lemma fold_max_ge1: "a \<le> fold (\<lambda>x. max (g x)) xs (a :: 'a::linorder)"
  by (induction xs arbitrary: a) (auto intro: order_trans [OF max.cobounded2])

lemma fold_max_ge2: "x \<in> set xs \<Longrightarrow> g x \<le> fold (\<lambda>x. max (g x)) xs (a :: 'a::linorder)"
  by (induction xs arbitrary: a) (auto intro: order_trans [OF max.cobounded1 fold_max_ge1])

lemma lamport_okD:
  assumes "eng_ok mh e" "lamport_ok e" "eng_map mh e k d = Some en"
  shows "Counter d \<le> lamportCounter e"
proof -
  let ?r = "shards e ! routeShard mh e k"
  have lt: "routeShard mh e k < length (shards e)" by (rule routeShard_less [OF assms(1)])
  have en: "en \<in> set (HAMT_Get mh ?r k)" "Dot en = d"
    using assms(3) dotmap_SomeD unfolding eng_map_def PointGet_shard [OF assms(1)] by auto
  then have "(k, HAMT_Get mh ?r k) \<in> set (hamt_binds ?r)"
    using hm.binds_iff [OF eng_okD(1) [OF assms(1) lt]] by auto
  then have "DotCounter en \<le> lamportCounter e"
    using assms(2) nth_mem [OF lt] en unfolding lamport_ok_def by fastforce
  then show ?thesis using en by (auto simp: Dot_def)
qed

lemma lamport_okI:
  assumes "eng_ok mh e" "\<And>k d en. eng_map mh e k d = Some en \<Longrightarrow> Counter d \<le> lamportCounter e"
  shows "lamport_ok e"
  unfolding lamport_ok_def
proof (clarify)
  fix r k es en assume r: "r \<in> set (shards e)" "(k, es) \<in> set (hamt_binds r)" "en \<in> set es"
  then obtain i where i: "i < length (shards e)" "r = shards e ! i" by (auto simp: in_set_conv_nth)
  have es: "HAMT_Get mh r k = es" "es \<noteq> []"
    using hm.binds_iff [OF eng_okD(1) [OF assms(1) i(1)]] r i by auto
  then have "PointGet mh k e = es"
    using eng_okD(2) [OF assms(1) i(1), of k] i by (simp add: PointGet_shard [OF assms(1)])
  then have "eng_map mh e k (Dot en) = Some en"
    using r(3) PointGet_leaf_ok [OF assms(1), of k] unfolding eng_map_def by (simp add: dotmap_set)
  from assms(2) [OF this] show "DotCounter en \<le> lamportCounter e" by (simp add: Dot_def)
qed

lemma Join_lamport_ok:
  assumes "eng_ok mh e" "sort_ok sortFunc" "Join mh sortFunc f64 delta e = Some e'" "lamport_ok e"
  shows "lamport_ok e'"
proof (rule lamport_okI [OF Join_ok [OF assms(1-3)]])
  fix k d en assume "eng_map mh e' k d = Some en"
  then consider "eng_map mh e k d = Some en" | "(k, en) \<in> set (delta_entries delta)" "Dot en = d"
    using Join_cases(2) [OF assms(1-3)] by blast
  moreover have l: "lamportCounter e' =
      fold (\<lambda>x. max (DotCounter (snd x))) (delta_entries delta) (lamportCounter e)"
    using Join_frame [OF assms(3)] by (simp add: fold_Advance_lamport)
  ultimately show "Counter d \<le> lamportCounter e'"
  proof cases
    case 1
    show ?thesis
      unfolding l by (rule order_trans [OF lamport_okD [OF assms(1,4) 1] fold_max_ge1])
  next
    case 2
    then show ?thesis
      using fold_max_ge2 [OF 2(1), of "\<lambda>x. DotCounter (snd x)"] unfolding l by (auto simp: Dot_def)
  qed
qed

lemma NextDot_spec:
  "NextDot e = (dot, e1) \<Longrightarrow>
   dot = CausalDot (localNodeID e) (lamportCounter e + 1) \<and> lamportCounter e1 = lamportCounter e + 1 \<and>
   shards e1 = shards e \<and> routeSeed e1 = routeSeed e \<and> localNodeID e1 = localNodeID e \<and>
   closing e1 = closing e"
  by (auto simp: NextDot_def raiseLimit_def Let_def split: if_splits)

section \<open>Local insertion\<close>

definition stamped :: "DeltaCRDTEngine \<Rightarrow> CRDTEntry \<Rightarrow> CRDTEntry" where
  "stamped e entry = entry\<lparr>DotNodeID := localNodeID e, DotCounter := lamportCounter e + 1,
                            OriginNodeID := localNodeID e\<rparr>"

lemma Dot_stamped: "Dot (stamped e entry) = CausalDot (localNodeID e) (lamportCounter e + 1)"
  by (simp add: stamped_def Dot_def)

lemma fresh_dot:
  assumes "eng_ok mh e" "lamport_ok e" "lamportCounter e \<noteq> MaxUint64"
  shows "eng_map mh e k (CausalDot n (lamportCounter e + 1)) = None"
proof (rule ccontr)
  assume "\<not> ?thesis"
  then obtain en where "eng_map mh e k (CausalDot n (lamportCounter e + 1)) = Some en" by blast
  from lamport_okD [OF assms(1,2) this] have "lamportCounter e + 1 \<le> lamportCounter e" by simp
  moreover have "lamportCounter e < lamportCounter e + 1"
    using assms(3) by (rule less_plus_1)
  ultimately show False by simp
qed

lemma eng_cong:
  assumes "shards e' = shards e" "routeSeed e' = routeSeed e"
  shows "eng_ok mh e' = eng_ok mh e" "PointGet mh k e' = PointGet mh k e"
proof -
  have "routeShard mh e' = routeShard mh e" using assms by (intro routeShard_cong) auto
  then show "eng_ok mh e' = eng_ok mh e" "PointGet mh k e' = PointGet mh k e"
    using assms by (simp_all add: eng_ok_def PointGet_def)
qed

text \<open>Publishing a new root for the shard of one entity.\<close>

definition set_entity :: "hasher \<Rightarrow> gostring \<Rightarrow> CRDTEntry list \<Rightarrow> DeltaCRDTEngine \<Rightarrow> DeltaCRDTEngine" where
  "set_entity mh k es e = (let i = routeShard mh e k in
     e\<lparr>shards := (shards e)[i := HAMT_Set mh (shards e ! i) k es]\<rparr>)"

lemma set_entity_spec:
  assumes ok: "eng_ok mh e" and es: "es \<noteq> []" "leaf_ok es"
  shows "eng_ok mh (set_entity mh k es e)"
    and "PointGet mh k' (set_entity mh k es e) = (if k' = k then es else PointGet mh k' e)"
proof -
  let ?e' = "set_entity mh k es e" and ?i = "routeShard mh e k"
  have i: "?i < length (shards e)" by (rule routeShard_less [OF ok])
  have len: "length (shards ?e') = length (shards e)" by (simp add: set_entity_def Let_def)
  have r': "routeShard mh ?e' = routeShard mh e" by (intro routeShard_cong) (auto simp: set_entity_def Let_def)
  have get: "HAMT_Get mh (shards ?e' ! j) k' =
      (if j = ?i \<and> k' = k then es else HAMT_Get mh (shards e ! j) k')" if "j < length (shards e)" for j k'
    using that i eng_okD(1) [OF ok i] es(1) by (auto simp: set_entity_def Let_def nth_list_update hm.get_set)
  show ok': "eng_ok mh ?e'"
  proof (rule eng_okI)
    show "0 < length (shards ?e')" "length (shards ?e') < 2 ^ 63" using ok len by (auto simp: eng_ok_def)
  next
    fix j assume "j < length (shards ?e')"
    then show "hamt_ok mh (shards ?e' ! j)"
      using eng_okD(1) [OF ok] es(1) i
      by (cases "j = ?i") (auto simp: set_entity_def Let_def nth_list_update hm.inv_set)
  next
    fix j k' assume j: "j < length (shards ?e')" "HAMT_Get mh (shards ?e' ! j) k' \<noteq> []"
    then have j': "j < length (shards e)" by (simp add: len)
    show "routeShard mh ?e' k' = j \<and> leaf_ok (HAMT_Get mh (shards ?e' ! j) k')"
      using j(2) get [OF j', of k'] eng_okD(2,3) [OF ok j', of k'] es unfolding r' by (auto split: if_splits)
  qed
  show "PointGet mh k' ?e' = (if k' = k then es else PointGet mh k' e)"
    using get [OF routeShard_less [OF ok], of k' k']
    by (simp add: PointGet_shard [OF ok] PointGet_shard [OF ok'] r')
qed

lemma InsertLocal_spec:
  assumes ok: "eng_ok mh e" and l: "lamport_ok e" "lamportCounter e \<noteq> MaxUint64" and c: "\<not> closing e"
  obtains e' where "InsertLocal mh k entry e = Some (CausalDot (localNodeID e) (lamportCounter e + 1), e')"
    "eng_ok mh e'" "lamport_ok e'" "lamportCounter e' = lamportCounter e + 1"
    "\<And>k'. eng_map mh e' k' = (if k' = k then (eng_map mh e k)(Dot (stamped e entry) \<mapsto> stamped e entry)
                              else eng_map mh e k')"
proof -
  obtain e1 where nd: "NextDot e = (CausalDot (localNodeID e) (lamportCounter e + 1), e1)"
    and e1: "lamportCounter e1 = lamportCounter e + 1" "shards e1 = shards e" "routeSeed e1 = routeSeed e"
      "localNodeID e1 = localNodeID e"
    using NextDot_spec [of e "fst (NextDot e)" "snd (NextDot e)"] by (metis prod.collapse)
  let ?new = "insertionSortLastEntry (PointGet mh k e @ [stamped e entry])"
  define e' where "e' = (set_entity mh k ?new e1)\<lparr>entriesInserted := entriesInserted e1 + 1\<rparr>"
  have ok1: "eng_ok mh e1" and pg1: "\<And>k. PointGet mh k e1 = PointGet mh k e"
    using eng_cong [of e1 e] e1 ok by simp_all
  have ins: "InsertLocal mh k entry e = Some (CausalDot (localNodeID e) (lamportCounter e + 1), e')"
    using c nd e1 PointGet_shard [OF ok1, of k] pg1
    by (simp add: InsertLocal_def Let_def e'_def stamped_def set_entity_def)
  have "Dot (stamped e entry) \<notin> Dot ` set (PointGet mh k e)"
    using fresh_dot [OF ok l, of k] unfolding Dot_stamped eng_map_def dotmap_None by blast
  note new = insertionSortLast_fresh [OF PointGet_leaf_ok [OF ok] this]
  note se = set_entity_spec [OF ok1 new(3,1), where k = k]
  have ok': "eng_ok mh e'" and pg: "\<And>k'. PointGet mh k' e' = (if k' = k then ?new else PointGet mh k' e)"
    using se pg1 eng_cong [of e' "set_entity mh k ?new e1"] by (simp_all add: e'_def)
  have map': "eng_map mh e' k' = (if k' = k then (eng_map mh e k)(Dot (stamped e entry) \<mapsto> stamped e entry)
      else eng_map mh e k')" for k'
    using new(2) by (simp add: eng_map_def pg)
  have lam: "lamportCounter e' = lamportCounter e + 1" using e1 by (simp add: e'_def set_entity_def Let_def)
  have "lamport_ok e'"
  proof (rule lamport_okI [OF ok'])
    fix k' d en assume "eng_map mh e' k' d = Some en"
    then consider "eng_map mh e k' d = Some en" | "d = Dot (stamped e entry)"
      by (auto simp: map' split: if_splits)
    then show "Counter d \<le> lamportCounter e'"
    proof cases
      case 1
      then show ?thesis
        unfolding lam by (rule order_trans [OF lamport_okD [OF ok l(1)] less_imp_le [OF less_plus_1 [OF l(2)]]])
    next
      case 2
      then show ?thesis by (simp add: lam Dot_stamped)
    qed
  qed
  then show thesis using that [of e'] ins ok' lam map' by blast
qed

end
