(* ===== verification/Engine_Views.thy ===== *)
theory Engine_Views
  imports Engine_Join
begin

text \<open>
  Whole-engine views: the stitched map that \<^verbatim>\<open>State\<close> builds, re-sharding by \<^verbatim>\<open>SetShardCount\<close>, the
  Merkle root computed straight from the shards, and the checkpoint capture. All of them are related
  to the list of all bindings of all shards.
\<close>

section \<open>All bindings\<close>

definition all_binds :: "DeltaCRDTEngine \<Rightarrow> (gostring \<times> CRDTEntry list) list" where
  "all_binds e = concat (map hamt_binds (shards e))"

lemma fold_concat_fold: "fold (\<lambda>xs. fold f xs) xss s = fold f (concat xss) s"
  by (induction xss arbitrary: s) auto

lemma fold_ForEach:
  "fold (\<lambda>r s. ForEach (\<lambda>k es s. (True, g k es s)) r s) rs s =
   fold (\<lambda>(k, es). g k es) (concat (map hamt_binds rs)) s"
  by (induction rs arbitrary: s) (auto simp: forEach_total)

lemma all_binds_iff:
  assumes ok: "eng_ok mh e"
  shows "(k, es) \<in> set (all_binds e) \<longleftrightarrow> es \<noteq> [] \<and> PointGet mh k e = es"
proof
  assume "(k, es) \<in> set (all_binds e)"
  then obtain i where i: "i < length (shards e)" "(k, es) \<in> set (hamt_binds (shards e ! i))"
    by (auto simp: all_binds_def in_set_conv_nth [of _ "shards e"])
  then have "es \<noteq> []" "HAMT_Get mh (shards e ! i) k = es"
    using hm.binds_iff [OF eng_okD(1) [OF ok i(1)]] by auto
  then show "es \<noteq> [] \<and> PointGet mh k e = es"
    using eng_okD(2) [OF ok i(1), of k] by (simp add: PointGet_shard [OF ok])
next
  assume *: "es \<noteq> [] \<and> PointGet mh k e = es"
  let ?i = "routeShard mh e k"
  have i: "?i < length (shards e)" by (rule routeShard_less [OF ok])
  have "(k, es) \<in> set (hamt_binds (shards e ! ?i))"
    using * hm.binds_iff [OF eng_okD(1) [OF ok i]] by (simp add: PointGet_shard [OF ok])
  then show "(k, es) \<in> set (all_binds e)" using i by (auto simp: all_binds_def)
qed

lemma distinct_concat_routed:
  assumes "\<And>i. i < length xss \<Longrightarrow> distinct (map fst (xss ! i))"
    and "\<And>i k v. i < length xss \<Longrightarrow> (k, v) \<in> set (xss ! i) \<Longrightarrow> route k = n + i"
  shows "distinct (map fst (concat xss))"
  using assms
proof (induction xss arbitrary: n)
  case (Cons xs xss)
  have IH: "distinct (map fst (concat xss))"
  proof (rule Cons.IH [of "Suc n"])
    show "\<And>i. i < length xss \<Longrightarrow> distinct (map fst (xss ! i))"
      using Cons.prems(1) [of "Suc _"] by simp
    show "\<And>i k v. i < length xss \<Longrightarrow> (k, v) \<in> set (xss ! i) \<Longrightarrow> route k = Suc n + i"
      using Cons.prems(2) [of "Suc _"] by simp
  qed
  have "fst x \<noteq> fst y" if xy: "x \<in> set xs" "y \<in> set (concat xss)" for x y
  proof -
    from xy(2) obtain i where "i < length xss" "y \<in> set (xss ! i)"
      by (auto simp: in_set_conv_nth [of _ xss])
    then have "route (fst y) = n + Suc i" using Cons.prems(2) [of "Suc i" "fst y" "snd y"] by simp
    moreover have "route (fst x) = n" using Cons.prems(2) [of 0 "fst x" "snd x"] xy(1) by simp
    ultimately show ?thesis by auto
  qed
  then have "fst ` set xs \<inter> fst ` set (concat xss) = {}" by blast
  then show ?case using IH Cons.prems(1) [of 0] by auto
qed simp

lemma all_binds_distinct:
  assumes ok: "eng_ok mh e"
  shows "distinct (map fst (all_binds e))"
  unfolding all_binds_def
proof (rule distinct_concat_routed [where route = "routeShard mh e" and n = 0])
  fix i assume i: "i < length (map hamt_binds (shards e))"
  then show "distinct (map fst (map hamt_binds (shards e) ! i))"
    using hm.binds_distinct [OF eng_okD(1) [OF ok]] by simp
  fix k v assume "(k, v) \<in> set (map hamt_binds (shards e) ! i)"
  then show "routeShard mh e k = 0 + i"
    using i hm.binds_iff [OF eng_okD(1) [OF ok]] eng_okD(2) [OF ok, of i k] by simp
qed

lemma all_binds_nonempty: "eng_ok mh e \<Longrightarrow> \<forall>(k, es)\<in>set (all_binds e). es \<noteq> []"
  by (auto simp: all_binds_iff)

lemma PointGet_map_of:
  "eng_ok mh e \<Longrightarrow> PointGet mh k e = (case map_of (all_binds e) k of None \<Rightarrow> [] | Some es \<Rightarrow> es)"
  using all_binds_iff [of mh e k] all_binds_distinct [of mh e]
  by (cases "PointGet mh k e = []") (auto split: option.splits dest: map_of_SomeD)

lemma same_all_binds:
  assumes "eng_ok mh a" "eng_ok mh' b" "\<And>k. PointGet mh k a = PointGet mh' k b"
  shows "mset (all_binds a) = mset (all_binds b)"
  using all_binds_distinct [OF assms(1)] all_binds_distinct [OF assms(2)]
  by (intro iffD1 [OF set_eq_iff_mset_eq_distinct])
     (auto simp: all_binds_iff [OF assms(1)] all_binds_iff [OF assms(2)] assms(3) distinct_map)

section \<open>The stitched view\<close>

lemma State_fold:
  "State mh sd e = fold (\<lambda>(k, es) m. HAMT_Set mh m k es) (all_binds e) (newHAMTWithSeed sd)"
  unfolding State_def all_binds_def fold_ForEach by (simp add: NewHAMT_def newHAMTWithSeed_def)

lemma State_ok: "eng_ok mh e \<Longrightarrow> hamt_ok mh (State mh sd e)"
  unfolding State_fold by (intro hm.inv_fold_set hm.inv_empty all_binds_nonempty)

lemma State_Get: "eng_ok mh e \<Longrightarrow> HAMT_Get mh (State mh sd e) k = PointGet mh k e"
  unfolding State_fold
  by (subst hm.get_fold_set)
     (auto simp: hm.get_empty all_binds_nonempty all_binds_distinct PointGet_map_of
       split: option.splits dest: all_binds_nonempty)

section \<open>Merkle root from the shards\<close>

lemma hashShardDotPairs_eq: "hashShardDotPairs sha256 ps = hashDotPairs sha256 (sort ps)"
  by (simp add: hashShardDotPairs_def hashDotPairs_def dotBytes_def [abs_def] Let_def)

lemma MerkleRootFromShards_binds:
  "MerkleRootFromShards sha256 e =
   hashDotPairs sha256 (sort (concat (map (\<lambda>(k, es). map Dot es) (all_binds e))))"
proof -
  have "fold (ForEach collectDots) (shards e) [] = concat (map (\<lambda>(k, es). map Dot es) (all_binds e))"
    unfolding collectDots_def fold_ForEach fold_append_concat all_binds_def by simp
  then show ?thesis by (simp add: MerkleRootFromShards_def hashShardDotPairs_eq)
qed

lemma Merkle_same_binds:
  "mset (all_binds a) = mset (all_binds b) \<Longrightarrow> MerkleRootFromShards sha256 a = MerkleRootFromShards sha256 b"
  unfolding MerkleRootFromShards_binds by (metis mset_concat_map_cong sort_mset_cong)

section \<open>Re-sharding\<close>

lemma reemit_fresh:
  assumes "eng_ok mh e" "PointGet mh k e = []" "es \<noteq> []"
  shows "snd (reemit mh k es e) = set_entity mh k es e"
  using assms PointGet_shard [OF assms(1), of k]
  by (simp add: reemit_def set_entity_def mergeExistingDot_def Let_def)

lemma set_entity_frame [simp]:
  "length (shards (set_entity mh k es e)) = length (shards e)"
  "localNodeID (set_entity mh k es e) = localNodeID e"
  "lamportCounter (set_entity mh k es e) = lamportCounter e"
  by (simp_all add: set_entity_def Let_def)

lemma reemit_fold:
  assumes "eng_ok mh e" "distinct (map fst kvs)" "\<forall>(k, es)\<in>set kvs. es \<noteq> [] \<and> leaf_ok es"
    and "\<forall>(k, es)\<in>set kvs. PointGet mh k e = []"
  shows "eng_ok mh (fold (\<lambda>(k, es) e. snd (reemit mh k es e)) kvs e) \<and>
    length (shards (fold (\<lambda>(k, es) e. snd (reemit mh k es e)) kvs e)) = length (shards e) \<and>
    PointGet mh k (fold (\<lambda>(k, es) e. snd (reemit mh k es e)) kvs e) =
      (case map_of kvs k of None \<Rightarrow> PointGet mh k e | Some es \<Rightarrow> es)"
  using assms
proof (induction kvs arbitrary: e)
  case (Cons kv kvs)
  obtain k0 es0 where kv: "kv = (k0, es0)" by (cases kv)
  have p: "PointGet mh k0 e = []" "es0 \<noteq> []" "leaf_ok es0" using Cons.prems kv by auto
  have re: "snd (reemit mh k0 es0 e) = set_entity mh k0 es0 e"
    by (rule reemit_fresh [OF Cons.prems(1) p(1,2)])
  note se = set_entity_spec [OF Cons.prems(1) p(2,3), where k = k0]
  have "map_of kvs k0 = None" using Cons.prems(2) kv by (auto simp: map_of_eq_None_iff)
  moreover have "\<forall>(k, es)\<in>set kvs. PointGet mh k (set_entity mh k0 es0 e) = []"
    using Cons.prems(2,4) kv se(2) by (fastforce simp: image_iff)
  ultimately show ?case
    using Cons.IH [OF se(1)] Cons.prems(2,3) se(2) by (auto simp: kv re split: option.splits)
qed simp

lemma init_shards:
  assumes "0 < n" "n < 2 ^ 63"
  shows "eng_ok mh (e\<lparr>shards := initShardsLocked mk n\<rparr>)"
    and "PointGet mh k (e\<lparr>shards := initShardsLocked mk n\<rparr>) = []"
proof -
  let ?e = "e\<lparr>shards := initShardsLocked mk n\<rparr>"
  have sh: "i < n \<Longrightarrow> shards ?e ! i = NewHAMT (mk i)" "length (shards ?e) = n" for i
    by (simp_all add: initShardsLocked_def)
  have emp: "HAMT_Get mh (NewHAMT sd) k = []" for sd k by (simp add: HAMT_Get_map)
  show ok: "eng_ok mh ?e" by (rule eng_okI) (use assms sh emp in auto)
  show "PointGet mh k ?e = []"
    using routeShard_less [OF ok, of k] sh emp by (simp add: PointGet_shard [OF ok])
qed

lemma SetShardCount_spec:
  assumes ok: "eng_ok mh e" and n: "n < 2 ^ 63" and s: "SetShardCount mh mk n e = Some e'"
  shows "eng_ok mh e' \<and> int (length (shards e')) = n \<and> PointGet mh k e' = PointGet mh k e"
proof (cases "int (length (shards e)) = n")
  case True
  then show ?thesis using s ok by (auto simp: SetShardCount_def split: if_splits)
next
  case False
  let ?e0 = "e\<lparr>shards := initShardsLocked mk (nat n)\<rparr>"
  have n': "0 < nat n" "nat n < 2 ^ 63" using s n by (auto simp: SetShardCount_def split: if_splits)
  have re: "reemit mh = (\<lambda>k es e. (True, snd (reemit mh k es e)))"
    by (simp add: reemit_def Let_def fun_eq_iff)
  have e': "e' = fold (\<lambda>(k, es) e. snd (reemit mh k es e)) (all_binds e) ?e0"
    using s False unfolding SetShardCount_def all_binds_def fold_ForEach [symmetric]
    by (subst (asm) re) (auto split: if_splits)
  have "\<forall>(k, es)\<in>set (all_binds e). es \<noteq> [] \<and> leaf_ok es"
    using PointGet_leaf_ok [OF ok] by (auto simp: all_binds_iff [OF ok])
  note rf = reemit_fold [OF init_shards(1) [OF n', where mh = mh and e = e and mk = mk] all_binds_distinct [OF ok] this]
  have "length (shards ?e0) = nat n" by (simp add: initShardsLocked_def)
  then show ?thesis
    using rf [of k] n' init_shards(2) [OF n', where mh = mh and e = e and mk = mk] unfolding e' PointGet_map_of [OF ok]
    by (auto split: option.splits)
qed

section \<open>Checkpoint capture\<close>

lemma visit_continue:
  assumes "\<And>x s. fst (f x s)"
  shows "visit f xs s = (True, fold (\<lambda>x s. snd (f x s)) xs s)"
  using assms by (induction xs arbitrary: s) (auto split: prod.splits, metis fst_conv)

lemma forEach_continue:
  assumes "\<And>k es s. fst (fn k es s)"
  shows "forEach fn (root h) s = (True, fold (\<lambda>(k, es) s. snd (fn k es s)) (hamt_binds h) s)"
  using visit_continue [of "\<lambda>(k, es). fn k es"] assms
  by (simp add: forEach_def hamt_binds_def forEach_node_binds case_prod_unfold split: option.splits)

definition maxLocal :: "bytes \<Rightarrow> CRDTEntry list \<Rightarrow> u64 \<Rightarrow> u64" where
  "maxLocal self es m =
     fold (\<lambda>en m. if DotNodeID en = self \<and> DotCounter en > m then DotCounter en else m) es m"

lemma maxLocal_fold:
  "maxLocal self es m = fold (\<lambda>en. max (DotCounter en)) (filter (\<lambda>en. DotNodeID en = self) es) m"
  unfolding maxLocal_def by (induction es arbitrary: m) (auto simp: max_def)

lemma capture_fold:
  "fold (\<lambda>(k, es) st. snd (captureEntity self fn k es st)) kvs (ps, m, s) =
   (ps @ concat (map (\<lambda>(k, es). map Dot es) kvs), maxLocal self (concat (map snd kvs)) m,
    fold (\<lambda>(k, es) s. snd (fn k es s)) kvs s)"
  by (induction kvs arbitrary: ps m s)
     (auto simp: captureEntity_def maxLocal_def Let_def split: prod.splits)

lemma CaptureShardsPinned_continue:
  assumes "\<And>k es s. fst (fn k es s)"
  shows "CaptureShardsPinned sha256 fn e s =
    (MerkleRootFromShards sha256 e, maxLocal (localNodeID e) (concat (map snd (all_binds e))) 0,
     fold (\<lambda>(k, es) s. snd (fn k es s)) (all_binds e) s)"
proof -
  have c: "fst (captureEntity (localNodeID e) fn k es st)" for k es st
    using assms [of k es "snd (snd st)"]
    by (cases st) (auto simp: captureEntity_def Let_def split: prod.splits)
  have "visit (\<lambda>r. forEach (captureEntity (localNodeID e) fn) (root r)) (shards e) ([], 0, s) =
      (True, fold (\<lambda>(k, es) st. snd (captureEntity (localNodeID e) fn k es st)) (all_binds e) ([], 0, s))"
    using visit_continue [of "\<lambda>r. forEach (captureEntity (localNodeID e) fn) (root r)" "shards e" "([], 0, s)"]
    unfolding forEach_continue [OF c] all_binds_def fold_concat_fold [symmetric]
    by (simp add: fold_map comp_def)
  then show ?thesis
    by (simp add: CaptureShardsPinned_def capture_fold MerkleRootFromShards_binds hashShardDotPairs_eq)
qed

lemma maxLocal_bounds:
  "en \<in> set es \<Longrightarrow> DotNodeID en = self \<Longrightarrow> DotCounter en \<le> maxLocal self es m"
  "maxLocal self es m = m \<or> (\<exists>en\<in>set es. DotNodeID en = self \<and> maxLocal self es m = DotCounter en)"
proof -
  show "en \<in> set es \<Longrightarrow> DotNodeID en = self \<Longrightarrow> DotCounter en \<le> maxLocal self es m"
    unfolding maxLocal_fold by (rule fold_max_ge2) simp
  show "maxLocal self es m = m \<or> (\<exists>en\<in>set es. DotNodeID en = self \<and> maxLocal self es m = DotCounter en)"
    unfolding maxLocal_def
  proof (induction es arbitrary: m)
    case (Cons a es)
    show ?case
      using Cons.IH [of "if DotNodeID a = self \<and> DotCounter a > m then DotCounter a else m"]
      by (auto split: if_splits)
  qed simp
qed

end
