(* ===== verification/Convergence.thy ===== *)
theory Convergence
  imports Engine_Views
begin

text \<open>
  Convergence of replicas. The interface of a replica that absorbs deltas is a locale: what is known
  is kept, what is new comes from the delta, and everything in the delta is known afterwards. From
  these laws the content after any sequence of deltas is determined by the union of their entries.
  The engine with \<^verbatim>\<open>Join\<close> is an instance, for every hash function, seed, shard count, rounding and
  order of equal elements, so that replicas which differ in all of these still agree.
\<close>

section \<open>Replicas that absorb deltas\<close>

primrec apply_all :: "('x \<Rightarrow> 'e \<Rightarrow> 'e option) \<Rightarrow> 'x list \<Rightarrow> 'e \<Rightarrow> 'e option" where
  "apply_all f [] e = Some e"
| "apply_all f (x # xs) e = (case f x e of None \<Rightarrow> None | Some e' \<Rightarrow> apply_all f xs e')"

definition consistent :: "('k \<times> 'd \<times> 'v) set \<Rightarrow> bool" where
  "consistent S \<longleftrightarrow> (\<forall>k d v v'. (k, d, v) \<in> S \<longrightarrow> (k, d, v') \<in> S \<longrightarrow> v = v')"

locale delta_replica =
  fixes content :: "'e \<Rightarrow> 'k \<Rightarrow> 'd \<Rightarrow> 'v option"
    and inv_r :: "'e \<Rightarrow> bool"
    and apply_r :: "'x \<Rightarrow> 'e \<Rightarrow> 'e option"
    and ents :: "'x \<Rightarrow> ('k \<times> 'd \<times> 'v) set"
  assumes apply_inv: "inv_r e \<Longrightarrow> apply_r x e = Some e' \<Longrightarrow> inv_r e'"
    and apply_keeps: "inv_r e \<Longrightarrow> apply_r x e = Some e' \<Longrightarrow> content e k d = Some v \<Longrightarrow> content e' k d = Some v"
    and apply_new: "inv_r e \<Longrightarrow> apply_r x e = Some e' \<Longrightarrow> content e' k d = Some v \<Longrightarrow>
          content e k d = Some v \<or> (k, d, v) \<in> ents x"
    and apply_covers: "inv_r e \<Longrightarrow> apply_r x e = Some e' \<Longrightarrow> (k, d, v) \<in> ents x \<Longrightarrow> content e' k d \<noteq> None"
begin

lemma apply_all_inv: "inv_r e \<Longrightarrow> apply_all apply_r xs e = Some e' \<Longrightarrow> inv_r e'"
  by (induction xs arbitrary: e) (auto split: option.splits intro: apply_inv)

lemma apply_all_keeps:
  "inv_r e \<Longrightarrow> apply_all apply_r xs e = Some e' \<Longrightarrow> content e k d = Some v \<Longrightarrow> content e' k d = Some v"
  by (induction xs arbitrary: e) (auto split: option.splits intro: apply_inv apply_keeps)

lemma apply_all_new:
  "inv_r e \<Longrightarrow> apply_all apply_r xs e = Some e' \<Longrightarrow> content e' k d = Some v \<Longrightarrow>
   content e k d = Some v \<or> (k, d, v) \<in> (\<Union>x\<in>set xs. ents x)"
proof (induction xs arbitrary: e)
  case (Cons x xs)
  then obtain e1 where e1: "apply_r x e = Some e1" "apply_all apply_r xs e1 = Some e'"
    by (auto split: option.splits)
  then show ?case
    using Cons.IH [OF apply_inv [OF Cons.prems(1) e1(1)] e1(2) Cons.prems(3)]
      apply_new [OF Cons.prems(1) e1(1)] by auto
qed auto

lemma apply_all_covers:
  "inv_r e \<Longrightarrow> apply_all apply_r xs e = Some e' \<Longrightarrow> (k, d, v) \<in> (\<Union>x\<in>set xs. ents x) \<Longrightarrow>
   content e' k d \<noteq> None"
proof (induction xs arbitrary: e)
  case (Cons x xs)
  then obtain e1 where e1: "apply_r x e = Some e1" "apply_all apply_r xs e1 = Some e'"
    by (auto split: option.splits)
  note inv1 = apply_inv [OF Cons.prems(1) e1(1)]
  show ?case
  proof (cases "(k, d, v) \<in> ents x")
    case True
    then obtain w where "content e1 k d = Some w" using apply_covers [OF Cons.prems(1) e1(1)] by blast
    then show ?thesis using apply_all_keeps [OF inv1 e1(2)] by auto
  next
    case False
    then show ?thesis using Cons.IH [OF inv1 e1(2)] Cons.prems(3) by auto
  qed
qed auto

lemma apply_all_content:
  assumes "inv_r e" "apply_all apply_r xs e = Some e'" "\<And>k d. content e k d = None"
    and "consistent (\<Union>x\<in>set xs. ents x)"
  shows "content e' k d = Some v \<longleftrightarrow> (k, d, v) \<in> (\<Union>x\<in>set xs. ents x)"
proof
  assume "content e' k d = Some v"
  then show "(k, d, v) \<in> (\<Union>x\<in>set xs. ents x)"
    using apply_all_new [OF assms(1,2)] assms(3) by auto
next
  assume v: "(k, d, v) \<in> (\<Union>x\<in>set xs. ents x)"
  then obtain w where w: "content e' k d = Some w" using apply_all_covers [OF assms(1,2)] by blast
  then have "(k, d, w) \<in> (\<Union>x\<in>set xs. ents x)"
    using apply_all_new [OF assms(1,2)] assms(3) by force
  then show "content e' k d = Some v"
    using w v assms(4) unfolding consistent_def by metis
qed

end

definition delta_ents :: "CRDTDelta \<Rightarrow> (gostring \<times> CausalDot \<times> CRDTEntry) set" where
  "delta_ents delta = (\<lambda>(k, en). (k, Dot en, en)) ` set (delta_entries delta)"

interpretation jr: delta_replica "eng_map mh" "\<lambda>e. eng_ok mh e \<and> sort_ok sortFunc"
  "Join mh sortFunc f64" delta_ents for mh sortFunc f64
proof (unfold_locales, goal_cases)
  case (1 e x e')
  then show ?case using Join_ok by blast
next
  case (2 e x e' k d v)
  then show ?case using Join_cases(1) by blast
next
  case (3 e x e' k d v)
  then have "eng_map mh e k d = Some v \<or> (k, v) \<in> set (delta_entries x) \<and> Dot v = d"
    using Join_cases(2) by blast
  then show ?case by (force simp: delta_ents_def)
next
  case (4 e x e' k d v)
  then have "(k, v) \<in> set (delta_entries x)" "d = Dot v" by (auto simp: delta_ents_def)
  then show ?case using 4 Join_cases(3) by blast
qed

text \<open>Insertion sort with a comparison, one order that the sort may give to equal elements.\<close>

fun insertCmp :: "('a \<Rightarrow> 'a \<Rightarrow> int) \<Rightarrow> 'a \<Rightarrow> 'a list \<Rightarrow> 'a list" where
  "insertCmp cmp x [] = [x]"
| "insertCmp cmp x (y # ys) = (if cmp x y < 0 then x # y # ys else y # insertCmp cmp x ys)"

definition isortCmp :: "('a \<Rightarrow> 'a \<Rightarrow> int) \<Rightarrow> 'a list \<Rightarrow> 'a list" where
  "isortCmp cmp xs = fold (insertCmp cmp) xs []"

lemma cmpIncoming_less: "cmpIncomingEntries a b < 0 \<longleftrightarrow> keyDot a < keyDot b"
  by (auto simp: cmpIncomingEntries_def keyDot_def less_prod_def)

lemma insertCmp_sorted:
  "sorted (map keyDot ys) \<Longrightarrow> sorted (map keyDot (insertCmp cmpIncomingEntries x ys)) \<and>
   mset (insertCmp cmpIncomingEntries x ys) = add_mset x (mset ys)"
proof (induction ys)
  case (Cons y ys)
  moreover have "set (insertCmp cmpIncomingEntries x ys) = insert x (set ys)"
    using Cons by (metis list.simps(9) set_mset_add_mset_insert set_mset_mset sorted_simps(2))
  ultimately show ?case by (auto simp: cmpIncoming_less)
qed simp

lemma isortCmp_sort_ok: "sort_ok isortCmp"
proof -
  have "sorted (map keyDot (fold (insertCmp cmpIncomingEntries) xs ys)) \<and>
      mset (fold (insertCmp cmpIncomingEntries) xs ys) = mset xs + mset ys"
    if "sorted (map keyDot ys)" for xs ys
    using that by (induction xs arbitrary: ys) (simp_all add: insertCmp_sorted)
  from this [of "[]"] show ?thesis
    by (simp add: sort_ok_def isortCmp_def cmpIncoming_le sorted_wrt_map)
qed

section \<open>Redelivery\<close>

lemma perShardMerge_known:
  assumes "\<forall>(k, b)\<in>set bs. inserted_of (HAMT_Get mh base k) b = 0"
  shows "snd (snd (snd (perShardMerge mh base bs))) = False"
  using assms by (induction bs) (auto simp: Let_def split: prod.splits)

lemma mergeShard_known:
  assumes "\<forall>(k, b)\<in>set (sb i). inserted_of (HAMT_Get mh (fst st ! i) k) b = 0"
  shows "fst (mergeShard mh sb i st) = fst st"
  using perShardMerge_known [OF assms]
  by (cases st) (auto simp: mergeShard_def split: prod.splits)

lemma mergeShard_fold_known:
  assumes "\<And>i. i \<in> set order \<Longrightarrow> \<forall>(k, b)\<in>set (sb i). inserted_of (HAMT_Get mh (fst st ! i) k) b = 0"
  shows "fst (fold (mergeShard mh sb) order st) = fst st"
  using assms
proof (induction order arbitrary: st)
  case (Cons i order)
  have s: "fst (mergeShard mh sb i st) = fst st" using Cons.prems by (intro mergeShard_known) simp
  then show ?case using Cons.IH [of "mergeShard mh sb i st"] Cons.prems by simp
qed simp

lemma inserted_of_known:
  "leaf_ok es \<Longrightarrow> leaf_ok is \<Longrightarrow> Dot ` set is \<subseteq> Dot ` set es \<Longrightarrow> inserted_of es is = 0"
  by (simp add: mergeDots_inserted Diff_eq_empty_iff [THEN iffD2])

lemma Join_known:
  assumes ok: "eng_ok mh e" and s: "sort_ok sortFunc"
    and known: "\<And>k en. (k, en) \<in> set (delta_entries delta) \<Longrightarrow> eng_map mh e k (Dot en) \<noteq> None"
    and j: "Join mh sortFunc f64 delta e = Some e'"
  shows "shards e' = shards e"
proof (cases "delta_entries delta = []")
  case True
  then show ?thesis
    using j by (auto simp: Join_def delta_entries_def Let_def split: option.splits prod.splits if_splits)
next
  case False
  let ?ds = "delta_entries delta"
  let ?e1 = "fold (\<lambda>x. AdvanceLamportTo f64 (DotCounter (snd x))) ?ds e"
  let ?bs = "blockRanges (fst (dedupIncoming (sortFunc cmpIncomingEntries ?ds)))"
  let ?sb = "\<lambda>idx. filter (\<lambda>b. routeShard mh e (fst b) = idx) ?bs"
  let ?order = "sort (remdups (map (\<lambda>b. routeShard mh e (fst b)) ?bs))"
  have r: "routeShard mh ?e1 = routeShard mh e" by (rule routeShard_cong) simp_all
  have sh: "shards e' = fst (fold (mergeShard mh ?sb) ?order (shards e, 0, 0))"
    using j False r
    by (auto simp: Join_def delta_entries_def Let_def split: option.splits prod.splits if_splits)
  have known': "Dot ` set (joinBlock sortFunc ?ds k) \<subseteq> Dot ` set (PointGet mh k e)" for k
    unfolding joinBlock_dots [OF s] using known [of k] by (auto simp: eng_map_def dotmap_None)
  have z: "inserted_of (HAMT_Get mh (shards e ! i) k) b = 0" if "(k, b) \<in> set (?sb i)" for i k b
  proof -
    have "b = joinBlock sortFunc ?ds k" "routeShard mh e k = i"
      using that blockRanges_join(2) [OF s refl, of k b ?ds] by auto
    then show ?thesis
      using inserted_of_known [OF PointGet_leaf_ok [OF ok] joinBlock_leaf_ok [OF s] known', of k]
      by (simp add: PointGet_shard [OF ok])
  qed
  have "\<forall>(k, b)\<in>set (?sb i). inserted_of (HAMT_Get mh (fst (shards e, 0 :: nat, 0 :: nat) ! i) k) b = 0" for i
    unfolding case_prod_unfold fst_conv by (rule ballI, rule z, simp only: prod.collapse)
  from mergeShard_fold_known [where order = ?order, OF this] show ?thesis
    unfolding sh by (simp only: fst_conv)
qed

section \<open>Concrete replicas\<close>

lemma NewEngine_ok:
  "eng_ok mh (NewDeltaCRDTEngine mk rs idle nid c rec)"
  "PointGet mh k (NewDeltaCRDTEngine mk rs idle nid c rec) = []"
  "eng_map mh (NewDeltaCRDTEngine mk rs idle nid c rec) k = Map.empty"
proof -
  let ?e = "NewDeltaCRDTEngine mk rs idle nid c rec"
  have e: "?e = ?e\<lparr>shards := initShardsLocked mk 256\<rparr>"
    by (simp add: NewDeltaCRDTEngine_def Let_def defaultShardCount_def)
  show "eng_ok mh ?e" by (subst e, rule init_shards(1)) simp_all
  show "PointGet mh k ?e = []" by (subst e, rule init_shards(2)) simp_all
  then show "eng_map mh ?e k = Map.empty" by (simp add: eng_map_def)
qed

lemma NewEngine_lamport_ok: "lamport_ok (NewDeltaCRDTEngine mk rs idle nid c rec)"
  by (rule lamport_okI [OF NewEngine_ok(1) [where mh = "\<lambda>_ _. 0"]]) (simp add: NewEngine_ok(3))

lemma NewEngine_sel [simp]:
  "closing (NewDeltaCRDTEngine mk rs idle nid c rec) = False"
  "localNodeID (NewDeltaCRDTEngine mk rs idle nid c rec) = nid"
  "lamportCounter (NewDeltaCRDTEngine mk rs idle nid c None) = c"
  by (simp_all add: NewDeltaCRDTEngine_def Let_def)

definition ex_replica :: "u64 \<Rightarrow> byte \<Rightarrow> DeltaCRDTEngine" where
  "ex_replica rs n = NewDeltaCRDTEngine of_nat rs (\<lambda>_. True) (replicate 16 n) 0 None"

definition ex_delta :: "(gostring \<times> CRDTEntry) list \<Rightarrow> CRDTDelta" where
  "ex_delta ds = \<lparr>Entries = Some ds, DeltaOriginNodeID = replicate 16 1\<rparr>"

lemma ex_delta_entries [simp]: "delta_entries (ex_delta ds) = ds"
  by (simp add: ex_delta_def delta_entries_def)

lemma Join_Some: "\<not> closing e \<Longrightarrow> \<exists>e'. Join mh sortFunc f64 delta e = Some e' \<and> \<not> closing e'"
  using Join_defined [of mh sortFunc f64 delta e] Join_frame [of mh sortFunc f64 delta e] by fastforce

lemma apply_all_Join_Some: "\<not> closing e \<Longrightarrow> \<exists>e'. apply_all (Join mh sortFunc f64) xs e = Some e'"
proof (induction xs arbitrary: e)
  case (Cons x xs)
  from Join_Some [OF Cons.prems] obtain e1 where "Join mh sortFunc f64 x e = Some e1" "\<not> closing e1"
    by blast
  then show ?case using Cons.IH [of e1] by simp
qed simp

lemma ex_replica_facts:
  "eng_ok mh (ex_replica rs n)" "lamport_ok (ex_replica rs n)" "\<not> closing (ex_replica rs n)"
  "PointGet mh k (ex_replica rs n) = []" "lamportCounter (ex_replica rs n) = 0"
  by (simp_all add: ex_replica_def NewEngine_ok NewEngine_lamport_ok)

section \<open>Properties\<close>

text \<open>
  C1. Strong eventual consistency. Two replicas that start empty and absorb, in any order, grouping
  and number of repetitions, deltas with the same set of entries read the same entries for every
  entity and have the same Merkle root. The replicas may use different hash functions, seeds, shard
  counts, float roundings and sort implementations. The entries must not give one dot of one entity
  two contents.
\<close>

theorem Join_convergence:
  assumes a: "eng_ok mh a" "sort_ok sf" "\<And>k. PointGet mh k a = []"
    and b: "eng_ok mh' b" "sort_ok sf'" "\<And>k. PointGet mh' k b = []"
    and xs: "apply_all (Join mh sf f64) xs a = Some a'"
    and ys: "apply_all (Join mh' sf' f64') ys b = Some b'"
    and same: "(\<Union>x\<in>set xs. delta_ents x) = (\<Union>y\<in>set ys. delta_ents y)"
    and cons: "consistent (\<Union>x\<in>set xs. delta_ents x)"
  shows "(\<forall>k. PointGet mh k a' = PointGet mh' k b') \<and>
    MerkleRootFromShards sha256 a' = MerkleRootFromShards sha256 b'"
proof -
  have ok: "eng_ok mh a'" "eng_ok mh' b'"
    using jr.apply_all_inv [OF _ xs] jr.apply_all_inv [OF _ ys] a b by auto
  have "eng_map mh a' k d = Some v \<longleftrightarrow> (k, d, v) \<in> (\<Union>x\<in>set xs. delta_ents x)" for k d v
    using a cons by (intro jr.apply_all_content [OF _ xs]) (auto simp: eng_map_def)
  moreover have "eng_map mh' b' k d = Some v \<longleftrightarrow> (k, d, v) \<in> (\<Union>y\<in>set ys. delta_ents y)" for k d v
    using b cons same by (intro jr.apply_all_content [OF _ ys]) (auto simp: eng_map_def)
  ultimately have "eng_map mh a' k d = eng_map mh' b' k d" for k d
    using same by (metis not_Some_eq)
  then have "PointGet mh k a' = PointGet mh' k b'" for k
    by (intro eng_map_ext ok ext)
  then show ?thesis using Merkle_same_binds [OF same_all_binds [OF ok]] by blast
qed

theorem Join_convergence_witness:
  "\<exists>a' b'. apply_all (Join (\<lambda>_ _. 0) isortCmp (\<lambda>x. x)) [ex_delta [([97], ex_entry 1)], ex_delta [([98], ex_entry 2)]] (ex_replica 5 1) = Some a' \<and>
     apply_all (Join (\<lambda>_ k. of_nat (length k)) isortCmp (\<lambda>x. 0)) [ex_delta [([98], ex_entry 2), ([97], ex_entry 1)]] (ex_replica 6 2) = Some b' \<and>
     MerkleRootFromShards (\<lambda>bs. bs) a' = MerkleRootFromShards (\<lambda>bs. bs) b'"
proof -
  let ?xs = "[ex_delta [([97], ex_entry 1)], ex_delta [([98], ex_entry 2)]]"
  let ?ys = "[ex_delta [([98], ex_entry 2), ([97], ex_entry 1)]]"
  obtain a' where a': "apply_all (Join (\<lambda>_ _. 0) isortCmp (\<lambda>x. x)) ?xs (ex_replica 5 1) = Some a'"
    using apply_all_Join_Some [OF ex_replica_facts(3)] by blast
  obtain b' where b': "apply_all (Join (\<lambda>_ k. of_nat (length k)) isortCmp (\<lambda>x. 0)) ?ys (ex_replica 6 2) = Some b'"
    using apply_all_Join_Some [OF ex_replica_facts(3)] by blast
  have "MerkleRootFromShards (\<lambda>bs. bs) a' = MerkleRootFromShards (\<lambda>bs. bs) b'"
    by (rule conjunct2 [OF Join_convergence [OF _ isortCmp_sort_ok _ _ isortCmp_sort_ok _ a' b']])
       (auto simp: ex_replica_facts delta_ents_def consistent_def)
  then show ?thesis using a' b' by blast
qed

text \<open>
  C3. What one \<^verbatim>\<open>Join\<close> does, as an update of the abstract state: every dot known before keeps its
  entry, the dots known afterwards are those known before and those of the delta, and every new entry
  is one of the delta. The invariant of the engine holds again, and so does the bound of all stored
  counters by the Lamport clock.
\<close>

theorem Join_merges:
  assumes "eng_ok mh e" "lamport_ok e" "sort_ok sortFunc" "\<not> closing e"
  shows "\<exists>e'. Join mh sortFunc f64 delta e = Some e' \<and> eng_ok mh e' \<and> lamport_ok e' \<and>
    (\<forall>k. dom (eng_map mh e' k) = dom (eng_map mh e k) \<union> {Dot en | en. (k, en) \<in> set (delta_entries delta)} \<and>
         (\<forall>d. eng_map mh e' k d = eng_map mh e k d \<or>
              eng_map mh e k d = None \<and> (\<exists>en. eng_map mh e' k d = Some en \<and> (k, en) \<in> set (delta_entries delta) \<and> Dot en = d)))"
proof -
  obtain e' where j: "Join mh sortFunc f64 delta e = Some e'" using Join_Some [OF assms(4)] by blast
  note c = Join_cases [OF assms(1,3) j]
  have "dom (eng_map mh e' k) = dom (eng_map mh e k) \<union> {Dot en | en. (k, en) \<in> set (delta_entries delta)}" for k
    using c(1,2,3) [of k] by blast
  moreover have "eng_map mh e' k d = eng_map mh e k d \<or> eng_map mh e k d = None \<and>
      (\<exists>en. eng_map mh e' k d = Some en \<and> (k, en) \<in> set (delta_entries delta) \<and> Dot en = d)" for k d
    using c(1,2) [of k d] by (metis not_Some_eq)
  ultimately show ?thesis
    using j Join_ok [OF assms(1,3) j] Join_lamport_ok [OF assms(1,3) j assms(2)] by blast
qed

theorem Join_merges_witness:
  "\<exists>e'. Join (\<lambda>_ _. 0) isortCmp (\<lambda>x. x) (ex_delta [([97], ex_entry 1)]) (ex_replica 5 1) = Some e' \<and>
     Dot (ex_entry 1) \<in> dom (eng_map (\<lambda>_ _. 0) e' [97])"
proof -
  obtain e' where j: "Join (\<lambda>_ _. 0) isortCmp (\<lambda>x. x) (ex_delta [([97], ex_entry 1)]) (ex_replica 5 1) = Some e'"
    using Join_Some [OF ex_replica_facts(3)] by blast
  from Join_merges [OF ex_replica_facts(1) [of "\<lambda>_ _. 0" 5 1] ex_replica_facts(2) isortCmp_sort_ok
    ex_replica_facts(3), of "\<lambda>x. x" "ex_delta [([97], ex_entry 1)]", unfolded j option.inject]
  have "dom (eng_map (\<lambda>_ _. 0) e' [97]) = dom (eng_map (\<lambda>_ _. 0) (ex_replica 5 1) [97]) \<union>
      {Dot en | en. ([97], en) \<in> set (delta_entries (ex_delta [([97], ex_entry 1)]))}"
    by (elim exE conjE) simp
  moreover have "([97], ex_entry 1) \<in> set (delta_entries (ex_delta [([97], ex_entry 1)]))" by simp
  ultimately show ?thesis using j by blast
qed

text \<open>
  Redelivery is free: a delta whose dots are all known publishes no new root in any shard, so
  joining the same delta twice is joining it once.
\<close>

theorem Join_idempotent:
  assumes "eng_ok mh e" "sort_ok sortFunc"
    and "Join mh sortFunc f64 delta e = Some e1" "Join mh sortFunc f64 delta e1 = Some e2"
  shows "shards e2 = shards e1"
proof (rule Join_known [OF Join_ok [OF assms(1-3)] assms(2) _ assms(4)])
  fix k en assume "(k, en) \<in> set (delta_entries delta)"
  then show "eng_map mh e1 k (Dot en) \<noteq> None" by (rule Join_cases(3) [OF assms(1-3)])
qed

theorem Join_idempotent_witness:
  "\<exists>e1 e2. Join (\<lambda>_ _. 0) isortCmp (\<lambda>x. x) (ex_delta [([97], ex_entry 1)]) (ex_replica 5 1) = Some e1 \<and>
     Join (\<lambda>_ _. 0) isortCmp (\<lambda>x. x) (ex_delta [([97], ex_entry 1)]) e1 = Some e2 \<and> shards e2 = shards e1"
proof -
  let ?J = "Join (\<lambda>_ _. 0) isortCmp (\<lambda>x. x) (ex_delta [([97], ex_entry 1)])"
  obtain e1 where e1: "?J (ex_replica 5 1) = Some e1" "\<not> closing e1"
    using Join_Some [OF ex_replica_facts(3)] by blast
  obtain e2 where e2: "?J e1 = Some e2" using Join_Some [OF e1(2)] by blast
  from Join_idempotent [OF ex_replica_facts(1) isortCmp_sort_ok e1(1) e2] show ?thesis using e1 e2 by blast
qed

text \<open>
  C21. A local write never reuses a dot: below the last counter value the dot that \<^verbatim>\<open>InsertLocal\<close>
  returns is unknown to the whole engine, whatever entity it was stored under, also if other nodes
  minted it. The write adds exactly the stamped entry under that dot and leaves every other entity and
  dot as it was.
\<close>

theorem InsertLocal_fresh:
  assumes "eng_ok mh e" "lamport_ok e" "lamportCounter e \<noteq> MaxUint64" "\<not> closing e"
  shows "\<exists>dot e'. InsertLocal mh k entry e = Some (dot, e') \<and> (\<forall>k'. eng_map mh e k' dot = None) \<and>
    (\<forall>k'. eng_map mh e' k' = (if k' = k then (eng_map mh e k)(dot \<mapsto>
       entry\<lparr>DotNodeID := localNodeID e, DotCounter := lamportCounter e + 1, OriginNodeID := localNodeID e\<rparr>)
       else eng_map mh e k')) \<and> eng_ok mh e' \<and> lamport_ok e'"
  by (rule InsertLocal_spec [OF assms, of k entry])
     (auto simp: fresh_dot [OF assms(1-3)] Dot_stamped simp flip: stamped_def)

theorem InsertLocal_fresh_witness:
  "\<exists>dot e'. InsertLocal (\<lambda>_ _. 0) [97] (ex_entry 9) (ex_replica 5 1) = Some (dot, e') \<and>
     eng_map (\<lambda>_ _. 0) (ex_replica 5 1) [97] dot = None"
  using InsertLocal_fresh [OF ex_replica_facts(1) [of "\<lambda>_ _. 0" 5 1] ex_replica_facts(2) _ ex_replica_facts(3),
    of "[97]" "ex_entry 9"] by (auto simp: ex_replica_facts(5))

text \<open>
  C25. The three ways to read the engine agree: the stitched map of \<^verbatim>\<open>State\<close> returns for every entity
  what \<^verbatim>\<open>PointGet\<close> returns, and its Merkle root is the one computed from the shards without stitching.
\<close>

theorem State_agrees:
  assumes "eng_ok mh e"
  shows "hamt_ok mh (State mh sd e) \<and> HAMT_Get mh (State mh sd e) k = PointGet mh k e \<and>
    MerkleRoot sha256 (State mh sd e) = MerkleRootFromShards sha256 e"
proof -
  have "mset (hamt_binds (State mh sd e)) = mset (all_binds e)"
    unfolding State_fold
    by (rule hm.binds_rebuild [OF all_binds_nonempty [OF assms] all_binds_distinct [OF assms]])
  from sort_mset_cong [OF mset_concat_map_cong [OF this, of "\<lambda>(k, es). map Dot es"]]
  show ?thesis
    by (simp add: State_ok [OF assms] State_Get [OF assms] MerkleRoot_dots hamt_dots_def MerkleRootFromShards_binds)
qed

theorem State_agrees_witness:
  "MerkleRoot (\<lambda>bs. bs) (State (\<lambda>_ _. 0) 8 (ex_replica 5 1)) = MerkleRootFromShards (\<lambda>bs. bs) (ex_replica 5 1)"
  using State_agrees [OF ex_replica_facts(1)] by blast

text \<open>
  Re-sharding moves every entity and changes none: after \<^verbatim>\<open>SetShardCount\<close> the engine has the
  requested number of shards, the invariant holds, every entity reads the same entries and the Merkle
  root is unchanged.
\<close>

theorem SetShardCount_preserves:
  assumes "eng_ok mh e" "n < 2 ^ 63" "SetShardCount mh mkSeed n e = Some e'"
  shows "eng_ok mh e' \<and> int (length (shards e')) = n \<and> (\<forall>k. PointGet mh k e' = PointGet mh k e) \<and>
    MerkleRootFromShards sha256 e' = MerkleRootFromShards sha256 e"
proof -
  have pg: "\<And>k. eng_ok mh e' \<and> int (length (shards e')) = n \<and> PointGet mh k e' = PointGet mh k e"
    by (rule SetShardCount_spec [OF assms])
  then have "mset (all_binds e') = mset (all_binds e)" by (intro same_all_binds [of mh]) (auto simp: assms(1))
  then show ?thesis using pg Merkle_same_binds by blast
qed

lemma SetShardCount_defined: "SetShardCount mh mk 64 e \<noteq> None" "SetShardCount mh mk 3 e = None"
  by (simp_all add: SetShardCount_def)

theorem SetShardCount_preserves_witness:
  "\<exists>e'. SetShardCount (\<lambda>_ _. 0) of_nat 64 (ex_replica 5 1) = Some e' \<and> length (shards e') = 64"
proof -
  obtain e' where e': "SetShardCount (\<lambda>_ _. 0) of_nat 64 (ex_replica 5 1) = Some e'"
    using SetShardCount_defined(1) by blast
  from SetShardCount_preserves [OF ex_replica_facts(1) _ this] e' show ?thesis by auto
qed

text \<open>
  The checkpoint capture derives both of its outputs from one walk: with a callback that does not
  stop, the root is the engine's Merkle root and the watermark is the largest counter that the local
  node has in the walked state (0 if it has none), so the watermark never lies above the image.
\<close>

theorem CaptureShardsPinned_sound:
  assumes "eng_ok mh e" "\<And>k es s. fst (fn k es s)"
    and "CaptureShardsPinned sha256 fn e s = (rt, mx, s')"
  shows "rt = MerkleRootFromShards sha256 e \<and>
    (\<forall>k en. en \<in> set (PointGet mh k e) \<and> DotNodeID en = localNodeID e \<longrightarrow> DotCounter en \<le> mx) \<and>
    (mx = 0 \<or> (\<exists>k en. en \<in> set (PointGet mh k e) \<and> DotNodeID en = localNodeID e \<and> DotCounter en = mx))"
proof -
  let ?all = "concat (map snd (all_binds e))"
  have mx: "mx = maxLocal (localNodeID e) ?all 0" and rt: "rt = MerkleRootFromShards sha256 e"
    using CaptureShardsPinned_continue [OF assms(2)] assms(3) by auto
  have all: "en \<in> set ?all \<longleftrightarrow> (\<exists>k. en \<in> set (PointGet mh k e))" for en
    using all_binds_iff [OF assms(1)] by (force simp: image_iff)
  show ?thesis
    unfolding rt mx
    using maxLocal_bounds(1) [of _ ?all "localNodeID e" 0] maxLocal_bounds(2) [of "localNodeID e" ?all 0] all
    by metis
qed

theorem CaptureShardsPinned_sound_witness:
  "fst (CaptureShardsPinned (\<lambda>bs. bs) (\<lambda>_ _ s. (True, s)) (ex_replica 5 1) ()) =
   MerkleRootFromShards (\<lambda>bs. bs) (ex_replica 5 1)"
  using CaptureShardsPinned_sound [OF ex_replica_facts(1), of "\<lambda>_ _ s. (True, s)"]
  by (metis fst_conv prod.collapse)

end
