(* ===== verification/Lamport.thy ===== *)
theory Lamport
  imports Convergence
begin

text \<open>
  The Lamport clock across restarts: how the limit that \<^verbatim>\<open>NextDot\<close> hands to the persist worker bounds
  the counters that were issued, and where it does not. The disk holds the last limit that the worker
  was handed, or the limit that the engine was started with.
\<close>

definition disk_limit :: "u64 \<Rightarrow> DeltaCRDTEngine \<Rightarrow> u64" where
  "disk_limit start e = (case persistQueue e of [] \<Rightarrow> start | v # _ \<Rightarrow> v)"

definition nextDots :: "nat \<Rightarrow> DeltaCRDTEngine \<Rightarrow> DeltaCRDTEngine" where
  "nextDots n e = ((\<lambda>e. snd (NextDot e)) ^^ n) e"

definition clock_inv :: "u64 \<Rightarrow> DeltaCRDTEngine \<Rightarrow> bool" where
  "clock_inv start e \<longleftrightarrow>
     (\<forall>v. workerIdle e v) \<and> lamportCounter e \<le> lastSavedCounter e \<and> lastSavedCounter e = disk_limit start e \<and>
     unat (lastSavedCounter e) \<le> unat (lamportCounter e) + 1000"

lemma u64_add_less:
  "unat (x :: u64) + c < 2 ^ 64 \<Longrightarrow> unat (x + of_nat c) = unat x + c"
  by (simp add: unat_word_ariths unat_of_nat)

lemma NextDot_clock_inv:
  assumes "clock_inv start e" "unat (lamportCounter e) + 1001 < 2 ^ 64"
  shows "clock_inv start (snd (NextDot e)) \<and>
    unat (lamportCounter (snd (NextDot e))) = unat (lamportCounter e) + 1"
proof -
  have 1: "unat (lamportCounter e + 1) = unat (lamportCounter e) + 1"
    using u64_add_less [of "lamportCounter e" 1] assms(2) by simp
  have 2: "unat (lamportCounter e + 1 + 1000) = unat (lamportCounter e) + 1001"
    using u64_add_less [of "lamportCounter e + 1" 1000] assms(2) 1 by simp
  show ?thesis
    using assms 1 2
    by (auto simp: clock_inv_def NextDot_def raiseLimit_def disk_limit_def Let_def word_le_nat_alt)
qed

lemma nextDots_clock_inv:
  assumes "clock_inv start e" "unat (lamportCounter e) + n + 1000 < 2 ^ 64"
  shows "clock_inv start (nextDots n e) \<and> unat (lamportCounter (nextDots n e)) = unat (lamportCounter e) + n"
  using assms(2)
proof (induction n)
  case 0
  then show ?case using assms(1) by (simp add: nextDots_def)
next
  case (Suc n)
  have s: "nextDots (Suc n) e = snd (NextDot (nextDots n e))" by (simp add: nextDots_def)
  show ?case unfolding s using Suc NextDot_clock_inv [of start "nextDots n e"] by simp
qed

lemma NewEngine_clock_inv:
  "(\<forall>v. idle v) \<Longrightarrow> clock_inv c (NewDeltaCRDTEngine mk rs idle nid c None)"
  by (simp add: clock_inv_def NewDeltaCRDTEngine_def disk_limit_def Let_def)

section \<open>Properties\<close>

text \<open>
  C24. While the persist worker keeps up, no dot is issued twice across a crash: after any number of
  \<^verbatim>\<open>NextDot\<close> calls the limit on disk is at least every counter issued, so the engine restarted from that
  limit issues a strictly larger counter next.
\<close>

theorem NextDot_restart_fresh:
  assumes "\<forall>v. idle v" "unat c + n + 2001 < 2 ^ 64"
    and "e = nextDots n (NewDeltaCRDTEngine mk rs idle nid c None)"
    and "e' = NewDeltaCRDTEngine mk' rs' idle' nid c (recoverLamport (Some (persistLamport (disk_limit c e))))"
  shows "lamportCounter e < Counter (fst (NextDot e')) \<and> unat (lamportCounter e) = unat c + n"
proof -
  have inv: "clock_inv c e" and lam: "unat (lamportCounter e) = unat c + n"
    using nextDots_clock_inv [OF NewEngine_clock_inv [OF assms(1), of c mk rs nid], of n] assms(2)
    unfolding assms(3) by simp_all
  have le: "lamportCounter e \<le> disk_limit c e" using inv unfolding clock_inv_def by metis
  have rec: "recoverLamport (Some (persistLamport v)) = Some v" for v
    by (simp add: recoverLamport_def persistLamport_def of_be_be_bytes)
  have up: "unat (disk_limit c e) \<le> unat c + n + 1000"
    using inv lam unfolding clock_inv_def by (metis)
  have bound: "disk_limit c e \<noteq> MaxUint64"
  proof
    assume "disk_limit c e = MaxUint64"
    then have "unat (disk_limit c e) = 2 ^ 64 - 1" by (simp add: unsigned_minus_1_eq_mask mask_eq_exp_minus_1)
    then show False using up assms(2) by simp
  qed
  have "c \<le> disk_limit c e" using le lam by (simp add: word_le_nat_alt)
  then have "lamportCounter e' = disk_limit c e"
    unfolding assms(4) rec by (auto simp: NewDeltaCRDTEngine_def Let_def not_less)
  then have "Counter (fst (NextDot e')) = disk_limit c e + 1"
    using NextDot_spec [of e' "fst (NextDot e')" "snd (NextDot e')"] by simp
  then show ?thesis using le less_plus_1 [OF bound] lam by auto
qed

theorem NextDot_restart_fresh_witness:
  "lamportCounter (nextDots 3 (ex_replica 5 1)) <
     Counter (fst (NextDot (NewDeltaCRDTEngine of_nat 6 (\<lambda>_. True) (replicate 16 1) 0
       (recoverLamport (Some (persistLamport (disk_limit 0 (nextDots 3 (ex_replica 5 1)))))))))"
  using NextDot_restart_fresh [of "\<lambda>_. True" 0 3 _ of_nat 5 "replicate 16 1"]
  unfolding ex_replica_def by simp

text \<open>
  C32. A limit that the busy worker does not take is lost: the dot is already out, the disk still holds
  the old limit, and the engine restarted from it issues the very same dot again for its next write.
\<close>

theorem NextDot_reissued_after_drop:
  assumes "\<not> idle (c + 1001)" "c + 1 > c" "c + 1001 > c"
    and "e = NewDeltaCRDTEngine mk rs idle nid c (Some c)"
    and "e' = NewDeltaCRDTEngine mk' rs' idle' nid c (recoverLamport (Some (persistLamport (disk_limit c (snd (NextDot e))))))"
  shows "fst (NextDot e') = fst (NextDot e)"
proof -
  have "persistQueue (snd (NextDot e)) = []"
    using assms(1-3) unfolding assms(4)
    by (auto simp: NewDeltaCRDTEngine_def NextDot_def raiseLimit_def Let_def add.assoc not_le)
  then have "disk_limit c (snd (NextDot e)) = c" by (simp add: disk_limit_def)
  then have "lamportCounter e' = lamportCounter e" "localNodeID e' = localNodeID e"
    unfolding assms(4,5)
    by (simp_all add: NewDeltaCRDTEngine_def recoverLamport_def persistLamport_def of_be_be_bytes Let_def)
  then show ?thesis
    using NextDot_spec [of e "fst (NextDot e)" "snd (NextDot e)"]
      NextDot_spec [of e' "fst (NextDot e')" "snd (NextDot e')"] by simp
qed

theorem NextDot_reissued_after_drop_witness:
  "fst (NextDot (NewDeltaCRDTEngine of_nat 6 (\<lambda>_. True) [1] 7
     (recoverLamport (Some (persistLamport (disk_limit 7 (snd (NextDot (NewDeltaCRDTEngine of_nat 5 (\<lambda>_. False) [1] 7 (Some 7))))))))))
   = fst (NextDot (NewDeltaCRDTEngine of_nat 5 (\<lambda>_. False) [1] 7 (Some 7)))"
  by (rule NextDot_reissued_after_drop [OF _ _ _ refl refl]) simp_all

end
