(* ===== verification/Apply.thy ===== *)
theory Apply
  imports Convergence
begin

text \<open>
  The way of a received frame into the engine: \<^verbatim>\<open>crdt_reconstruct.go\<close>, \<^verbatim>\<open>crdt_reconstruct_skew.go\<close>,
  \<^verbatim>\<open>crdt_apply.go\<close>, \<^verbatim>\<open>crdt_apply_batch.go\<close> and the encoder \<^verbatim>\<open>crdt_capnp_wire.go\<close>. The capnp library is
  not in the sources: its decoder and encoder are arguments, and a decoded event is what its
  accessors return, an error text or a value. \<^verbatim>\<open>sha256\<close> is an argument as well.
\<close>

section \<open>Data\<close>

type_synonym 'a readResult = "string + 'a"

record CRDTDeltaEvent =
  evVersion :: u16
  evPayloadDigest :: "bytes readResult"
  evOriginNodeID :: "bytes readResult"
  evDotNodeID :: "bytes readResult"
  evDotCounter :: u64
  evH3Index :: u64
  evSystemTime :: i64
  evValidTimeStart :: i64
  evValidTimeEnd :: i64
  evAssertionTime :: i64
  evDecisionTime :: i64
  evEntityId :: "gostring readResult"
  evPayload :: "bytes readResult"

record ReconstructedEntry =
  recEntityID :: gostring
  recPayload :: gostring
  recEntry :: CRDTEntry

datatype WireIntegrityErrorKind =
    WireIntegrityDigestMismatch
  | WireIntegrityFieldUnread
  | WireIntegrityDotOriginMismatch
  | WireIntegrityLamportSkewPoisoning

record WireIntegrityError =
  errEntityID :: gostring
  errOriginNodeID :: bytes
  errOnWireDigest :: bytes
  errRecomputedDigest :: bytes
  errDotNodeID :: bytes
  errField :: string
  errReadErrText :: string
  errInboundDotCounter :: u64
  errReceiverLamport :: u64
  errComputedBound :: u64
  errObservedInboundRate :: real
  errHorizonSeconds :: real
  errAbsoluteSlack :: u64
  errKind :: WireIntegrityErrorKind

text \<open>The zero value of the error, of the given kind.\<close>

definition integrityError :: "WireIntegrityErrorKind \<Rightarrow> WireIntegrityError" where
  "integrityError k =
     \<lparr>errEntityID = [], errOriginNodeID = replicate 16 0, errOnWireDigest = replicate 32 0,
      errRecomputedDigest = replicate 32 0, errDotNodeID = replicate 16 0, errField = [], errReadErrText = [],
      errInboundDotCounter = 0, errReceiverLamport = 0, errComputedBound = 0, errObservedInboundRate = 0,
      errHorizonSeconds = 0, errAbsoluteSlack = 0, errKind = k\<rparr>"

definition readFieldError :: "gostring \<Rightarrow> bytes \<Rightarrow> string \<Rightarrow> string option \<Rightarrow> WireIntegrityError" where
  "readFieldError entityId originNodeID fieldName readErr =
     (integrityError WireIntegrityFieldUnread)
       \<lparr>errEntityID := entityId, errOriginNodeID := originNodeID, errField := fieldName,
        errReadErrText := (case readErr of None \<Rightarrow> [] | Some t \<Rightarrow> t)\<rparr>"

section \<open>Reconstruction\<close>

definition readFixed :: "nat \<Rightarrow> bytes readResult \<Rightarrow> string option + bytes" where
  "readFixed n r = (case r of Inl t \<Rightarrow> Inl (Some t) | Inr raw \<Rightarrow> if length raw \<noteq> n then Inl None else Inr raw)"

definition ReconstructEntry ::
  "(bytes \<Rightarrow> bytes) \<Rightarrow> CRDTDeltaEvent \<Rightarrow> WireIntegrityError + ReconstructedEntry" where
  "ReconstructEntry sha256 ev =
     (case readFixed 16 (evOriginNodeID ev) of
        Inl _ \<Rightarrow> Inl (integrityError WireIntegrityFieldUnread)
      | Inr originNodeID \<Rightarrow>
     (case evEntityId ev of
        Inl t \<Rightarrow> Inl (readFieldError [] originNodeID ''EntityId'' (Some t))
      | Inr entityId \<Rightarrow>
     (case readFixed 32 (evPayloadDigest ev) of
        Inl t \<Rightarrow> Inl (readFieldError entityId originNodeID ''PayloadDigest'' t)
      | Inr digest \<Rightarrow>
     (case readFixed 16 (evDotNodeID ev) of
        Inl t \<Rightarrow> Inl (readFieldError entityId originNodeID ''DotNodeID'' t)
      | Inr dotNode \<Rightarrow>
          if dotNode \<noteq> originNodeID then
            Inl ((integrityError WireIntegrityDotOriginMismatch)
                   \<lparr>errEntityID := entityId, errOriginNodeID := originNodeID, errDotNodeID := dotNode\<rparr>)
          else
            let rec = \<lparr>PayloadDigest = digest, OriginNodeID = originNodeID, DotNodeID = dotNode,
                       DotCounter = evDotCounter ev, SystemTime = evSystemTime ev,
                       ValidTimeStart = evValidTimeStart ev, ValidTimeEnd = evValidTimeEnd ev,
                       AssertionTime = evAssertionTime ev, DecisionTime = evDecisionTime ev,
                       H3Index = evH3Index ev\<rparr>
            in (case evPayload ev of
                  Inl t \<Rightarrow> Inl (readFieldError entityId originNodeID ''Payload'' (Some t))
                | Inr payloadBytes \<Rightarrow>
                    let recomputed = sha256 payloadBytes in
                    if recomputed \<noteq> PayloadDigest rec then
                      Inl ((integrityError WireIntegrityDigestMismatch)
                             \<lparr>errEntityID := entityId, errOriginNodeID := originNodeID,
                              errOnWireDigest := PayloadDigest rec, errRecomputedDigest := recomputed\<rparr>)
                    else Inr \<lparr>recEntityID = entityId, recPayload = payloadBytes, recEntry = rec\<rparr>)))))"

section \<open>The skew bound\<close>

record LamportSnapshot =
  snapLamport :: u64
  snapObservedInboundRate :: real
  snapHorizonSeconds :: real
  snapAbsoluteSlack :: u64

definition takeLamportSnapshot :: "DeltaCRDTEngine \<Rightarrow> LamportSnapshot" where
  "takeLamportSnapshot e =
     \<lparr>snapLamport = lamportCounter e, snapObservedInboundRate = observedInboundRate e,
      snapHorizonSeconds = lamportSkewHorizonSeconds e, snapAbsoluteSlack = lamportSkewAbsoluteSlack e\<rparr>"

text \<open>\<^verbatim>\<open>f64\<close> rounds the product; \<^verbatim>\<open>math.Ceil\<close> is exact, and \<^verbatim>\<open>float64(math.MaxUint64)\<close> is \<open>2\<^sup>6\<^sup>4\<close>.\<close>

definition rateEnvelopeOf :: "(real \<Rightarrow> real) \<Rightarrow> LamportSnapshot \<Rightarrow> u64" where
  "rateEnvelopeOf f64 s =
     (let rateEnvelope = (if snapObservedInboundRate s > 0 \<and> snapHorizonSeconds s > 0
                          then real_of_int \<lceil>f64 (snapObservedInboundRate s * snapHorizonSeconds s)\<rceil> else 0)
      in if rateEnvelope \<ge> 2 ^ 64 then MaxUint64
         else if rateEnvelope > 0 then of_int \<lfloor>rateEnvelope\<rfloor> else 0)"

definition MaxAcceptableDotCounter :: "(real \<Rightarrow> real) \<Rightarrow> LamportSnapshot \<Rightarrow> u64" where
  "MaxAcceptableDotCounter f64 s =
     (let envelope = rateEnvelopeOf f64 s;
          bound = snapLamport s
      in if envelope > MaxUint64 - bound then MaxUint64
         else let bound = bound + envelope in
           if snapAbsoluteSlack s > MaxUint64 - bound then MaxUint64
           else bound + snapAbsoluteSlack s)"

definition ReconstructEntryWithSkewBound ::
  "(bytes \<Rightarrow> bytes) \<Rightarrow> (real \<Rightarrow> real) \<Rightarrow> CRDTDeltaEvent \<Rightarrow> LamportSnapshot \<Rightarrow>
     WireIntegrityError + ReconstructedEntry" where
  "ReconstructEntryWithSkewBound sha256 f64 ev s =
     (case ReconstructEntry sha256 ev of
        Inl err \<Rightarrow> Inl err
      | Inr rec \<Rightarrow>
          let bound = MaxAcceptableDotCounter f64 s in
          if DotCounter (recEntry rec) > bound then
            Inl ((integrityError WireIntegrityLamportSkewPoisoning)
                   \<lparr>errEntityID := recEntityID rec, errOriginNodeID := OriginNodeID (recEntry rec),
                    errDotNodeID := DotNodeID (recEntry rec), errInboundDotCounter := DotCounter (recEntry rec),
                    errReceiverLamport := snapLamport s, errComputedBound := bound,
                    errObservedInboundRate := snapObservedInboundRate s,
                    errHorizonSeconds := snapHorizonSeconds s, errAbsoluteSlack := snapAbsoluteSlack s\<rparr>)
          else Inr rec)"

section \<open>Applying frames\<close>

datatype ApplyError =
    DecodeFailed string
  | VersionMismatch u16
  | Integrity WireIntegrityError
  | AtElement nat ApplyError

definition CRDTDeltaEventWireVersion :: u16 where "CRDTDeltaEventWireVersion = 1"

definition makeSingleEntrySeq :: "gostring \<Rightarrow> CRDTEntry \<Rightarrow> incomingEntry list" where
  "makeSingleEntrySeq entityId entry = [(entityId, entry)]"

text \<open>The result is the error, if any, and the engine afterwards; \<^verbatim>\<open>None\<close> is the panic of a closed engine.\<close>

definition ApplyCRDTDeltaEvent ::
  "(bytes \<Rightarrow> bytes) \<Rightarrow> hasher \<Rightarrow> ((incomingEntry \<Rightarrow> incomingEntry \<Rightarrow> int) \<Rightarrow> incomingEntry list \<Rightarrow> incomingEntry list) \<Rightarrow>
     (real \<Rightarrow> real) \<Rightarrow> (bytes \<Rightarrow> string + CRDTDeltaEvent) \<Rightarrow> bytes \<Rightarrow> DeltaCRDTEngine \<Rightarrow>
     (ApplyError option \<times> DeltaCRDTEngine) option" where
  "ApplyCRDTDeltaEvent sha256 maphash sortFunc f64 decodeEvent wire e =
     (case decodeEvent wire of
        Inl t \<Rightarrow> Some (Some (DecodeFailed t), e)
      | Inr ev \<Rightarrow>
          if evVersion ev \<noteq> CRDTDeltaEventWireVersion then Some (Some (VersionMismatch (evVersion ev)), e)
          else
            let snapshot = takeLamportSnapshot e in
            (case ReconstructEntryWithSkewBound sha256 f64 ev snapshot of
               Inl err \<Rightarrow> Some (Some (Integrity err), e)
             | Inr rec \<Rightarrow>
                 let delta = \<lparr>Entries = Some (makeSingleEntrySeq (recEntityID rec) (recEntry rec)),
                              DeltaOriginNodeID = OriginNodeID (recEntry rec)\<rparr>
                 in map_option (\<lambda>e'. (None, e')) (Join maphash sortFunc f64 delta e)))"

fun reconstructAll ::
  "(bytes \<Rightarrow> bytes) \<Rightarrow> (real \<Rightarrow> real) \<Rightarrow> LamportSnapshot \<Rightarrow> nat \<Rightarrow> CRDTDeltaEvent list \<Rightarrow> ApplyError + incomingEntry list" where
  "reconstructAll sha256 f64 s i [] = Inr []"
| "reconstructAll sha256 f64 s i (ev # evs) =
     (if evVersion ev \<noteq> CRDTDeltaEventWireVersion then Inl (AtElement i (VersionMismatch (evVersion ev)))
      else case ReconstructEntryWithSkewBound sha256 f64 ev s of
        Inl err \<Rightarrow> Inl (AtElement i (Integrity err))
      | Inr rec \<Rightarrow>
          (case reconstructAll sha256 f64 s (i + 1) evs of
             Inl err \<Rightarrow> Inl err
           | Inr accum \<Rightarrow> Inr ((recEntityID rec, recEntry rec) # accum)))"

definition makeBatchEntrySeq :: "incomingEntry list \<Rightarrow> incomingEntry list" where
  "makeBatchEntrySeq pairs = pairs"

definition batchOriginOf :: "incomingEntry list \<Rightarrow> bytes" where
  "batchOriginOf accum = (case accum of [] \<Rightarrow> replicate 16 0 | x # _ \<Rightarrow> OriginNodeID (snd x))"

definition ApplyCRDTDeltaBatch ::
  "(bytes \<Rightarrow> bytes) \<Rightarrow> hasher \<Rightarrow> ((incomingEntry \<Rightarrow> incomingEntry \<Rightarrow> int) \<Rightarrow> incomingEntry list \<Rightarrow> incomingEntry list) \<Rightarrow>
     (real \<Rightarrow> real) \<Rightarrow> (bytes \<Rightarrow> string + CRDTDeltaEvent list) \<Rightarrow> bytes \<Rightarrow> DeltaCRDTEngine \<Rightarrow>
     (ApplyError option \<times> DeltaCRDTEngine) option" where
  "ApplyCRDTDeltaBatch sha256 maphash sortFunc f64 decodeBatch wire e =
     (case decodeBatch wire of
        Inl t \<Rightarrow> Some (Some (DecodeFailed t), e)
      | Inr events \<Rightarrow>
          let snapshot = takeLamportSnapshot e in
          (case reconstructAll sha256 f64 snapshot 0 events of
             Inl err \<Rightarrow> Some (Some err, e)
           | Inr accum \<Rightarrow>
               let delta = \<lparr>Entries = Some (makeBatchEntrySeq accum), DeltaOriginNodeID = batchOriginOf accum\<rparr>
               in map_option (\<lambda>e'. (None, e')) (Join maphash sortFunc f64 delta e)))"

fun inspectAll ::
  "(bytes \<Rightarrow> bytes) \<Rightarrow> nat \<Rightarrow> CRDTDeltaEvent list \<Rightarrow> ApplyError + (bytes \<times> u64) list" where
  "inspectAll sha256 i [] = Inr []"
| "inspectAll sha256 i (ev # evs) =
     (if evVersion ev \<noteq> CRDTDeltaEventWireVersion then Inl (AtElement i (VersionMismatch (evVersion ev)))
      else case ReconstructEntry sha256 ev of
        Inl err \<Rightarrow> Inl (AtElement i (Integrity err))
      | Inr rec \<Rightarrow>
          (case inspectAll sha256 (i + 1) evs of
             Inl err \<Rightarrow> Inl err
           | Inr rest \<Rightarrow> Inr ((OriginNodeID (recEntry rec), DotCounter (recEntry rec)) # rest)))"

definition InspectBatchDots ::
  "(bytes \<Rightarrow> bytes) \<Rightarrow> (bytes \<Rightarrow> string + CRDTDeltaEvent list) \<Rightarrow> bytes \<Rightarrow> ApplyError + (bytes \<times> u64 list)" where
  "InspectBatchDots sha256 decodeBatch wire =
     (case decodeBatch wire of
        Inl t \<Rightarrow> Inl (DecodeFailed t)
      | Inr events \<Rightarrow>
          (case inspectAll sha256 0 events of
             Inl err \<Rightarrow> Inl err
           | Inr ds \<Rightarrow> Inr ((case ds of [] \<Rightarrow> replicate 16 0 | d # _ \<Rightarrow> fst d), map snd ds)))"

definition eventOf :: "gostring \<Rightarrow> bytes \<Rightarrow> CRDTEntry \<Rightarrow> CRDTDeltaEvent" where
  "eventOf entityId payload entry =
     \<lparr>evVersion = CRDTDeltaEventWireVersion, evPayloadDigest = Inr (PayloadDigest entry),
      evOriginNodeID = Inr (OriginNodeID entry), evDotNodeID = Inr (DotNodeID entry),
      evDotCounter = DotCounter entry, evH3Index = H3Index entry, evSystemTime = SystemTime entry,
      evValidTimeStart = ValidTimeStart entry, evValidTimeEnd = ValidTimeEnd entry,
      evAssertionTime = AssertionTime entry, evDecisionTime = DecisionTime entry,
      evEntityId = Inr entityId, evPayload = Inr payload\<rparr>"

definition BuildCRDTDeltaEvent ::
  "(CRDTDeltaEvent \<Rightarrow> string + bytes) \<Rightarrow> gostring \<Rightarrow> bytes \<Rightarrow> CRDTEntry \<Rightarrow> string + bytes" where
  "BuildCRDTDeltaEvent encodeEvent entityId payload entry = encodeEvent (eventOf entityId payload entry)"

section \<open>What an accepted frame guarantees\<close>

definition vouched :: "(bytes \<Rightarrow> bytes) \<Rightarrow> u64 \<Rightarrow> gostring \<Rightarrow> CRDTEntry \<Rightarrow> CRDTDeltaEvent \<Rightarrow> bool" where
  "vouched sha256 bound k v ev \<longleftrightarrow>
     evEntityId ev = Inr k \<and> evOriginNodeID ev = Inr (DotNodeID v) \<and> OriginNodeID v = DotNodeID v \<and>
     (\<exists>p. evPayload ev = Inr p \<and> PayloadDigest v = sha256 p) \<and>
     DotCounter v = evDotCounter ev \<and> DotCounter v \<le> bound"

lemma readFixed_Inr: "readFixed n r = Inr raw \<longleftrightarrow> r = Inr raw \<and> length raw = n"
  by (auto simp: readFixed_def split: sum.splits)

lemma ReconstructEntry_Inr:
  "ReconstructEntry sha256 ev = Inr rec \<Longrightarrow>
   evEntityId ev = Inr (recEntityID rec) \<and> evOriginNodeID ev = Inr (DotNodeID (recEntry rec)) \<and>
   OriginNodeID (recEntry rec) = DotNodeID (recEntry rec) \<and>
   evPayload ev = Inr (recPayload rec) \<and> PayloadDigest (recEntry rec) = sha256 (recPayload rec) \<and>
   DotCounter (recEntry rec) = evDotCounter ev"
  by (auto simp: ReconstructEntry_def readFixed_Inr Let_def split: sum.splits if_splits)

lemma Reconstruct_skew_Inr:
  "ReconstructEntryWithSkewBound sha256 f64 ev s = Inr rec \<longleftrightarrow>
   ReconstructEntry sha256 ev = Inr rec \<and> DotCounter (recEntry rec) \<le> MaxAcceptableDotCounter f64 s"
  by (auto simp: ReconstructEntryWithSkewBound_def Let_def not_less split: sum.splits)

lemma Reconstruct_vouched:
  "ReconstructEntryWithSkewBound sha256 f64 ev s = Inr rec \<Longrightarrow>
   vouched sha256 (MaxAcceptableDotCounter f64 s) (recEntityID rec) (recEntry rec) ev"
  using ReconstructEntry_Inr [of sha256 ev rec] by (auto simp: Reconstruct_skew_Inr vouched_def)

lemma reconstructAll_vouched:
  "reconstructAll sha256 f64 s i evs = Inr accum \<Longrightarrow>
   list_all2 (\<lambda>x ev. vouched sha256 (MaxAcceptableDotCounter f64 s) (fst x) (snd x) ev) accum evs"
proof (induction evs arbitrary: i accum)
  case (Cons ev evs)
  then obtain rec rest where r: "ReconstructEntryWithSkewBound sha256 f64 ev s = Inr rec"
    "reconstructAll sha256 f64 s (i + 1) evs = Inr rest" "accum = (recEntityID rec, recEntry rec) # rest"
    by (auto split: if_splits sum.splits)
  then show ?case using Cons.IH [OF r(2)] Reconstruct_vouched [OF r(1)] by simp
qed simp

lemma fold_max_le:
  "fold (\<lambda>x. max (g x)) xs a \<le> (b :: 'a::linorder) \<longleftrightarrow> a \<le> b \<and> (\<forall>x\<in>set xs. g x \<le> b)"
  by (induction xs arbitrary: a) auto

lemma Join_vouched:
  assumes ok: "eng_ok mh e" "lamport_ok e" and s: "sort_ok sortFunc"
    and j: "Join mh sortFunc f64 \<lparr>Entries = Some accum, DeltaOriginNodeID = org\<rparr> e = Some e'"
    and v: "list_all2 (\<lambda>x ev. vouched sha256 bound (fst x) (snd x) ev) accum evs"
  shows "eng_ok mh e' \<and> lamport_ok e' \<and>
    (\<forall>k d v. eng_map mh e k d = Some v \<longrightarrow> eng_map mh e' k d = Some v) \<and>
    (\<forall>k d v. eng_map mh e' k d = Some v \<longrightarrow> eng_map mh e k d = Some v \<or> (\<exists>ev\<in>set evs. vouched sha256 bound k v ev)) \<and>
    (\<forall>ev\<in>set evs. \<exists>k v. vouched sha256 bound k v ev \<and> eng_map mh e' k (Dot v) \<noteq> None) \<and>
    lamportCounter e' \<le> max (lamportCounter e) bound"
proof -
  have de: "delta_entries \<lparr>Entries = Some accum, DeltaOriginNodeID = org\<rparr> = accum" by (simp add: delta_entries_def)
  note c = Join_cases [OF ok(1) s j, unfolded de]
  have in1: "\<exists>ev\<in>set evs. vouched sha256 bound (fst x) (snd x) ev" if "x \<in> set accum" for x
    using v that by (induction accum evs rule: list_all2_induct) auto
  have in2: "\<exists>x\<in>set accum. vouched sha256 bound (fst x) (snd x) ev" if "ev \<in> set evs" for ev
    using v that by (induction accum evs rule: list_all2_induct) auto
  have "lamportCounter e' = fold (\<lambda>x. max (DotCounter (snd x))) accum (lamportCounter e)"
    using Join_frame [OF j] by (simp add: fold_Advance_lamport de)
  moreover have "DotCounter (snd x) \<le> max (lamportCounter e) bound" if "x \<in> set accum" for x
    using in1 [OF that] by (auto simp: vouched_def le_max_iff_disj)
  ultimately have "lamportCounter e' \<le> max (lamportCounter e) bound" by (simp add: fold_max_le)
  moreover have "\<exists>k v. vouched sha256 bound k v ev \<and> eng_map mh e' k (Dot v) \<noteq> None" if "ev \<in> set evs" for ev
    using in2 [OF that] c(3) by (metis prod.collapse)
  moreover have "eng_map mh e k d = Some v \<or> (\<exists>ev\<in>set evs. vouched sha256 bound k v ev)"
    if "eng_map mh e' k d = Some v" for k d v
    using c(2) [OF that] in1 [of "(k, v)"] by auto
  ultimately show ?thesis
    using Join_ok [OF ok(1) s j] Join_lamport_ok [OF ok(1) s j ok(2)] c(1) by blast
qed

section \<open>The bound does not wrap\<close>

lemma unat_lt64: "unat (x :: u64) < 2 ^ 64"
  using unsigned_less [of x] by simp

lemma unat_max64: "unat (MaxUint64 :: u64) = 2 ^ 64 - 1"
  by (simp add: unsigned_minus_1_eq_mask mask_eq_exp_minus_1)

lemma unat_gap: "unat (MaxUint64 - a) = 2 ^ 64 - 1 - unat (a :: u64)"
proof -
  have "unat (MaxUint64 - a) = unat (MaxUint64 :: u64) - unat a" by (rule unat_sub) simp
  then show ?thesis by (simp add: unat_max64)
qed

lemma saturating_add:
  fixes a b :: u64
  shows "(b > MaxUint64 - a) = (unat a + unat b > 2 ^ 64 - 1)"
    and "\<not> b > MaxUint64 - a \<Longrightarrow> unat (a + b) = unat a + unat b"
proof -
  have lt: "unat a < 2 ^ 64" "unat b < 2 ^ 64" using unat_lt64 [of a] unat_lt64 [of b] by simp_all
  show g: "(b > MaxUint64 - a) = (unat a + unat b > 2 ^ 64 - 1)"
    unfolding word_less_nat_alt unat_gap using lt by arith
  show "unat (a + b) = unat a + unat b" if "\<not> b > MaxUint64 - a"
    using that unfolding g by (simp add: unat_word_ariths(1))
qed

lemma MaxAcceptable_unat:
  "unat (MaxAcceptableDotCounter f64 s) =
     min (2 ^ 64 - 1) (unat (snapLamport s) + unat (rateEnvelopeOf f64 s) + unat (snapAbsoluteSlack s))"
proof -
  let ?l = "snapLamport s" and ?v = "rateEnvelopeOf f64 s" and ?k = "snapAbsoluteSlack s"
  have e: "unat (MaxAcceptableDotCounter f64 s) = min (2 ^ 64 - 1) (unat ?l + unat ?v + unat ?k)"
  proof (cases "?v > MaxUint64 - ?l")
    case True
    then have "unat ?l + unat ?v > 2 ^ 64 - 1" by (simp add: saturating_add(1))
    moreover have "MaxAcceptableDotCounter f64 s = MaxUint64" using True by (simp add: MaxAcceptableDotCounter_def)
    ultimately show ?thesis by (simp add: unat_max64)
  next
    case False
    note a = saturating_add(2) [OF False]
    have m: "MaxAcceptableDotCounter f64 s = (if ?k > MaxUint64 - (?l + ?v) then MaxUint64 else ?l + ?v + ?k)"
      using False by (simp add: MaxAcceptableDotCounter_def Let_def)
    show ?thesis
    proof (cases "?k > MaxUint64 - (?l + ?v)")
      case True
      then have "unat ?l + unat ?v + unat ?k > 2 ^ 64 - 1" using a by (simp add: saturating_add(1))
      then show ?thesis using True m by (simp add: unat_max64)
    next
      case False
      then have "\<not> unat ?l + unat ?v + unat ?k > 2 ^ 64 - 1" using a by (simp add: saturating_add(1))
      then show ?thesis using False m a saturating_add(2) [OF False] by simp
    qed
  qed
  show ?thesis by (rule e)
qed

lemma MaxAcceptable_ge: "snapLamport s \<le> MaxAcceptableDotCounter f64 s"
proof -
  have "unat (snapLamport s) \<le> 2 ^ 64 - 1" using unat_lt64 [of "snapLamport s"] by simp
  then have "unat (snapLamport s) \<le> unat (MaxAcceptableDotCounter f64 s)" unfolding MaxAcceptable_unat by simp
  then show ?thesis by (simp add: word_le_nat_alt)
qed

text \<open>
  The acceptance bound is the exact sum of clock, rate envelope and slack, cut off at the largest
  64-bit value; it never wraps to a small value, so a counter that the receiver has already reached is
  always accepted.
\<close>

theorem MaxAcceptableDotCounter_saturates:
  "unat (MaxAcceptableDotCounter f64 s) =
     min (2 ^ 64 - 1) (unat (snapLamport s) + unat (rateEnvelopeOf f64 s) + unat (snapAbsoluteSlack s)) \<and>
   snapLamport s \<le> MaxAcceptableDotCounter f64 s"
  using MaxAcceptable_unat MaxAcceptable_ge by blast

section \<open>Frames and the engine\<close>

text \<open>What applying a batch does, and the same of a single event.\<close>

lemma ApplyBatch_spec:
  assumes "eng_ok mh e" "lamport_ok e" "sort_ok sortFunc"
    and "ApplyCRDTDeltaBatch sha256 mh sortFunc f64 decodeBatch wire e = Some (err, e')"
  shows "(err \<noteq> None \<longrightarrow> e' = e) \<and>
    (err = None \<longrightarrow> eng_ok mh e' \<and> lamport_ok e' \<and>
      (\<exists>evs. decodeBatch wire = Inr evs \<and>
        (let bound = MaxAcceptableDotCounter f64 (takeLamportSnapshot e) in
         (\<forall>k d v. eng_map mh e k d = Some v \<longrightarrow> eng_map mh e' k d = Some v) \<and>
         (\<forall>k d v. eng_map mh e' k d = Some v \<longrightarrow> eng_map mh e k d = Some v \<or> (\<exists>ev\<in>set evs. vouched sha256 bound k v ev)) \<and>
         (\<forall>ev\<in>set evs. \<exists>k v. vouched sha256 bound k v ev \<and> eng_map mh e' k (Dot v) \<noteq> None) \<and>
         lamportCounter e' \<le> bound)))"
proof -
  let ?s = "takeLamportSnapshot e"
  let ?b = "MaxAcceptableDotCounter f64 ?s"
  consider "err \<noteq> None" "e' = e"
    | evs accum where "err = None" "decodeBatch wire = Inr evs" "reconstructAll sha256 f64 ?s 0 evs = Inr accum"
      "Join mh sortFunc f64 \<lparr>Entries = Some accum, DeltaOriginNodeID = batchOriginOf accum\<rparr> e = Some e'"
    using assms(4) by (auto simp: ApplyCRDTDeltaBatch_def Let_def makeBatchEntrySeq_def split: sum.splits)
  then show ?thesis
  proof cases
    case 1
    then show ?thesis by blast
  next
    case (2 evs accum)
    note v = Join_vouched [OF assms(1-3) 2(4) reconstructAll_vouched [OF 2(3)]]
    have "lamportCounter e \<le> ?b"
      using MaxAcceptable_ge [of ?s f64] by (simp add: takeLamportSnapshot_def)
    then have "lamportCounter e' \<le> ?b" using v by (simp add: max_absorb2)
    then show ?thesis using 2(1,2) v unfolding Let_def by blast
  qed
qed

lemma ApplyEvent_spec:
  assumes "eng_ok mh e" "lamport_ok e" "sort_ok sortFunc"
    and "ApplyCRDTDeltaEvent sha256 mh sortFunc f64 decodeEvent wire e = Some (err, e')"
  shows "(err \<noteq> None \<longrightarrow> e' = e) \<and>
    (err = None \<longrightarrow> eng_ok mh e' \<and> lamport_ok e' \<and>
      (\<exists>ev k v. decodeEvent wire = Inr ev \<and> vouched sha256 (MaxAcceptableDotCounter f64 (takeLamportSnapshot e)) k v ev \<and>
        eng_map mh e' k (Dot v) \<noteq> None \<and>
        (\<forall>k d v. eng_map mh e k d = Some v \<longrightarrow> eng_map mh e' k d = Some v) \<and>
        (\<forall>k d v. eng_map mh e' k d = Some v \<longrightarrow> eng_map mh e k d = Some v \<or>
           vouched sha256 (MaxAcceptableDotCounter f64 (takeLamportSnapshot e)) k v ev)))"
proof -
  let ?s = "takeLamportSnapshot e"
  let ?b = "MaxAcceptableDotCounter f64 ?s"
  consider "err \<noteq> None" "e' = e"
    | ev rec where "err = None" "decodeEvent wire = Inr ev" "ReconstructEntryWithSkewBound sha256 f64 ev ?s = Inr rec"
      "Join mh sortFunc f64 \<lparr>Entries = Some [(recEntityID rec, recEntry rec)], DeltaOriginNodeID = OriginNodeID (recEntry rec)\<rparr> e = Some e'"
    using assms(4) by (auto simp: ApplyCRDTDeltaEvent_def Let_def makeSingleEntrySeq_def split: sum.splits if_splits)
  then show ?thesis
  proof cases
    case 1
    then show ?thesis by blast
  next
    case (2 ev rec)
    have "list_all2 (\<lambda>x ev. vouched sha256 ?b (fst x) (snd x) ev) [(recEntityID rec, recEntry rec)] [ev]"
      using Reconstruct_vouched [OF 2(3)] by simp
    note v = Join_vouched [OF assms(1-3) 2(4) this]
    then show ?thesis using 2(1,2) by auto
  qed
qed

text \<open>
  C12. A batch is applied as a whole or not at all. On an error the engine is unchanged. Otherwise
  nothing known is lost, every frame's dot is known, every new entry comes from a frame whose payload
  hashes to its digest, whose dot belongs to its origin and whose counter is within the skew bound,
  and the Lamport clock moves at most to that bound.
\<close>

theorem ApplyCRDTDeltaBatch_atomic:
  assumes "eng_ok mh e" "lamport_ok e" "sort_ok sortFunc"
    and "ApplyCRDTDeltaBatch sha256 mh sortFunc f64 decodeBatch wire e = Some (err, e')"
  shows "(err \<noteq> None \<longrightarrow> e' = e) \<and>
    (err = None \<longrightarrow> eng_ok mh e' \<and> lamport_ok e' \<and>
      (\<exists>evs. decodeBatch wire = Inr evs \<and>
        (let bound = MaxAcceptableDotCounter f64 (takeLamportSnapshot e) in
         (\<forall>k d v. eng_map mh e k d = Some v \<longrightarrow> eng_map mh e' k d = Some v) \<and>
         (\<forall>k d v. eng_map mh e' k d = Some v \<longrightarrow> eng_map mh e k d = Some v \<or> (\<exists>ev\<in>set evs. vouched sha256 bound k v ev)) \<and>
         (\<forall>ev\<in>set evs. \<exists>k v. vouched sha256 bound k v ev \<and> eng_map mh e' k (Dot v) \<noteq> None) \<and>
         lamportCounter e' \<le> bound)))"
  using ApplyBatch_spec [OF assms] .

text \<open>
  The encoder and decoder of the capnp library in the two theorems below agree: what the encoder
  wrote decodes to the same field values.
\<close>

definition codec_ok :: "(CRDTDeltaEvent \<Rightarrow> string + bytes) \<Rightarrow> (bytes \<Rightarrow> string + CRDTDeltaEvent) \<Rightarrow> bool" where
  "codec_ok enc dec \<longleftrightarrow> (\<forall>ev w. enc ev = Inr w \<longrightarrow> dec w = Inr ev)"

lemma Reconstruct_eventOf:
  assumes "length (OriginNodeID en) = 16" "length (PayloadDigest en) = 32" "DotNodeID en = OriginNodeID en"
    and "PayloadDigest en = sha256 p"
  shows "ReconstructEntry sha256 (eventOf k p en) = Inr \<lparr>recEntityID = k, recPayload = p, recEntry = en\<rparr>"
  using assms by (auto simp: ReconstructEntry_def eventOf_def readFixed_def Let_def)

text \<open>
  What one engine sends arrives: a frame built from an entry is accepted and its entry stored
  under its dot, unless the dot was known, when the payload matches the digest, the dot belongs to
  the origin and the counter is within the bound.
\<close>

theorem Build_Apply_roundtrip:
  assumes "eng_ok mh e" "sort_ok sortFunc" "\<not> closing e" and "codec_ok enc dec"
    and "BuildCRDTDeltaEvent enc k p en = Inr wire"
    and "length (OriginNodeID en) = 16" "length (PayloadDigest en) = 32" "DotNodeID en = OriginNodeID en"
    and "PayloadDigest en = sha256 p" "DotCounter en \<le> MaxAcceptableDotCounter f64 (takeLamportSnapshot e)"
  shows "\<exists>e'. ApplyCRDTDeltaEvent sha256 mh sortFunc f64 dec wire e = Some (None, e') \<and>
    eng_map mh e' k (Dot en) = (case eng_map mh e k (Dot en) of None \<Rightarrow> Some en | Some v \<Rightarrow> Some v)"
proof -
  let ?d = "\<lparr>Entries = Some [(k, en)], DeltaOriginNodeID = OriginNodeID en\<rparr>"
  have dec: "dec wire = Inr (eventOf k p en)"
    using assms(4,5) by (simp add: codec_ok_def BuildCRDTDeltaEvent_def)
  have rec: "ReconstructEntryWithSkewBound sha256 f64 (eventOf k p en) (takeLamportSnapshot e) =
      Inr \<lparr>recEntityID = k, recPayload = p, recEntry = en\<rparr>"
    using Reconstruct_eventOf [of en sha256 p k] assms(6-10)
    by (simp add: Reconstruct_skew_Inr)
  obtain e' where j: "Join mh sortFunc f64 ?d e = Some e'" using Join_Some [OF assms(3)] by blast
  have ver: "evVersion (eventOf k p en) = CRDTDeltaEventWireVersion" by (simp add: eventOf_def)
  have a: "ApplyCRDTDeltaEvent sha256 mh sortFunc f64 dec wire e = Some (None, e')"
    using dec rec j ver by (simp add: ApplyCRDTDeltaEvent_def makeSingleEntrySeq_def Let_def)
  have de: "delta_entries ?d = [(k, en)]" by (simp add: delta_entries_def)
  note c = Join_cases [OF assms(1,2) j, unfolded de]
  have "eng_map mh e' k (Dot en) = (case eng_map mh e k (Dot en) of None \<Rightarrow> Some en | Some v \<Rightarrow> Some v)"
  proof (cases "eng_map mh e k (Dot en)")
    case None
    obtain v where v: "eng_map mh e' k (Dot en) = Some v" using c(3) [of k en] by auto
    then show ?thesis using c(2) [OF v] None by auto
  next
    case (Some v)
    then show ?thesis using c(1) by simp
  qed
  then show ?thesis using a by blast
qed

definition ex_sha :: "bytes \<Rightarrow> bytes" where "ex_sha p = replicate 32 (of_nat (length p))"

definition ex_frame :: CRDTEntry where
  "ex_frame = \<lparr>PayloadDigest = ex_sha [1, 2, 3], OriginNodeID = replicate 16 9, DotNodeID = replicate 16 9,
     DotCounter = 5, SystemTime = 0, ValidTimeStart = 0, ValidTimeEnd = 0, AssertionTime = 0, DecisionTime = 0, H3Index = 0\<rparr>"

definition ex_enc :: "CRDTDeltaEvent \<Rightarrow> string + bytes" where
  "ex_enc ev = (if ev = eventOf [97] [1, 2, 3] ex_frame then Inr [1] else Inl ''unsupported'')"

definition ex_dec :: "bytes \<Rightarrow> string + CRDTDeltaEvent" where
  "ex_dec w = (if w = [1] then Inr (eventOf [97] [1, 2, 3] ex_frame) else Inl ''malformed'')"

lemma ex_bound: "MaxAcceptableDotCounter f64 (takeLamportSnapshot (ex_replica 5 1)) = 1000"
  by (simp add: MaxAcceptableDotCounter_def rateEnvelopeOf_def takeLamportSnapshot_def ex_replica_def
      NewDeltaCRDTEngine_def)

theorem Build_Apply_roundtrip_witness:
  "\<exists>e'. ApplyCRDTDeltaEvent ex_sha (\<lambda>_ _. 0) isortCmp (\<lambda>x. x) ex_dec [1] (ex_replica 5 1) = Some (None, e') \<and>
     eng_map (\<lambda>_ _. 0) e' [97] (Dot ex_frame) = Some ex_frame"
proof -
  have c: "codec_ok ex_enc ex_dec" by (simp add: codec_ok_def ex_enc_def ex_dec_def)
  have b: "BuildCRDTDeltaEvent ex_enc [97] [1, 2, 3] ex_frame = Inr [1]"
    by (simp add: BuildCRDTDeltaEvent_def ex_enc_def)
  have n: "eng_map (\<lambda>_ _. 0) (ex_replica 5 1) [97] (Dot ex_frame) = None"
    by (simp add: eng_map_def ex_replica_facts)
  have f: "length (OriginNodeID ex_frame) = 16" "length (PayloadDigest ex_frame) = 32"
    "DotNodeID ex_frame = OriginNodeID ex_frame" "PayloadDigest ex_frame = ex_sha [1, 2, 3]" "DotCounter ex_frame \<le> 1000"
    by (simp_all add: ex_frame_def ex_sha_def)
  from Build_Apply_roundtrip [OF ex_replica_facts(1) [of "\<lambda>_ _. 0" 5 1] isortCmp_sort_ok ex_replica_facts(3) c b f(1-3), of ex_sha "\<lambda>x. x"]
  show ?thesis using f(4,5) by (simp add: ex_bound n)
qed

theorem ApplyCRDTDeltaBatch_atomic_witness:
  "\<exists>e'. ApplyCRDTDeltaBatch ex_sha (\<lambda>_ _. 0) isortCmp (\<lambda>x. x) (\<lambda>w. Inr [eventOf [97] w ex_frame]) [1, 2, 3] (ex_replica 5 1)
        = Some (None, e') \<and> lamportCounter e' \<le> 1000 \<and>
     (\<exists>err. ApplyCRDTDeltaBatch ex_sha (\<lambda>_ _. 0) isortCmp (\<lambda>x. x)
        (\<lambda>w. Inr [eventOf [97] w ex_frame, eventOf [97] [] ex_frame]) [1, 2, 3] (ex_replica 5 1) = Some (Some err, ex_replica 5 1))"
proof -
  let ?mh = "\<lambda>_ _. 0 :: u64" and ?e = "ex_replica 5 1"
  note ok = ex_replica_facts(1) [of ?mh 5 1] ex_replica_facts(2) [of 5 1] isortCmp_sort_ok
  have r: "ReconstructEntryWithSkewBound ex_sha (\<lambda>x. x) (eventOf [97] [1, 2, 3] ex_frame) (takeLamportSnapshot ?e) =
      Inr \<lparr>recEntityID = [97], recPayload = [1, 2, 3], recEntry = ex_frame\<rparr>"
    using Reconstruct_eventOf [of ex_frame ex_sha "[1, 2, 3]" "[97]"] ex_bound
    by (simp add: Reconstruct_skew_Inr) (simp add: ex_frame_def ex_sha_def)
  have ver: "evVersion (eventOf k p en) = CRDTDeltaEventWireVersion" for k p en by (simp add: eventOf_def)
  obtain e' where j: "Join ?mh isortCmp (\<lambda>x. x) \<lparr>Entries = Some [([97], ex_frame)], DeltaOriginNodeID = OriginNodeID ex_frame\<rparr> ?e = Some e'"
    using Join_Some [OF ex_replica_facts(3)] by blast
  have a: "ApplyCRDTDeltaBatch ex_sha ?mh isortCmp (\<lambda>x. x) (\<lambda>w. Inr [eventOf [97] w ex_frame]) [1, 2, 3] ?e = Some (None, e')"
    using r j by (simp add: ApplyCRDTDeltaBatch_def ver Let_def makeBatchEntrySeq_def batchOriginOf_def)
  have l: "lamportCounter e' \<le> 1000"
    using ApplyCRDTDeltaBatch_atomic [OF ok a] ex_bound by (auto simp: Let_def)
  have "\<exists>err. ReconstructEntryWithSkewBound ex_sha (\<lambda>x. x) (eventOf [97] [] ex_frame) (takeLamportSnapshot ?e) = Inl err"
    by (simp add: ReconstructEntryWithSkewBound_def ReconstructEntry_def eventOf_def readFixed_def ex_frame_def ex_sha_def Let_def)
  then obtain err where "ApplyCRDTDeltaBatch ex_sha ?mh isortCmp (\<lambda>x. x)
      (\<lambda>w. Inr [eventOf [97] w ex_frame, eventOf [97] [] ex_frame]) [1, 2, 3] ?e = Some (Some err, ?e)"
    using r by (auto simp: ApplyCRDTDeltaBatch_def ver Let_def)
  then show ?thesis using a l by blast
qed

end
