(* ===== verification/Engine_Type.thy ===== *)
theory Engine_Type
  imports Apply
begin

text \<open>
  The engine as an abstract data type. The step relation lists every operation of
  \<^verbatim>\<open>pkg/sync/crdt.go\<close>, \<^verbatim>\<open>crdt_apply.go\<close> and \<^verbatim>\<open>crdt_apply_batch.go\<close> that changes an open engine; the well-formedness of
  an engine is its type. Every state that the operations reach from a new engine is well formed, and in
  a well-formed state no operation panics or finds an error of its own making.
\<close>

inductive engine_step ::
  "hasher \<Rightarrow> ((incomingEntry \<Rightarrow> incomingEntry \<Rightarrow> int) \<Rightarrow> incomingEntry list \<Rightarrow> incomingEntry list) \<Rightarrow>
     (real \<Rightarrow> real) \<Rightarrow> (bytes \<Rightarrow> bytes) \<Rightarrow> DeltaCRDTEngine \<Rightarrow> DeltaCRDTEngine \<Rightarrow> bool"
  for mh sortFunc f64 sha256 where
  step_insert:
    "InsertLocal mh k entry e = Some (dot, e') \<Longrightarrow> lamportCounter e \<noteq> MaxUint64 \<Longrightarrow>
     engine_step mh sortFunc f64 sha256 e e'"
| step_join: "Join mh sortFunc f64 delta e = Some e' \<Longrightarrow> engine_step mh sortFunc f64 sha256 e e'"
| step_event:
    "ApplyCRDTDeltaEvent sha256 mh sortFunc f64 decodeEvent wire e = Some (err, e') \<Longrightarrow>
     engine_step mh sortFunc f64 sha256 e e'"
| step_batch:
    "ApplyCRDTDeltaBatch sha256 mh sortFunc f64 decodeBatch wire e = Some (err, e') \<Longrightarrow>
     engine_step mh sortFunc f64 sha256 e e'"
| step_reshard:
    "SetShardCount mh mkSeed n e = Some e' \<Longrightarrow> n < 2 ^ 63 \<Longrightarrow> engine_step mh sortFunc f64 sha256 e e'"
| step_dot: "lamportCounter e \<noteq> MaxUint64 \<Longrightarrow> engine_step mh sortFunc f64 sha256 e (snd (NextDot e))"
| step_advance: "engine_step mh sortFunc f64 sha256 e (AdvanceLamportTo f64 c e)"
| step_horizon: "engine_step mh sortFunc f64 sha256 e (SetLamportHorizonSeconds h e)"
| step_slack: "engine_step mh sortFunc f64 sha256 e (SetLamportAbsoluteSlack s e)"

text \<open>The type: a sharded trie of dot-ordered leaves under the clock, of an open engine of one node.\<close>

definition engine_type :: "hasher \<Rightarrow> bytes \<Rightarrow> DeltaCRDTEngine \<Rightarrow> bool" where
  "engine_type mh nodeID e \<longleftrightarrow> eng_ok mh e \<and> lamport_ok e \<and> \<not> closing e \<and> localNodeID e = nodeID"

lemma engine_typeD:
  assumes "engine_type mh nodeID e"
  shows "eng_ok mh e" "lamport_ok e" "\<not> closing e" "localNodeID e = nodeID"
  using assms by (simp_all add: engine_type_def)

lemma engine_type_cong:
  assumes "engine_type mh nodeID e" "shards e' = shards e" "routeSeed e' = routeSeed e"
    and "lamportCounter e \<le> lamportCounter e'" "closing e' = closing e" "localNodeID e' = localNodeID e"
  shows "engine_type mh nodeID e'"
proof -
  note t = engine_typeD [OF assms(1)]
  have ok: "eng_ok mh e'" using t(1) eng_cong(1) [OF assms(2,3)] by simp
  have "eng_map mh e' = eng_map mh e" using eng_cong(2) [OF assms(2,3)] by (simp add: eng_map_def fun_eq_iff)
  then have "lamport_ok e'"
    using lamport_okI [OF ok] lamport_okD [OF t(1,2)] order_trans [OF _ assms(4)] by metis
  then show ?thesis using ok t assms(5,6) by (simp add: engine_type_def)
qed

lemma Join_type:
  assumes "engine_type mh nodeID e" "sort_ok sortFunc" "Join mh sortFunc f64 delta e = Some e'"
  shows "engine_type mh nodeID e'"
  using engine_typeD [OF assms(1)] Join_ok [OF _ assms(2,3)] Join_lamport_ok [OF _ assms(2,3)] Join_frame [OF assms(3)]
  by (simp add: engine_type_def)

lemma InsertLocal_type:
  assumes "engine_type mh nodeID e" "InsertLocal mh k entry e = Some (dot, e')" "lamportCounter e \<noteq> MaxUint64"
  shows "engine_type mh nodeID e'"
proof -
  note t = engine_typeD [OF assms(1)]
  obtain e1 where e1: "InsertLocal mh k entry e = Some (CausalDot (localNodeID e) (lamportCounter e + 1), e1)"
    "eng_ok mh e1" "lamport_ok e1" by (rule InsertLocal_spec [OF t(1,2) assms(3) t(3), of k entry])
  have "closing e' = closing e \<and> localNodeID e' = localNodeID e"
    using assms(2) NextDot_spec [of e] by (auto simp: InsertLocal_def Let_def split: if_splits prod.splits)
  then show ?thesis using e1 assms(2) t by (simp add: engine_type_def)
qed

lemma SetShardCount_frame:
  assumes "SetShardCount mh mk n e = Some e'"
  shows "closing e' = closing e \<and> localNodeID e' = localNodeID e \<and> lamportCounter e' = lamportCounter e"
proof -
  have f0: "closing (snd (reemit mh k es x)) = closing x" "localNodeID (snd (reemit mh k es x)) = localNodeID x"
    "lamportCounter (snd (reemit mh k es x)) = lamportCounter x" for k es x
    by (simp_all add: reemit_def Let_def)
  have f: "closing (fold (\<lambda>(k, es) e. snd (reemit mh k es e)) kvs x) = closing x \<and>
      localNodeID (fold (\<lambda>(k, es) e. snd (reemit mh k es e)) kvs x) = localNodeID x \<and>
      lamportCounter (fold (\<lambda>(k, es) e. snd (reemit mh k es e)) kvs x) = lamportCounter x" for kvs x
    by (induction kvs arbitrary: x) (simp_all add: f0 split_def)
  have re: "reemit mh = (\<lambda>k es e. (True, snd (reemit mh k es e)))"
    by (simp add: reemit_def Let_def fun_eq_iff)
  have "fold (\<lambda>r e. ForEach (reemit mh) r e) rs x =
      fold (\<lambda>(k, es) e. snd (reemit mh k es e)) (concat (map hamt_binds rs)) x" for rs x
    by (subst re) (rule fold_ForEach)
  with assms show ?thesis unfolding SetShardCount_def by (simp split: if_splits) (auto simp: f)
qed

lemma SetShardCount_type:
  assumes "engine_type mh nodeID e" "SetShardCount mh mk n e = Some e'" "n < 2 ^ 63"
  shows "engine_type mh nodeID e'"
proof -
  note t = engine_typeD [OF assms(1)] and s = SetShardCount_spec [OF engine_typeD(1) [OF assms(1)] assms(3,2)]
  have ok: "eng_ok mh e'" using s by blast
  have "eng_map mh e' = eng_map mh e" using s by (simp add: eng_map_def fun_eq_iff)
  then have "lamport_ok e'"
    using lamport_okI [OF ok] lamport_okD [OF t(1,2)] SetShardCount_frame [OF assms(2)] by metis
  then show ?thesis using ok t SetShardCount_frame [OF assms(2)] by (simp add: engine_type_def)
qed

lemma Apply_Join:
  "ApplyCRDTDeltaEvent sha256 mh sortFunc f64 decodeEvent wire e = Some (err, e') \<Longrightarrow>
   e' = e \<or> (\<exists>delta. Join mh sortFunc f64 delta e = Some e')"
  "ApplyCRDTDeltaBatch sha256 mh sortFunc f64 decodeBatch wire e = Some (err, e') \<Longrightarrow>
   e' = e \<or> (\<exists>delta. Join mh sortFunc f64 delta e = Some e')"
  by (auto simp: ApplyCRDTDeltaEvent_def ApplyCRDTDeltaBatch_def Let_def split: sum.splits if_splits)

lemma Apply_defined:
  assumes "\<not> closing e"
  shows "ApplyCRDTDeltaEvent sha256 mh sortFunc f64 decodeEvent wire e \<noteq> None"
    and "ApplyCRDTDeltaBatch sha256 mh sortFunc f64 decodeBatch wire e \<noteq> None"
  using Join_Some [OF assms, of mh sortFunc f64]
  by (auto simp: ApplyCRDTDeltaEvent_def ApplyCRDTDeltaBatch_def Let_def split: sum.splits)

lemma engine_step_type:
  assumes "engine_step mh sortFunc f64 sha256 e e'" "engine_type mh nodeID e" "sort_ok sortFunc"
  shows "engine_type mh nodeID e'"
  using assms(1)
proof cases
  case (step_insert k entry dot)
  then show ?thesis using InsertLocal_type [OF assms(2)] by blast
next
  case (step_event decodeEvent wire err)
  then show ?thesis using Apply_Join(1) Join_type [OF assms(2,3)] assms(2) by blast
next
  case (step_batch decodeBatch wire err)
  then show ?thesis using Apply_Join(2) Join_type [OF assms(2,3)] assms(2) by blast
next
  case step_dot
  obtain dot e1 where n: "NextDot e = (dot, e1)" by force
  have "lamportCounter e \<le> lamportCounter e + 1" using less_plus_1 [OF step_dot(2)] by simp
  with NextDot_spec [OF n] show ?thesis
    unfolding step_dot(1) n snd_conv by (intro engine_type_cong [OF assms(2)]) simp_all
next
  case (step_advance c)
  show ?thesis unfolding step_advance by (rule engine_type_cong [OF assms(2)]) simp_all
next
  case (step_horizon h)
  show ?thesis
    unfolding step_horizon by (rule engine_type_cong [OF assms(2)]) (simp_all add: SetLamportHorizonSeconds_def)
next
  case (step_slack s)
  show ?thesis
    unfolding step_slack by (rule engine_type_cong [OF assms(2)]) (simp_all add: SetLamportAbsoluteSlack_def)
qed (use Join_type [OF assms(2,3)] SetShardCount_type [OF assms(2)] in blast)+

lemma engine_run_type:
  assumes "(engine_step mh sortFunc f64 sha256)\<^sup>*\<^sup>* e e'" "engine_type mh nodeID e" "sort_ok sortFunc"
  shows "engine_type mh nodeID e'"
  using assms(1) by induction (use engine_step_type [OF _ _ assms(3)] assms(2) in blast)+

lemma engine_progress:
  assumes "\<not> closing e"
  shows "InsertLocal mh k entry e \<noteq> None" "Join mh sortFunc f64 delta e \<noteq> None"
  using Join_Some [OF assms, of mh sortFunc f64 delta] assms by (auto simp: InsertLocal_def Let_def split: prod.splits)

text \<open>
  C5. Type safety of the engine. In every state that any sequence of local insertions, joins, applied
  events and batches, re-shardings and clock operations reaches from a new engine, below the end of the
  clock, (preservation) every shard is a well-formed trie that holds only entities routed to it, every
  leaf is non-empty and strictly ordered by dot, and no stored counter exceeds the clock; and (progress)
  local insertion, \<^verbatim>\<open>Join\<close> and both apply operations return, the stitched \<^verbatim>\<open>State\<close> is well formed, and
  \<^verbatim>\<open>SetShardCount\<close> panics exactly on counts that are not positive powers of two.
\<close>

theorem engine_type_safety:
  assumes "sort_ok sortFunc"
    and "(engine_step mh sortFunc f64 sha256)\<^sup>*\<^sup>* (NewDeltaCRDTEngine mk rs idle nodeID c rec) e"
  shows "engine_type mh nodeID e \<and> hamt_ok mh (State mh sd e) \<and>
    (\<forall>k. leaf_ok (PointGet mh k e)) \<and>
    (\<forall>k entry. InsertLocal mh k entry e \<noteq> None) \<and>
    (\<forall>delta. Join mh sortFunc f64 delta e \<noteq> None) \<and>
    (\<forall>dec wire. ApplyCRDTDeltaEvent sha256 mh sortFunc f64 dec wire e \<noteq> None) \<and>
    (\<forall>dec wire. ApplyCRDTDeltaBatch sha256 mh sortFunc f64 dec wire e \<noteq> None) \<and>
    (\<forall>mk n. SetShardCount mh mk n e = None \<longleftrightarrow> n < 1 \<or> n AND (n - 1) \<noteq> 0)"
proof -
  have "engine_type mh nodeID (NewDeltaCRDTEngine mk rs idle nodeID c rec)"
    by (simp add: engine_type_def NewEngine_ok NewEngine_lamport_ok)
  from engine_run_type [OF assms(2) this assms(1)] have t: "engine_type mh nodeID e" .
  note d = engine_typeD [OF t]
  show ?thesis
    using t State_ok [OF d(1)] PointGet_leaf_ok [OF d(1)] engine_progress [OF d(3)] Apply_defined [OF d(3)]
    by (simp add: SetShardCount_def)
qed

theorem engine_type_safety_witness:
  "\<exists>e dot. InsertLocal (\<lambda>_ _. 0) [97] (ex_entry 9) (ex_replica 5 1) = Some (dot, e) \<and>
     engine_type (\<lambda>_ _. 0) (replicate 16 1) e \<and> leaf_ok (PointGet (\<lambda>_ _. 0) [97] e)"
proof -
  have l: "lamportCounter (ex_replica 5 1) \<noteq> MaxUint64" by (simp add: ex_replica_def)
  obtain dot e where i: "InsertLocal (\<lambda>_ _. 0) [97] (ex_entry 9) (ex_replica 5 1) = Some (dot, e)"
    using engine_progress(1) [OF ex_replica_facts(3), of "\<lambda>_ _. 0" "[97]" "ex_entry 9" 5 1] by auto
  have "engine_step (\<lambda>_ _. 0) isortCmp (\<lambda>x. x) (\<lambda>x. x) (ex_replica 5 1) e" by (rule step_insert [OF i l])
  then have "(engine_step (\<lambda>_ _. 0) isortCmp (\<lambda>x. x) (\<lambda>x. x))\<^sup>*\<^sup>*
      (NewDeltaCRDTEngine of_nat 5 (\<lambda>_. True) (replicate 16 1) 0 None) e" by (simp add: ex_replica_def)
  from engine_type_safety [OF isortCmp_sort_ok this] i show ?thesis by blast
qed

end
