(* ===== verification/Iblt.thy ===== *)
theory Iblt
  imports Engine "HOL-Library.While_Combinator"
begin

text \<open>
  The invertible Bloom lookup table of \<^verbatim>\<open>pkg/sync/iblt.go\<close>: insertion, deletion, subtraction, the
  peeling loop with its queue compaction, and the strata estimator. \<^verbatim>\<open>maphash\<close> is an argument. The
  peeling loop is a \<^term>\<open>while_option\<close>: its value is \<^term>\<open>None\<close> when the loop does not end. A bucket is an
  element of the abelian group \<^verbatim>\<open>int32 x uint64 x uint64\<close> with wrap-around addition and exclusive
  or, so that the algebra of tables is that of sums.
\<close>

section \<open>Buckets\<close>

datatype Bucket = Bucket (Count: u32) (KeySum: u64) (HashSum: u64)

instantiation Bucket :: ab_group_add
begin

definition zero_Bucket :: Bucket where
  "0 = Bucket 0 0 0"

definition plus_Bucket :: "Bucket \<Rightarrow> Bucket \<Rightarrow> Bucket" where
  "a + b = Bucket (Count a + Count b) (KeySum a XOR KeySum b) (HashSum a XOR HashSum b)"

definition minus_Bucket :: "Bucket \<Rightarrow> Bucket \<Rightarrow> Bucket" where
  "a - b = Bucket (Count a - Count b) (KeySum a XOR KeySum b) (HashSum a XOR HashSum b)"

definition uminus_Bucket :: "Bucket \<Rightarrow> Bucket" where
  "- a = Bucket (- Count a) (KeySum a) (HashSum a)"

instance
  by standard
     (auto simp: zero_Bucket_def plus_Bucket_def minus_Bucket_def uminus_Bucket_def xor.assoc
       xor.commute xor.left_commute intro: Bucket.expand)

end

section \<open>The table\<close>

record IBLT =
  buckets :: "Bucket list"
  ibltK :: nat
  ibltSeed :: Seed

definition ibltMaxK :: nat where "ibltMaxK = 8"

text \<open>\<^verbatim>\<open>NewIBLTWithSeed\<close>; \<^verbatim>\<open>None\<close> is the panic on \<^verbatim>\<open>k\<close> out of range.\<close>

definition NewIBLTWithSeed :: "nat \<Rightarrow> nat \<Rightarrow> Seed \<Rightarrow> IBLT option" where
  "NewIBLTWithSeed numBuckets k sd =
     (if k = 0 \<or> k > ibltMaxK then None
      else Some \<lparr>buckets = replicate numBuckets 0, ibltK = k, ibltSeed = sd\<rparr>)"

definition NewIBLT :: "Seed \<Rightarrow> nat \<Rightarrow> nat \<Rightarrow> IBLT option" where
  "NewIBLT madeSeed numBuckets k =
     (if k = 0 \<or> k > ibltMaxK then None
      else Some \<lparr>buckets = replicate numBuckets 0, ibltK = k, ibltSeed = madeSeed\<rparr>)"

definition hashKeyWithSeed :: "hasher \<Rightarrow> IBLT \<Rightarrow> u64 \<Rightarrow> u64 \<times> u64 \<times> u64 \<times> u64" where
  "hashKeyWithSeed maphash t key =
     (let primaryHash = maphash (ibltSeed t) (le_bytes 8 key);
          h1 = primaryHash;
          h2 = drop_bit 32 primaryHash OR 1
      in (primaryHash, h1, h2, of_nat (length (buckets t))))"

text \<open>
  The \<^verbatim>\<open>k\<close> bucket indices of a key and its hash. The modulus is the number of buckets; the callers
  below treat the empty table, where Go panics on the division, separately.
\<close>

definition getHashesInto :: "hasher \<Rightarrow> IBLT \<Rightarrow> u64 \<Rightarrow> nat list \<times> u64" where
  "getHashesInto maphash t key =
     (case hashKeyWithSeed maphash t key of (primaryHash, h1, h2, n) \<Rightarrow>
        (map (\<lambda>i. unat ((h1 + of_nat i * h2) mod n)) [0..<ibltK t], primaryHash))"

definition bumpBucket :: "(Bucket \<Rightarrow> Bucket) \<Rightarrow> nat \<Rightarrow> Bucket list \<Rightarrow> Bucket list" where
  "bumpBucket f idx bs = bs[idx := f (bs ! idx)]"

definition IBLT_Insert :: "hasher \<Rightarrow> u64 \<Rightarrow> IBLT \<Rightarrow> IBLT option" where
  "IBLT_Insert maphash key t =
     (if buckets t = [] then None
      else case getHashesInto maphash t key of (indices, hashSum) \<Rightarrow>
        Some (t\<lparr>buckets := fold (bumpBucket (\<lambda>b. Bucket (Count b + 1) (KeySum b XOR key) (HashSum b XOR hashSum)))
                            indices (buckets t)\<rparr>))"

definition IBLT_Delete :: "hasher \<Rightarrow> u64 \<Rightarrow> IBLT \<Rightarrow> IBLT option" where
  "IBLT_Delete maphash key t =
     (if buckets t = [] then None
      else case getHashesInto maphash t key of (indices, hashSum) \<Rightarrow>
        Some (t\<lparr>buckets := fold (bumpBucket (\<lambda>b. Bucket (Count b - 1) (KeySum b XOR key) (HashSum b XOR hashSum)))
                            indices (buckets t)\<rparr>))"

text \<open>\<^verbatim>\<open>Subtract\<close>; \<^verbatim>\<open>None\<close> is the error on a configuration mismatch.\<close>

definition Subtract :: "IBLT \<Rightarrow> IBLT \<Rightarrow> IBLT option" where
  "Subtract t other =
     (if length (buckets t) \<noteq> length (buckets other) \<or> ibltK t \<noteq> ibltK other then None
      else Some \<lparr>buckets = map2 (\<lambda>a b. Bucket (Count a - Count b) (KeySum a XOR KeySum b) (HashSum a XOR HashSum b))
                              (buckets t) (buckets other),
                 ibltK = ibltK t, ibltSeed = ibltSeed t\<rparr>)"

definition isPureCount :: "u32 \<Rightarrow> bool" where
  "isPureCount c \<longleftrightarrow> c = 1 \<or> c = - 1"

definition isPure :: "hasher \<Rightarrow> IBLT \<Rightarrow> nat \<Rightarrow> bool" where
  "isPure maphash t idx =
     (let b = buckets t ! idx in
      if Count b \<noteq> 1 \<and> Count b \<noteq> - 1 then False
      else HashSum b = snd (getHashesInto maphash t (KeySum b)))"

section \<open>Peeling\<close>

record PeelState =
  peelTable :: IBLT
  pureQueue :: "nat list"
  peelHead :: nat
  localHas :: "u64 list"
  remoteHas :: "u64 list"

text \<open>Removal of a key from one of its buckets, with the purity test that follows it.\<close>

definition cascadeTarget :: "hasher \<Rightarrow> bool \<Rightarrow> u64 \<Rightarrow> u64 \<Rightarrow> nat \<Rightarrow> IBLT \<times> nat list \<Rightarrow> IBLT \<times> nat list" where
  "cascadeTarget maphash positive key hashSum targetIdx st =
     (case st of (t, q) \<Rightarrow>
        let t' = t\<lparr>buckets := bumpBucket
                     (\<lambda>b. Bucket (if positive then Count b - 1 else Count b + 1)
                                 (KeySum b XOR key) (HashSum b XOR hashSum))
                     targetIdx (buckets t)\<rparr>
        in (t', if isPure maphash t' targetIdx then q @ [targetIdx] else q))"

text \<open>One round of the peeling loop; a \<^verbatim>\<open>continue\<close> skips the compaction.\<close>

definition peelRound :: "hasher \<Rightarrow> PeelState \<Rightarrow> PeelState" where
  "peelRound maphash st =
     (let idx = pureQueue st ! peelHead st;
          st1 = st\<lparr>peelHead := peelHead st + 1\<rparr>;
          b = buckets (peelTable st1) ! idx
      in if \<not> isPureCount (Count b) then st1
         else if \<not> isPure maphash (peelTable st1) idx then st1
         else
           let key = KeySum b;
               positive = (sint (Count b) > 0);
               (targets, hashSum) = getHashesInto maphash (peelTable st1) key;
               (t', q') = fold (cascadeTarget maphash positive key hashSum) targets
                            (peelTable st1, pureQueue st1);
               st2 = st1\<lparr>peelTable := t', pureQueue := q',
                         localHas := (if positive then localHas st1 @ [key] else localHas st1),
                         remoteHas := (if positive then remoteHas st1 else remoteHas st1 @ [key])\<rparr>
           in if peelHead st2 \<ge> 16 \<and> peelHead st2 * 2 \<ge> length (pureQueue st2)
              then st2\<lparr>pureQueue := drop (peelHead st2) (pureQueue st2), peelHead := 0\<rparr>
              else st2)"

definition peelStart :: "hasher \<Rightarrow> IBLT \<Rightarrow> PeelState" where
  "peelStart maphash t =
     \<lparr>peelTable = t, pureQueue = filter (isPure maphash t) [0..<length (buckets t)], peelHead = 0,
      localHas = [], remoteHas = []\<rparr>"

definition peelLoop :: "hasher \<Rightarrow> PeelState \<Rightarrow> PeelState option" where
  "peelLoop maphash = while_option (\<lambda>st. peelHead st < length (pureQueue st)) (peelRound maphash)"

text \<open>The result of \<^verbatim>\<open>Peel\<close>: both key lists, and whether the peel is complete (no error).\<close>

definition Peel :: "hasher \<Rightarrow> IBLT \<Rightarrow> (u64 list \<times> u64 list \<times> bool) option" where
  "Peel maphash t =
     (case peelLoop maphash (peelStart maphash t) of
        None \<Rightarrow> None
      | Some st \<Rightarrow> Some (localHas st, remoteHas st,
          list_all (\<lambda>b. \<not> (Count b \<noteq> 0 \<or> KeySum b \<noteq> 0 \<or> HashSum b \<noteq> 0)) (buckets (peelTable st))))"

text \<open>
  The arena variants take the memory of the result from the arena and compute the same values: an
  append beyond the capacity of an arena slice moves it to the heap.
\<close>

definition subtractArena :: "IBLT \<Rightarrow> IBLT \<Rightarrow> IBLT option" where
  "subtractArena t other =
     (if length (buckets t) \<noteq> length (buckets other) \<or> ibltK t \<noteq> ibltK other then Subtract t other
      else Some \<lparr>buckets = map2 (\<lambda>a b. Bucket (Count a - Count b) (KeySum a XOR KeySum b) (HashSum a XOR HashSum b))
                              (buckets t) (buckets other),
                 ibltK = ibltK t, ibltSeed = ibltSeed t\<rparr>)"

definition PeelArena :: "hasher \<Rightarrow> IBLT \<Rightarrow> (u64 list \<times> u64 list \<times> bool) option" where
  "PeelArena maphash t =
     (case peelLoop maphash (peelStart maphash t) of
        None \<Rightarrow> None
      | Some st \<Rightarrow> Some (localHas st, remoteHas st,
          list_all (\<lambda>b. \<not> (Count b \<noteq> 0 \<or> KeySum b \<noteq> 0 \<or> HashSum b \<noteq> 0)) (buckets (peelTable st))))"

section \<open>Strata estimator\<close>

definition strataCount :: nat where "strataCount = 32"
definition strataIBLTBuckets :: nat where "strataIBLTBuckets = 80"
definition strataK :: nat where "strataK = 3"
definition ibltSafetyFactor :: int where "ibltSafetyFactor = 3"
definition minDynamicBuckets :: int where "minDynamicBuckets = 128"

record StrataEstimator =
  strata :: "IBLT list"
  strataSeed :: Seed

definition NewStrataEstimator :: "Seed \<Rightarrow> StrataEstimator" where
  "NewStrataEstimator sd =
     \<lparr>strata = map (\<lambda>_. the (NewIBLTWithSeed strataIBLTBuckets strataK sd)) [0..<strataCount],
      strataSeed = sd\<rparr>"

definition deBruijn :: u64 where "deBruijn = 0x03f79d71b4ca8b09"

definition deBruijnTable :: "nat list" where
  "deBruijnTable =
     [0, 1, 56, 2, 57, 49, 28, 3, 61, 58, 42, 50, 38, 29, 17, 4,
      62, 47, 59, 36, 45, 43, 51, 22, 53, 39, 33, 30, 24, 18, 12, 5,
      63, 55, 48, 27, 60, 41, 37, 16, 46, 35, 44, 21, 52, 32, 23, 11,
      54, 26, 40, 15, 34, 20, 31, 10, 25, 14, 19, 9, 13, 8, 7, 6]"

definition trailingZeros64 :: "u64 \<Rightarrow> nat" where
  "trailingZeros64 x =
     (if x = 0 then 64 else deBruijnTable ! unat (drop_bit 58 ((x AND - x) * deBruijn)))"

definition Strata_Insert :: "hasher \<Rightarrow> u64 \<Rightarrow> StrataEstimator \<Rightarrow> StrataEstimator option" where
  "Strata_Insert maphash key se =
     (let s0 = trailingZeros64 key;
          s = (if s0 \<ge> strataCount then strataCount - 1 else s0)
      in case IBLT_Insert maphash key (strata se ! s) of
           None \<Rightarrow> None
         | Some t \<Rightarrow> Some (se\<lparr>strata := (strata se)[s := t]\<rparr>))"

text \<open>
  \<^verbatim>\<open>Estimate\<close>, from stratum \<^verbatim>\<open>n - 1\<close> down to 0 with the count so far. Go's \<^verbatim>\<open>int\<close> is a 64-bit word,
  so that the shift drops the high bits. \<^verbatim>\<open>None\<close>: a peel does not end.
\<close>

fun estimateFrom :: "hasher \<Rightarrow> IBLT list \<Rightarrow> IBLT list \<Rightarrow> nat \<Rightarrow> i64 \<Rightarrow> i64 option" where
  "estimateFrom maphash ls rs 0 cnt = Some cnt"
| "estimateFrom maphash ls rs (Suc s) cnt =
     (case Subtract (ls ! s) (rs ! s) of
        None \<Rightarrow> Some (push_bit (s + 1) cnt)
      | Some diff \<Rightarrow>
          (case Peel maphash diff of
             None \<Rightarrow> None
           | Some (l, r, full) \<Rightarrow>
               let cnt' = cnt + of_nat (length l) + of_nat (length r) in
               if \<not> full then Some (push_bit (s + 1) cnt')
               else estimateFrom maphash ls rs s cnt'))"

definition Estimate :: "hasher \<Rightarrow> StrataEstimator \<Rightarrow> StrataEstimator \<Rightarrow> i64 option" where
  "Estimate maphash se remote = estimateFrom maphash (strata se) (strata remote) strataCount 0"

definition quot2 :: "int \<Rightarrow> int" where
  "quot2 x = (if x \<ge> 0 then x div 2 else - ((- x) div 2))"

definition DynamicIBLTSize :: "i64 \<Rightarrow> int" where
  "DynamicIBLTSize dEst =
     (let size = quot2 (sint (dEst * of_int ibltSafetyFactor)) in
      if size < minDynamicBuckets then minDynamicBuckets else size)"

definition NewDynamicIBLT :: "i64 \<Rightarrow> nat \<Rightarrow> Seed \<Rightarrow> IBLT option" where
  "NewDynamicIBLT dEst k sd = NewIBLTWithSeed (nat (DynamicIBLTSize dEst)) k sd"

section \<open>The algebra of tables\<close>

abbreviation cell :: "IBLT \<Rightarrow> nat \<Rightarrow> Bucket" where
  "cell t j \<equiv> buckets t ! j"

definition same_shape :: "IBLT \<Rightarrow> IBLT \<Rightarrow> bool" where
  "same_shape t t' \<longleftrightarrow>
     length (buckets t) = length (buckets t') \<and> ibltK t = ibltK t' \<and> ibltSeed t = ibltSeed t'"

definition table_ok :: "IBLT \<Rightarrow> bool" where
  "table_ok t \<longleftrightarrow> buckets t \<noteq> [] \<and> length (buckets t) < 2 ^ 63"

definition keyUnit :: "hasher \<Rightarrow> IBLT \<Rightarrow> u64 \<Rightarrow> Bucket" where
  "keyUnit maphash t key = Bucket 1 key (snd (getHashesInto maphash t key))"

text \<open>What one insertion of a key adds to bucket \<^verbatim>\<open>j\<close>: one unit for each index that hits it.\<close>

definition contrib :: "hasher \<Rightarrow> IBLT \<Rightarrow> u64 \<Rightarrow> nat \<Rightarrow> Bucket" where
  "contrib maphash t key j =
     (\<Sum>i\<leftarrow>fst (getHashesInto maphash t key). if i = j then keyUnit maphash t key else 0)"

lemma Bucket_plus_unit: "Bucket (Count b + 1) (KeySum b XOR k) (HashSum b XOR h) = b + Bucket 1 k h"
  by (simp add: plus_Bucket_def)

lemma Bucket_minus_unit: "Bucket (Count b - 1) (KeySum b XOR k) (HashSum b XOR h) = b - Bucket 1 k h"
  by (simp add: minus_Bucket_def)

lemma same_shape_refl [simp]: "same_shape t t"
  by (simp add: same_shape_def)

lemma same_shape_trans: "same_shape a b \<Longrightarrow> same_shape b c \<Longrightarrow> same_shape a c"
  by (simp add: same_shape_def)

lemma same_shape_sym: "same_shape a b \<Longrightarrow> same_shape b a"
  by (simp add: same_shape_def)

lemma same_shape_hashes: "same_shape t t' \<Longrightarrow> getHashesInto mh t = getHashesInto mh t'"
  by (auto simp: same_shape_def getHashesInto_def hashKeyWithSeed_def Let_def fun_eq_iff)

lemma same_shape_contrib:
  assumes "same_shape t t'"
  shows "contrib mh t = contrib mh t'" "keyUnit mh t = keyUnit mh t'"
proof -
  show u: "keyUnit mh t = keyUnit mh t'"
    by (simp add: fun_eq_iff keyUnit_def same_shape_hashes [OF assms])
  show "contrib mh t = contrib mh t'"
    unfolding fun_eq_iff contrib_def u same_shape_hashes [OF assms] by simp
qed

lemma targets_less:
  assumes "table_ok t" "i \<in> set (fst (getHashesInto mh t key))"
  shows "i < length (buckets t)"
proof -
  have n: "unat (of_nat (length (buckets t)) :: u64) = length (buckets t)"
    using assms(1) by (simp add: table_ok_def unat_of_nat)
  obtain x where "i = unat (x mod (of_nat (length (buckets t)) :: u64))"
    using assms(2) by (auto simp: getHashesInto_def hashKeyWithSeed_def Let_def)
  then show ?thesis using assms(1) n by (simp add: unat_mod table_ok_def)
qed

lemma length_targets [simp]: "length (fst (getHashesInto mh t key)) = ibltK t"
  by (simp add: getHashesInto_def hashKeyWithSeed_def Let_def)

lemma length_fold_bump [simp]: "length (fold (bumpBucket f) is bs) = length bs"
  by (induction "is" arbitrary: bs) (auto simp: bumpBucket_def)

lemma fold_bump_add:
  "\<forall>i\<in>set is. i < length bs \<Longrightarrow> j < length bs \<Longrightarrow>
   fold (bumpBucket (\<lambda>b. b + u)) is bs ! j = bs ! j + (\<Sum>i\<leftarrow>is. if i = j then u else 0)"
  by (induction "is" arbitrary: bs) (auto simp: bumpBucket_def nth_list_update ac_simps)

lemma fold_bump_minus:
  "\<forall>i\<in>set is. i < length bs \<Longrightarrow> j < length bs \<Longrightarrow>
   fold (bumpBucket (\<lambda>b. b - u)) is bs ! j = bs ! j - (\<Sum>i\<leftarrow>is. if i = j then u else 0)"
  by (induction "is" arbitrary: bs) (auto simp: bumpBucket_def nth_list_update algebra_simps)

lemma Insert_cell:
  assumes "table_ok t" "IBLT_Insert mh key t = Some t'"
  shows "same_shape t' t" and "j < length (buckets t) \<Longrightarrow> cell t' j = cell t j + contrib mh t key j"
proof -
  have t': "t' = t\<lparr>buckets := fold (bumpBucket (\<lambda>b. b + keyUnit mh t key)) (fst (getHashesInto mh t key)) (buckets t)\<rparr>"
    using assms unfolding IBLT_Insert_def Bucket_plus_unit
    by (auto simp: keyUnit_def split: prod.splits if_splits)
  show "same_shape t' t" by (simp add: t' same_shape_def)
  show "j < length (buckets t) \<Longrightarrow> cell t' j = cell t j + contrib mh t key j"
    using targets_less [OF assms(1)] by (simp add: t' contrib_def fold_bump_add)
qed

lemma Delete_cell:
  assumes "table_ok t" "IBLT_Delete mh key t = Some t'"
  shows "same_shape t' t" and "j < length (buckets t) \<Longrightarrow> cell t' j = cell t j - contrib mh t key j"
proof -
  have t': "t' = t\<lparr>buckets := fold (bumpBucket (\<lambda>b. b - keyUnit mh t key)) (fst (getHashesInto mh t key)) (buckets t)\<rparr>"
    using assms unfolding IBLT_Delete_def Bucket_minus_unit
    by (auto simp: keyUnit_def split: prod.splits if_splits)
  show "same_shape t' t" by (simp add: t' same_shape_def)
  show "j < length (buckets t) \<Longrightarrow> cell t' j = cell t j - contrib mh t key j"
    using targets_less [OF assms(1)] by (simp add: t' contrib_def fold_bump_minus)
qed

lemma table_eqI:
  "same_shape a b \<Longrightarrow> (\<And>j. j < length (buckets a) \<Longrightarrow> cell a j = cell b j) \<Longrightarrow> a = (b :: IBLT)"
  by (rule IBLT.equality) (auto simp: same_shape_def intro: nth_equalityI)

lemma same_shape_ok: "same_shape a b \<Longrightarrow> table_ok b \<Longrightarrow> table_ok a"
  by (auto simp: same_shape_def table_ok_def)

lemma Insert_Some: "table_ok t \<Longrightarrow> \<exists>t'. IBLT_Insert mh key t = Some t'"
  by (auto simp: IBLT_Insert_def table_ok_def split: prod.splits)

text \<open>A sequence of insertions.\<close>

primrec insertAll :: "hasher \<Rightarrow> u64 list \<Rightarrow> IBLT \<Rightarrow> IBLT option" where
  "insertAll mh [] t = Some t"
| "insertAll mh (x # xs) t = (case IBLT_Insert mh x t of None \<Rightarrow> None | Some t' \<Rightarrow> insertAll mh xs t')"

lemma insertAll_cell:
  assumes "table_ok t" "insertAll mh xs t = Some t'"
  shows "same_shape t' t" and "j < length (buckets t) \<Longrightarrow> cell t' j = cell t j + (\<Sum>x\<leftarrow>xs. contrib mh t x j)"
proof -
  have "same_shape t' t \<and> (j < length (buckets t) \<longrightarrow> cell t' j = cell t j + (\<Sum>x\<leftarrow>xs. contrib mh t x j))"
    using assms
  proof (induction xs arbitrary: t)
    case (Cons x xs)
    then obtain t1 where t1: "IBLT_Insert mh x t = Some t1" "insertAll mh xs t1 = Some t'"
      by (auto split: option.splits)
    note c = Insert_cell [OF Cons.prems(1) t1(1)]
    have "same_shape t' t1 \<and> (j < length (buckets t1) \<longrightarrow> cell t' j = cell t1 j + (\<Sum>x\<leftarrow>xs. contrib mh t1 x j))"
      by (rule Cons.IH [OF same_shape_ok [OF c(1) Cons.prems(1)] t1(2)])
    then show ?case
      using c same_shape_contrib(1) [OF c(1), of mh] by (auto simp: same_shape_def add.assoc)
  qed auto
  then show "same_shape t' t" "j < length (buckets t) \<Longrightarrow> cell t' j = cell t j + (\<Sum>x\<leftarrow>xs. contrib mh t x j)"
    by auto
qed

lemma insertAll_Some: "table_ok t \<Longrightarrow> \<exists>t'. insertAll mh xs t = Some t'"
proof (induction xs arbitrary: t)
  case (Cons x xs)
  obtain t1 where t1: "IBLT_Insert mh x t = Some t1" using Insert_Some [OF Cons.prems] by blast
  then show ?case
    using Cons.IH [OF same_shape_ok [OF Insert_cell(1) [OF Cons.prems t1] Cons.prems]] by simp
qed simp

lemma Subtract_cell:
  assumes "Subtract a b = Some d"
  shows "same_shape d a" "length (buckets b) = length (buckets a)"
    "j < length (buckets a) \<Longrightarrow> cell d j = cell a j - cell b j"
  using assms by (auto simp: Subtract_def same_shape_def minus_Bucket_def split: if_splits)

end
