(* ===== verification/Iblt_Wire.thy ===== *)
theory Iblt_Wire
  imports Iblt
begin

text \<open>
  The wire formats of \<^verbatim>\<open>pkg/sync/iblt_wire.go\<close>: a table as an 18-byte header and 20 bytes for each
  bucket, a strata estimator as a 13-byte header and its tables one after the other. A nil pointer is
  \<^verbatim>\<open>None\<close>. A \<^verbatim>\<open>maphash.Seed\<close> is its backing word, so \<^verbatim>\<open>SeedToUint64\<close> and \<^verbatim>\<open>Uint64ToSeed\<close> are the
  identity.
\<close>

section \<open>Constants and errors\<close>

definition ibltWireMagic :: u32 where "ibltWireMagic = 0x49424C31"
definition ibltWireHeaderLen :: nat where "ibltWireHeaderLen = 4 + 4 + 2 + 8"
definition bucketWireLen :: nat where "bucketWireLen = 4 + 8 + 8"
definition maxFrameSizeBytes :: nat where "maxFrameSizeBytes = 16 * 2 ^ 20"
definition sizeofBucket :: nat where "sizeofBucket = 24"
definition maxIBLTBuckets :: nat where "maxIBLTBuckets = maxFrameSizeBytes div sizeofBucket"
definition strataWireMagic :: u32 where "strataWireMagic = 0x53545241"
definition strataWireHeaderLen :: nat where "strataWireHeaderLen = 4 + 1 + 8"

lemmas wire_consts = ibltWireHeaderLen_def bucketWireLen_def maxFrameSizeBytes_def sizeofBucket_def
  maxIBLTBuckets_def strataWireHeaderLen_def

datatype WireError =
    NilDigest
  | ShortHeader nat
  | MagicMismatch u32
  | ErrIBLTTooLarge nat
  | KOutOfRange nat
  | ShortBucketArray nat nat
  | NilEstimator
  | ErrMalformedStrata "WireError option"

definition SeedToUint64 :: "Seed \<Rightarrow> u64" where "SeedToUint64 s = s"
definition Uint64ToSeed :: "u64 \<Rightarrow> Seed" where "Uint64ToSeed w = w"

section \<open>Tables\<close>

definition marshalBucket :: "Bucket \<Rightarrow> bytes" where
  "marshalBucket b = le_bytes 4 (Count b) @ le_bytes 8 (KeySum b) @ le_bytes 8 (HashSum b)"

definition MarshalIBLT :: "IBLT option \<Rightarrow> WireError + bytes" where
  "MarshalIBLT ot = (case ot of None \<Rightarrow> Inl NilDigest | Some t \<Rightarrow>
     Inr (le_bytes 4 ibltWireMagic @
          le_bytes 4 (of_nat (length (buckets t)) :: u32) @
          le_bytes 2 (of_nat (ibltK t) :: u16) @
          le_bytes 8 (SeedToUint64 (ibltSeed t)) @
          concat (map marshalBucket (buckets t))))"

definition unmarshalBucket :: "bytes \<Rightarrow> nat \<Rightarrow> Bucket" where
  "unmarshalBucket wire i =
     (let off = ibltWireHeaderLen + i * bucketWireLen in
      Bucket (of_le (gslice off (off + 4) wire)) (of_le (gslice (off + 4) (off + 12) wire))
             (of_le (gslice (off + 12) (off + 20) wire)))"

definition UnmarshalIBLT :: "bytes \<Rightarrow> WireError + IBLT" where
  "UnmarshalIBLT wire =
     (if length wire < ibltWireHeaderLen then Inl (ShortHeader (length wire))
      else if of_le (gslice 0 4 wire) \<noteq> ibltWireMagic then Inl (MagicMismatch (of_le (gslice 0 4 wire)))
      else let n = unat (of_le (gslice 4 8 wire) :: u32) in
        if n > maxIBLTBuckets then Inl (ErrIBLTTooLarge n)
        else let k = unat (of_le (gslice 8 10 wire) :: u16) in
          if k = 0 \<or> k > ibltMaxK then Inl (KOutOfRange k)
          else if length wire < ibltWireHeaderLen + n * bucketWireLen
          then Inl (ShortBucketArray (length wire) n)
          else Inr \<lparr>buckets = map (unmarshalBucket wire) [0..<n], ibltK = k,
                    ibltSeed = Uint64ToSeed (of_le (gslice 10 18 wire))\<rparr>)"

section \<open>Estimators\<close>

fun marshalStrata :: "IBLT list \<Rightarrow> WireError + bytes" where
  "marshalStrata [] = Inr []"
| "marshalStrata (t # ts) =
     (case MarshalIBLT (Some t) of Inl e \<Rightarrow> Inl e | Inr b \<Rightarrow>
        (case marshalStrata ts of Inl e \<Rightarrow> Inl e | Inr bs \<Rightarrow> Inr (b @ bs)))"

definition MarshalStrataEstimator :: "StrataEstimator option \<Rightarrow> WireError + bytes" where
  "MarshalStrataEstimator ose = (case ose of None \<Rightarrow> Inl NilEstimator | Some se \<Rightarrow>
     (case marshalStrata (take strataCount (strata se)) of
        Inl e \<Rightarrow> Inl e
      | Inr body \<Rightarrow> Inr (le_bytes 4 strataWireMagic @ [of_nat strataCount] @
                         le_bytes 8 (SeedToUint64 (strataSeed se)) @ body)))"

primrec unmarshalStrata :: "nat \<Rightarrow> bytes \<Rightarrow> WireError + IBLT list" where
  "unmarshalStrata 0 wire = Inr []"
| "unmarshalStrata (Suc n) wire =
     (case UnmarshalIBLT wire of
        Inl e \<Rightarrow> Inl (ErrMalformedStrata (Some e))
      | Inr t \<Rightarrow>
          (case unmarshalStrata n (drop (ibltWireHeaderLen + length (buckets t) * bucketWireLen) wire) of
             Inl e \<Rightarrow> Inl e
           | Inr ts \<Rightarrow> Inr (t # ts)))"

definition UnmarshalStrataEstimator :: "bytes \<Rightarrow> WireError + StrataEstimator" where
  "UnmarshalStrataEstimator wire =
     (if length wire < strataWireHeaderLen then Inl (ErrMalformedStrata (Some (ShortHeader (length wire))))
      else if of_le (gslice 0 4 wire) \<noteq> strataWireMagic
      then Inl (ErrMalformedStrata (Some (MagicMismatch (of_le (gslice 0 4 wire)))))
      else if unat (wire ! 4) \<noteq> strataCount then Inl (ErrMalformedStrata None)
      else let seed = Uint64ToSeed (of_le (gslice 5 13 wire)) in
        (case unmarshalStrata strataCount (drop strataWireHeaderLen wire) of
           Inl e \<Rightarrow> Inl e
         | Inr ts \<Rightarrow> Inr ((NewStrataEstimator seed)\<lparr>strata := ts\<rparr>)))"

section \<open>Round trips\<close>

definition wire_table :: "IBLT \<Rightarrow> bool" where
  "wire_table t \<longleftrightarrow> length (buckets t) \<le> maxIBLTBuckets \<and> 0 < ibltK t \<and> ibltK t \<le> ibltMaxK"

lemma length_marshalBucket [simp]: "length (marshalBucket b) = bucketWireLen"
  by (simp add: marshalBucket_def bucketWireLen_def)

lemma length_marshalBuckets: "length (concat (map marshalBucket bs)) = length bs * bucketWireLen"
  by (induction bs) auto

lemma unmarshal_head:
  "length h = off \<Longrightarrow>
   Bucket (of_le (gslice off (off + 4) (h @ marshalBucket b @ r)))
          (of_le (gslice (off + 4) (off + 12) (h @ marshalBucket b @ r)))
          (of_le (gslice (off + 12) (off + 20) (h @ marshalBucket b @ r))) = b"
  using gslice_shift [of h off 0 4] gslice_shift [of h off 4 12] gslice_shift [of h off 12 20]
  by (cases b) (simp add: marshalBucket_def gslice_def of_le_le_bytes)

lemma unmarshalBucket_marshal:
  assumes "length h = ibltWireHeaderLen" "i < length bs"
  shows "unmarshalBucket (h @ concat (map marshalBucket bs) @ r) i = bs ! i"
proof -
  let ?off = "ibltWireHeaderLen + i * bucketWireLen"
  have "concat (map marshalBucket bs) = concat (map marshalBucket (take i bs)) @ marshalBucket (bs ! i) @
      concat (map marshalBucket (drop (Suc i) bs))"
    using id_take_nth_drop [OF assms(2)] by (metis concat.simps(2) concat_append list.simps(9) map_append)
  moreover have "length (h @ concat (map marshalBucket (take i bs))) = ?off"
    using assms by (simp add: length_marshalBuckets)
  ultimately show ?thesis
    using unmarshal_head [of "h @ concat (map marshalBucket (take i bs))" ?off "bs ! i"
        "concat (map marshalBucket (drop (Suc i) bs)) @ r"]
    by (simp add: unmarshalBucket_def Let_def)
qed

lemma UnmarshalIBLT_MarshalIBLT_aux:
  assumes "wire_table t" "MarshalIBLT (Some t) = Inr w"
  shows "UnmarshalIBLT (w @ r) = Inr t \<and> length w = ibltWireHeaderLen + length (buckets t) * bucketWireLen"
proof -
  let ?m = "le_bytes 4 ibltWireMagic" and ?n = "le_bytes 4 (of_nat (length (buckets t)) :: u32)"
  let ?k = "le_bytes 2 (of_nat (ibltK t) :: u16)" and ?s = "le_bytes 8 (ibltSeed t)"
  let ?b = "concat (map marshalBucket (buckets t))"
  have w: "w = ?m @ ?n @ ?k @ ?s @ ?b" using assms(2) by (simp add: MarshalIBLT_def SeedToUint64_def)
  let ?W = "?m @ ?n @ ?k @ ?s @ ?b @ r"
  have len: "length ?W = ibltWireHeaderLen + length (buckets t) * bucketWireLen + length r"
    by (simp add: length_marshalBuckets wire_consts)
  have g: "gslice 0 4 ?W = ?m" "gslice 4 8 ?W = ?n" "gslice 8 10 ?W = ?k" "gslice 10 18 ?W = ?s"
    by (simp_all add: gslice_def)
  have n: "unat (of_nat (length (buckets t)) :: u32) = length (buckets t)"
    using assms(1) by (simp add: wire_table_def wire_consts unat_of_nat)
  have k: "unat (of_nat (ibltK t) :: u16) = ibltK t"
    using assms(1) by (simp add: wire_table_def ibltMaxK_def unat_of_nat)
  have b: "map (unmarshalBucket ?W) [0..<length (buckets t)] = buckets t"
    using unmarshalBucket_marshal [of "?m @ ?n @ ?k @ ?s" _ "buckets t" r]
    by (intro nth_equalityI) (simp_all add: wire_consts)
  have "UnmarshalIBLT ?W = Inr t"
    using assms(1) len unfolding UnmarshalIBLT_def g
    by (simp add: of_le_le_bytes n k b wire_table_def Uint64ToSeed_def Let_def)
  then show ?thesis using len by (simp add: w)
qed

lemma marshal_unmarshalBucket:
  assumes "ibltWireHeaderLen + (i + 1) * bucketWireLen \<le> length w"
  shows "marshalBucket (unmarshalBucket w i) =
    gslice (ibltWireHeaderLen + i * bucketWireLen) (ibltWireHeaderLen + (i + 1) * bucketWireLen) w"
proof -
  let ?o = "ibltWireHeaderLen + i * bucketWireLen"
  have e: "ibltWireHeaderLen + (i + 1) * bucketWireLen = ?o + 20" by (simp add: bucketWireLen_def)
  have l: "length (gslice ?o (?o + 4) w) = 4" "length (gslice (?o + 4) (?o + 12) w) = 8"
    "length (gslice (?o + 12) (?o + 20) w) = 8" using assms unfolding e by simp_all
  show ?thesis
    unfolding e by (simp add: marshalBucket_def unmarshalBucket_def Let_def le_bytes_of_le l gslice_join)
qed

lemma marshal_unmarshalBuckets:
  "ibltWireHeaderLen + n * bucketWireLen \<le> length w \<Longrightarrow>
   concat (map marshalBucket (map (unmarshalBucket w) [0..<n])) =
     gslice ibltWireHeaderLen (ibltWireHeaderLen + n * bucketWireLen) w"
proof (induction n)
  case (Suc n)
  then have "concat (map marshalBucket (map (unmarshalBucket w) [0..<n])) =
     gslice ibltWireHeaderLen (ibltWireHeaderLen + n * bucketWireLen) w" by simp
  then show ?case using marshal_unmarshalBucket [of n w] Suc.prems
    by (simp add: gslice_join del: map_map)
qed (simp add: gslice_def)

lemma UnmarshalIBLT_sound:
  assumes "UnmarshalIBLT w = Inr t"
  shows "wire_table t \<and> MarshalIBLT (Some t) = Inr (take (ibltWireHeaderLen + length (buckets t) * bucketWireLen) w) \<and>
    ibltWireHeaderLen + length (buckets t) * bucketWireLen \<le> length w"
proof -
  define n where "n = unat (of_le (gslice 4 8 w) :: u32)"
  define k where "k = unat (of_le (gslice 8 10 w) :: u16)"
  have c: "ibltWireHeaderLen \<le> length w" "of_le (gslice 0 4 w) = ibltWireMagic" "n \<le> maxIBLTBuckets"
    "0 < k" "k \<le> ibltMaxK" "ibltWireHeaderLen + n * bucketWireLen \<le> length w"
    and t: "t = \<lparr>buckets = map (unmarshalBucket w) [0..<n], ibltK = k, ibltSeed = of_le (gslice 10 18 w)\<rparr>"
    using assms unfolding UnmarshalIBLT_def Let_def n_def [symmetric] k_def [symmetric] Uint64ToSeed_def
    by (auto split: if_splits)
  have l: "length (gslice 0 4 w) = 4" "length (gslice 4 8 w) = 4" "length (gslice 8 10 w) = 2" "length (gslice 10 18 w) = 8"
    using c(1) by (simp_all add: ibltWireHeaderLen_def)
  have "le_bytes 4 ibltWireMagic = gslice 0 4 w" "le_bytes 4 (of_nat n :: u32) = gslice 4 8 w"
    "le_bytes 2 (of_nat k :: u16) = gslice 8 10 w" "le_bytes 8 (of_le (gslice 10 18 w) :: u64) = gslice 10 18 w"
    using c(2) l by (simp_all add: n_def k_def le_bytes_of_le flip: c(2))
  then have "MarshalIBLT (Some t) = Inr (gslice 0 (ibltWireHeaderLen + n * bucketWireLen) w)"
    unfolding MarshalIBLT_def t SeedToUint64_def using marshal_unmarshalBuckets [OF c(6)]
    by (simp add: gslice_join ibltWireHeaderLen_def del: map_map)
  then show ?thesis using c by (simp add: t wire_table_def gslice_def)
qed

lemma unmarshalStrata_marshalStrata:
  "\<forall>t\<in>set ts. wire_table t \<Longrightarrow> marshalStrata ts = Inr w \<Longrightarrow> unmarshalStrata (length ts) (w @ r) = Inr ts"
proof (induction ts arbitrary: w)
  case (Cons t ts)
  then obtain b bs where b: "MarshalIBLT (Some t) = Inr b" "marshalStrata ts = Inr bs" "w = b @ bs"
    by (auto split: sum.splits)
  have "UnmarshalIBLT (b @ bs @ r) = Inr t \<and> length b = ibltWireHeaderLen + length (buckets t) * bucketWireLen"
    using UnmarshalIBLT_MarshalIBLT_aux [OF _ b(1)] Cons.prems(1) by simp
  then show ?case using Cons.IH [OF _ b(2)] Cons.prems(1) b(3) by simp
qed simp

lemma marshalStrata_Inr: "\<exists>w. marshalStrata ts = Inr w"
  by (induction ts) (auto simp: MarshalIBLT_def)

text \<open>
  Decoding an encoded table gives the table back, for every table within the bucket bound, also
  when more bytes follow: the encoding delimits itself.
\<close>

theorem UnmarshalIBLT_MarshalIBLT:
  assumes "wire_table t"
  shows "\<exists>w. MarshalIBLT (Some t) = Inr w \<and> UnmarshalIBLT (w @ rest) = Inr t"
proof -
  obtain w where w: "MarshalIBLT (Some t) = Inr w" by (simp add: MarshalIBLT_def)
  then show ?thesis using UnmarshalIBLT_MarshalIBLT_aux [OF assms w] by blast
qed

theorem UnmarshalIBLT_MarshalIBLT_witness:
  "\<exists>w. MarshalIBLT (Some \<lparr>buckets = [Bucket 1 2 3], ibltK = 4, ibltSeed = 5\<rparr>) = Inr w \<and>
     UnmarshalIBLT (w @ [9]) = Inr \<lparr>buckets = [Bucket 1 2 3], ibltK = 4, ibltSeed = 5\<rparr>"
  by (rule UnmarshalIBLT_MarshalIBLT) (simp add: wire_table_def wire_consts ibltMaxK_def)

text \<open>
  C36. Whatever bytes arrive, an accepted table is one that the sender could have encoded: its bucket
  array fits the 16 MiB bound, its hash count is in range, and the bytes read are its encoding.
\<close>

theorem UnmarshalIBLT_canonical:
  assumes "UnmarshalIBLT wire = Inr t"
  shows "length (buckets t) * sizeofBucket \<le> maxFrameSizeBytes \<and> 0 < ibltK t \<and> ibltK t \<le> ibltMaxK \<and>
    (\<exists>w rest. MarshalIBLT (Some t) = Inr w \<and> wire = w @ rest)"
proof -
  note s = UnmarshalIBLT_sound [OF assms]
  have "\<exists>w rest. MarshalIBLT (Some t) = Inr w \<and> wire = w @ rest"
    using s by (metis append_take_drop_id)
  then show ?thesis using s by (auto simp: wire_table_def wire_consts)
qed

lemma ex_wire_accept:
  "\<exists>w. MarshalIBLT (Some \<lparr>buckets = [Bucket 1 2 3], ibltK = 4, ibltSeed = 1\<rparr>) = Inr w \<and>
     UnmarshalIBLT (w @ [7]) = Inr \<lparr>buckets = [Bucket 1 2 3], ibltK = 4, ibltSeed = 1\<rparr>"
proof -
  have "wire_table \<lparr>buckets = [Bucket 1 2 3], ibltK = 4, ibltSeed = 1\<rparr>"
    by (simp add: wire_table_def wire_consts ibltMaxK_def)
  note aux = UnmarshalIBLT_MarshalIBLT_aux [OF this]
  obtain w where "MarshalIBLT (Some \<lparr>buckets = [Bucket 1 2 3], ibltK = 4, ibltSeed = 1\<rparr>) = Inr w"
    by (simp add: MarshalIBLT_def)
  then show ?thesis using aux by blast
qed

theorem UnmarshalIBLT_canonical_witness:
  "\<exists>wire t w rest. UnmarshalIBLT wire = Inr t \<and> buckets t = [Bucket 1 2 3] \<and>
     MarshalIBLT (Some t) = Inr w \<and> wire = w @ rest"
proof -
  let ?t = "\<lparr>buckets = [Bucket 1 2 3], ibltK = 4, ibltSeed = 1\<rparr>"
  obtain w where w: "UnmarshalIBLT (w @ [7]) = Inr ?t" using ex_wire_accept by blast
  obtain w' rest where "MarshalIBLT (Some ?t) = Inr w'" "w @ [7] = w' @ rest"
    using UnmarshalIBLT_canonical [OF w] by blast
  then show ?thesis using w
    by (intro exI [of _ "w @ [7]"] exI [of _ ?t] exI [of _ w'] exI [of _ rest]) simp
qed

text \<open>
  An encoded estimator decodes to itself: seed and all 32 tables.
\<close>

theorem UnmarshalStrata_MarshalStrata:
  assumes "length (strata se) = strataCount" and "\<forall>t\<in>set (strata se). wire_table t"
  shows "\<exists>w. MarshalStrataEstimator (Some se) = Inr w \<and> UnmarshalStrataEstimator w = Inr se"
proof -
  obtain body where body: "marshalStrata (strata se) = Inr body" using marshalStrata_Inr by blast
  let ?s = "le_bytes 8 (strataSeed se)"
  let ?W = "le_bytes 4 strataWireMagic @ [of_nat strataCount] @ ?s @ body"
  have M: "MarshalStrataEstimator (Some se) = Inr ?W"
    using assms(1) body by (simp add: MarshalStrataEstimator_def SeedToUint64_def)
  have g: "gslice 0 4 ?W = le_bytes 4 strataWireMagic" "gslice 5 13 ?W = ?s" "?W ! 4 = of_nat strataCount"
    "drop 13 ?W = body" "\<not> length ?W < 13" by (simp_all add: gslice_def nth_append)
  have hl: "strataWireHeaderLen = 13" by (simp add: strataWireHeaderLen_def)
  have "unmarshalStrata strataCount body = Inr (strata se)"
    using unmarshalStrata_marshalStrata [OF assms(2) body, of "[]"] assms(1) by simp
  then have "UnmarshalStrataEstimator ?W = Inr se"
    unfolding UnmarshalStrataEstimator_def hl g
    by (simp add: strataWireHeaderLen_def of_le_le_bytes Uint64ToSeed_def Let_def NewStrataEstimator_def)
       (simp add: strataCount_def)
  then show ?thesis using M by blast
qed

theorem UnmarshalStrata_MarshalStrata_witness:
  "\<exists>w. MarshalStrataEstimator (Some (NewStrataEstimator 5)) = Inr w \<and>
     UnmarshalStrataEstimator w = Inr (NewStrataEstimator 5)"
  by (rule UnmarshalStrata_MarshalStrata)
     (auto simp: NewStrataEstimator_def NewIBLTWithSeed_def strataK_def ibltMaxK_def wire_table_def wire_consts
        strataIBLTBuckets_def)

end
