(* ===== verification/Iblt_Peel.thy ===== *)
theory Iblt_Peel
  imports Iblt
begin

text \<open>
  What peeling computes. Every round keeps the sum of the table and of the keys taken out of it, so a
  complete peel explains the difference of two tables exactly. Under the condition that no mixed
  bucket looks pure, peeling ends and returns exactly the two differences; without it the loop can
  run forever.
\<close>

section \<open>One round\<close>

definition pending :: "PeelState \<Rightarrow> nat list" where
  "pending st = drop (peelHead st) (pureQueue st)"

definition removeKey :: "hasher \<Rightarrow> bool \<Rightarrow> u64 \<Rightarrow> IBLT \<Rightarrow> IBLT" where
  "removeKey mh positive key t =
     t\<lparr>buckets := fold (bumpBucket (\<lambda>b. if positive then b - keyUnit mh t key else b + keyUnit mh t key))
                    (fst (getHashesInto mh t key)) (buckets t)\<rparr>"

lemma isPure_count: "isPure mh t i \<Longrightarrow> Count (cell t i) = 1 \<or> Count (cell t i) = - 1"
  by (auto simp: isPure_def Let_def split: if_splits)

lemma isPure_cong:
  "same_shape t t' \<Longrightarrow> cell t i = cell t' i \<Longrightarrow> isPure mh t i = isPure mh t' i"
  by (simp add: isPure_def Let_def same_shape_hashes)

lemma fold_bump_other: "i \<notin> set is \<Longrightarrow> fold (bumpBucket f) is bs ! i = bs ! i"
  by (induction "is" arbitrary: bs) (auto simp: bumpBucket_def)

text \<open>The cascade over all targets: every target that ends pure has been enqueued.\<close>

lemma cascade_fold:
  "\<exists>ex. fold (cascadeTarget mh pos key h) is (t, q) =
     (t\<lparr>buckets := fold (bumpBucket (\<lambda>b. if pos then b - Bucket 1 key h else b + Bucket 1 key h)) is (buckets t)\<rparr>,
      q @ ex) \<and> length ex \<le> length is \<and> set ex \<subseteq> set is \<and>
     (\<forall>i\<in>set is. isPure mh (fst (fold (cascadeTarget mh pos key h) is (t, q))) i \<longrightarrow> i \<in> set ex)"
proof (induction "is" arbitrary: t q)
  case (Cons i "is")
  let ?f = "\<lambda>b. if pos then b - Bucket 1 key h else b + Bucket 1 key h"
  let ?t1 = "t\<lparr>buckets := bumpBucket ?f i (buckets t)\<rparr>"
  let ?e = "if isPure mh ?t1 i then [i] else []"
  have f: "(\<lambda>b. Bucket (if pos then Count b - 1 else Count b + 1) (KeySum b XOR key) (HashSum b XOR h)) = ?f"
    by (auto simp: fun_eq_iff plus_Bucket_def minus_Bucket_def)
  have c: "cascadeTarget mh pos key h i (t, q) = (?t1, q @ ?e)"
    unfolding cascadeTarget_def f by (simp add: Let_def)
  from Cons.IH [of ?t1 "q @ ?e"] obtain ex where ex:
    "fold (cascadeTarget mh pos key h) is (?t1, q @ ?e) =
       (?t1\<lparr>buckets := fold (bumpBucket ?f) is (buckets ?t1)\<rparr>, (q @ ?e) @ ex)"
    "length ex \<le> length is" "set ex \<subseteq> set is"
    "\<forall>j\<in>set is. isPure mh (fst (fold (cascadeTarget mh pos key h) is (?t1, q @ ?e))) j \<longrightarrow> j \<in> set ex" by blast
  have "i \<in> set ex \<or> i \<in> set ?e"
    if p: "isPure mh (?t1\<lparr>buckets := fold (bumpBucket ?f) is (buckets ?t1)\<rparr>) i"
  proof (cases "i \<in> set is")
    case True
    then show ?thesis using ex(4) p by (simp add: ex(1))
  next
    case False
    then have "isPure mh ?t1 i"
      using p isPure_cong [of ?t1 "?t1\<lparr>buckets := fold (bumpBucket ?f) is (buckets ?t1)\<rparr>" i mh]
      by (simp add: same_shape_def fold_bump_other)
    then show ?thesis by simp
  qed
  then show ?case
    by (intro exI [of _ "?e @ ex"]) (use ex in \<open>auto simp: c\<close>)
qed (auto intro: exI [of _ "[]"])

lemma drop_compact:
  "(if b then st\<lparr>pureQueue := drop (peelHead st) (pureQueue st), peelHead := 0\<rparr> else st) = st' \<Longrightarrow>
   pending st' = pending st \<and> peelTable st' = peelTable st \<and> localHas st' = localHas st \<and>
   remoteHas st' = remoteHas st"
  by (auto simp: pending_def)

lemma pending_Cons:
  "peelHead st < length (pureQueue st) \<Longrightarrow> pending st = pureQueue st ! peelHead st # drop (Suc (peelHead st)) (pureQueue st)"
  by (simp add: pending_def Cons_nth_drop_Suc)

text \<open>A round that finds the bucket impure only advances; a round that finds it pure takes the key out.\<close>

lemma peelRound_skip:
  assumes "peelHead st < length (pureQueue st)" "pending st = i # rest" "\<not> isPure mh (peelTable st) i"
  shows "pending (peelRound mh st) = rest \<and> peelTable (peelRound mh st) = peelTable st \<and>
    localHas (peelRound mh st) = localHas st \<and> remoteHas (peelRound mh st) = remoteHas st"
  using assms pending_Cons [OF assms(1)] by (auto simp: peelRound_def Let_def pending_def)

lemma peelRound_pure:
  assumes hd: "peelHead st < length (pureQueue st)" and pend: "pending st = i # rest"
    and pure: "isPure mh (peelTable st) i"
    and key: "key = KeySum (cell (peelTable st) i)" and pos: "pos = (Count (cell (peelTable st) i) = 1)"
  shows "peelTable (peelRound mh st) = removeKey mh pos key (peelTable st)"
    and "\<exists>ex. pending (peelRound mh st) = rest @ ex \<and> length ex \<le> ibltK (peelTable st) \<and>
           set ex \<subseteq> set (fst (getHashesInto mh (peelTable st) key)) \<and>
           (\<forall>j\<in>set (fst (getHashesInto mh (peelTable st) key)). isPure mh (peelTable (peelRound mh st)) j \<longrightarrow> j \<in> set ex)"
    and "localHas (peelRound mh st) = localHas st @ (if pos then [key] else [])"
    and "remoteHas (peelRound mh st) = remoteHas st @ (if pos then [] else [key])"
proof -
  let ?t = "peelTable st" and ?h = "snd (getHashesInto mh (peelTable st) key)"
  let ?b = "cell ?t i"
  have i: "pureQueue st ! peelHead st = i" "drop (Suc (peelHead st)) (pureQueue st) = rest"
    using pend pending_Cons [OF hd] by auto
  have cnt: "isPureCount (Count ?b)" "(sint (Count ?b) > 0) = pos"
    using isPure_count [OF pure] pos by (auto simp: isPureCount_def)
  obtain ex where ex: "fold (cascadeTarget mh pos key ?h) (fst (getHashesInto mh ?t key)) (?t, pureQueue st) =
      (removeKey mh pos key ?t, pureQueue st @ ex)" "length ex \<le> ibltK ?t"
      "set ex \<subseteq> set (fst (getHashesInto mh ?t key))"
      "\<forall>j\<in>set (fst (getHashesInto mh ?t key)). isPure mh (removeKey mh pos key ?t) j \<longrightarrow> j \<in> set ex"
    using cascade_fold [of mh pos key ?h "fst (getHashesInto mh ?t key)" ?t "pureQueue st"]
    unfolding removeKey_def keyUnit_def length_targets by fastforce
  obtain ts h where g: "getHashesInto mh ?t key = (ts, h)" by fastforce
  define st2 where "st2 = st\<lparr>peelHead := peelHead st + 1, peelTable := removeKey mh pos key ?t,
      pureQueue := pureQueue st @ ex, localHas := localHas st @ (if pos then [key] else []),
      remoteHas := remoteHas st @ (if pos then [] else [key])\<rparr>"
  have "peelRound mh st = (if peelHead st2 \<ge> 16 \<and> peelHead st2 * 2 \<ge> length (pureQueue st2)
      then st2\<lparr>pureQueue := drop (peelHead st2) (pureQueue st2), peelHead := 0\<rparr> else st2)"
    using i(1) cnt pure ex(1) key [symmetric] g
    by (auto simp: peelRound_def Let_def st2_def)
  from drop_compact [OF this [symmetric]] have r:
    "pending (peelRound mh st) = pending st2" "peelTable (peelRound mh st) = peelTable st2"
    "localHas (peelRound mh st) = localHas st2" "remoteHas (peelRound mh st) = remoteHas st2" by auto
  have "pending st2 = rest @ ex" using i(2) hd by (simp add: pending_def st2_def)
  with r ex show "peelTable (peelRound mh st) = removeKey mh pos key ?t"
    "\<exists>ex. pending (peelRound mh st) = rest @ ex \<and> length ex \<le> ibltK ?t \<and> set ex \<subseteq> set (fst (getHashesInto mh ?t key)) \<and>
      (\<forall>j\<in>set (fst (getHashesInto mh ?t key)). isPure mh (peelTable (peelRound mh st)) j \<longrightarrow> j \<in> set ex)"
    "localHas (peelRound mh st) = localHas st @ (if pos then [key] else [])"
    "remoteHas (peelRound mh st) = remoteHas st @ (if pos then [] else [key])"
    by (auto simp: st2_def)
qed

lemma removeKey_cell:
  assumes "table_ok t"
  shows "same_shape (removeKey mh pos key t) t"
    and "j < length (buckets t) \<Longrightarrow> cell (removeKey mh pos key t) j =
           (if pos then cell t j - contrib mh t key j else cell t j + contrib mh t key j)"
  using targets_less [OF assms]
  by (auto simp: removeKey_def same_shape_def contrib_def fold_bump_add fold_bump_minus)

lemma pending_iff: "peelHead st < length (pureQueue st) \<longleftrightarrow> pending st \<noteq> []"
  by (auto simp: pending_def)

lemma peelLoop_rule:
  assumes "peelLoop mh s = Some st" "P s"
    and skip: "\<And>st i rest. P st \<Longrightarrow> pending st = i # rest \<Longrightarrow> \<not> isPure mh (peelTable st) i \<Longrightarrow> P (peelRound mh st)"
    and pure: "\<And>st i rest. P st \<Longrightarrow> pending st = i # rest \<Longrightarrow> isPure mh (peelTable st) i \<Longrightarrow> P (peelRound mh st)"
  shows "P st \<and> pending st = []"
proof -
  have "P st"
    by (rule while_option_rule [where P = P, OF _ assms(1) [unfolded peelLoop_def] assms(2)])
       (metis skip pure pending_iff neq_Nil_conv)
  moreover have "pending st = []"
    using while_option_stop [OF assms(1) [unfolded peelLoop_def]] by (simp add: pending_iff)
  ultimately show ?thesis by blast
qed

section \<open>Conservation\<close>

definition peeled :: "hasher \<Rightarrow> IBLT \<Rightarrow> PeelState \<Rightarrow> bool" where
  "peeled mh t st \<longleftrightarrow> same_shape (peelTable st) t \<and>
     set (pending st) \<subseteq> {..<length (buckets t)} \<and>
     (\<forall>j<length (buckets t). cell t j = cell (peelTable st) j +
        (\<Sum>x\<leftarrow>localHas st. contrib mh t x j) - (\<Sum>x\<leftarrow>remoteHas st. contrib mh t x j))"

lemma peeled_start: "peeled mh t (peelStart mh t)"
  by (auto simp: peeled_def peelStart_def pending_def)

lemma peeled_round:
  assumes ok: "table_ok t" and inv: "peeled mh t st" and pend: "pending st = i # rest"
  shows "peeled mh t (peelRound mh st)"
proof (cases "isPure mh (peelTable st) i")
  case False
  have "peelHead st < length (pureQueue st)" using pend pending_iff by simp
  from peelRound_skip [OF this pend False] show ?thesis using inv pend by (auto simp: peeled_def)
next
  case True
  let ?t = "peelTable st"
  have sh: "same_shape ?t t" using inv by (simp add: peeled_def)
  note ok' = same_shape_ok [OF sh ok]
  have hd: "peelHead st < length (pureQueue st)" using pend pending_iff by simp
  note r = peelRound_pure [OF hd pend True refl refl]
  note c = removeKey_cell [OF ok', where mh = mh and pos = "Count (cell ?t i) = 1" and key = "KeySum (cell ?t i)"]
  have "same_shape (peelTable (peelRound mh st)) t" using r(1) c(1) sh by (auto intro: same_shape_trans)
  moreover have "set (pending (peelRound mh st)) \<subseteq> {..<length (buckets t)}"
    using r(2) inv pend targets_less [OF ok'] sh by (fastforce simp: peeled_def same_shape_def)
  moreover have "cell t j = cell (peelTable (peelRound mh st)) j +
      (\<Sum>x\<leftarrow>localHas (peelRound mh st). contrib mh t x j) - (\<Sum>x\<leftarrow>remoteHas (peelRound mh st). contrib mh t x j)"
    if j: "j < length (buckets t)" for j
  proof -
    have "cell t j = cell ?t j + (\<Sum>x\<leftarrow>localHas st. contrib mh t x j) - (\<Sum>x\<leftarrow>remoteHas st. contrib mh t x j)"
      using inv j by (simp add: peeled_def)
    moreover have "cell (peelTable (peelRound mh st)) j =
      (if Count (cell ?t i) = 1 then cell ?t j - contrib mh t (KeySum (cell ?t i)) j
       else cell ?t j + contrib mh t (KeySum (cell ?t i)) j)"
      using c(2) [of j] j sh same_shape_contrib(1) [OF sh, of mh] r(1) by (simp add: same_shape_def)
    ultimately show ?thesis by (simp add: r(3,4) algebra_simps)
  qed
  ultimately show ?thesis by (simp add: peeled_def)
qed

lemma Peel_cells:
  assumes "table_ok t" "Peel mh t = Some (ls, rs, True)" "j < length (buckets t)"
  shows "cell t j = (\<Sum>x\<leftarrow>ls. contrib mh t x j) - (\<Sum>x\<leftarrow>rs. contrib mh t x j)"
proof -
  obtain st where st: "peelLoop mh (peelStart mh t) = Some st" "ls = localHas st" "rs = remoteHas st"
    and z: "\<forall>b\<in>set (buckets (peelTable st)). Count b = 0 \<and> KeySum b = 0 \<and> HashSum b = 0"
    using assms(2) by (auto simp: Peel_def list_all_iff split: option.splits)
  have inv: "peeled mh t st"
    using peelLoop_rule [OF st(1), where P = "peeled mh t"] peeled_start peeled_round [OF assms(1)] by blast
  then have "cell (peelTable st) j \<in> set (buckets (peelTable st))"
    using assms(3) by (auto simp: peeled_def same_shape_def)
  then have "cell (peelTable st) j = 0" using z by (auto simp: zero_Bucket_def intro: Bucket.expand)
  then show ?thesis using inv assms(3) st(2,3) by (auto simp: peeled_def)
qed

lemma Peel_explains_aux:
  assumes ok: "table_ok a" and sub: "Subtract a b = Some d" and seed: "ibltSeed a = ibltSeed b"
    and peel: "Peel mh d = Some (ls, rs, True)"
  shows "\<exists>m. insertAll mh rs a = Some m \<and> insertAll mh ls b = Some m"
proof -
  note d = Subtract_cell [OF sub]
  have sh: "same_shape b a" using sub seed by (auto simp: same_shape_def Subtract_def split: if_splits)
  note okb = same_shape_ok [OF sh ok] and okd = same_shape_ok [OF d(1) ok]
  obtain a' b' where ins: "insertAll mh rs a = Some a'" "insertAll mh ls b = Some b'"
    using insertAll_Some [OF ok] insertAll_Some [OF okb] by metis
  note ca = insertAll_cell [OF ok ins(1)] and cb = insertAll_cell [OF okb ins(2)]
  have "a' = b'"
  proof (rule table_eqI)
    show s: "same_shape a' b'"
      using ca(1) cb(1) sh by (metis same_shape_sym same_shape_trans)
    fix j assume "j < length (buckets a')"
    then have j: "j < length (buckets a)" "j < length (buckets b)" "j < length (buckets d)"
      using ca(1) sh d(1) by (auto simp: same_shape_def)
    show "cell a' j = cell b' j"
      using Peel_cells [OF okd peel j(3)] d(3) [OF j(1)] ca(2) [OF j(1)] cb(2) [OF j(2)]
        same_shape_contrib(1) [OF sh, of mh] same_shape_contrib(1) [OF d(1), of mh]
      by (simp add: algebra_simps)
  qed
  then show ?thesis using ins by blast
qed

section \<open>Exactness\<close>

text \<open>The table that holds the keys of \<^verbatim>\<open>P\<close> once and those of \<^verbatim>\<open>M\<close> negated.\<close>

definition tableOf :: "hasher \<Rightarrow> IBLT \<Rightarrow> u64 set \<Rightarrow> u64 set \<Rightarrow> IBLT" where
  "tableOf mh t P M = t\<lparr>buckets := map (\<lambda>j. (\<Sum>x\<in>P. contrib mh t x j) - (\<Sum>x\<in>M. contrib mh t x j))
                                     [0..<length (buckets t)]\<rparr>"

text \<open>
  What the hash must promise for the keys at hand: no bucket of a partly peeled table passes the
  purity test unless its key is one of those still in the table.
\<close>

definition no_false_pure :: "hasher \<Rightarrow> IBLT \<Rightarrow> u64 set \<Rightarrow> u64 set \<Rightarrow> bool" where
  "no_false_pure mh t A B \<longleftrightarrow> (\<forall>P\<in>Pow A. \<forall>M\<in>Pow B. \<forall>j<length (buckets t).
     isPure mh (tableOf mh t P M) j \<longrightarrow>
       (if Count (cell (tableOf mh t P M) j) = 1 then KeySum (cell (tableOf mh t P M) j) \<in> P
        else KeySum (cell (tableOf mh t P M) j) \<in> M))"

text \<open>No sub-collection of the keys is stuck: each one that is not empty has a pure bucket.\<close>

definition peelable :: "hasher \<Rightarrow> IBLT \<Rightarrow> u64 set \<Rightarrow> u64 set \<Rightarrow> bool" where
  "peelable mh t A B \<longleftrightarrow> (\<forall>P\<in>Pow A. \<forall>M\<in>Pow B. P \<noteq> {} \<or> M \<noteq> {} \<longrightarrow>
     (\<exists>j<length (buckets t). isPure mh (tableOf mh t P M) j))"

lemma tableOf_shape [simp]: "same_shape (tableOf mh t P M) t"
  by (simp add: same_shape_def tableOf_def)

lemma tableOf_cell:
  "j < length (buckets t) \<Longrightarrow> cell (tableOf mh t P M) j = (\<Sum>x\<in>P. contrib mh t x j) - (\<Sum>x\<in>M. contrib mh t x j)"
  by (simp add: tableOf_def)

lemma length_tableOf [simp]: "length (buckets (tableOf mh t P M)) = length (buckets t)"
  by (simp add: tableOf_def)

lemma removeKey_tableOf:
  assumes ok: "table_ok t"
  shows "key \<in> P \<Longrightarrow> removeKey mh True key (tableOf mh t P M) = tableOf mh t (P - {key}) M"
    and "key \<in> M \<Longrightarrow> removeKey mh False key (tableOf mh t P M) = tableOf mh t P (M - {key})"
proof -
  note ok' = same_shape_ok [OF tableOf_shape ok, of mh P M]
  note c = removeKey_cell [OF ok', where mh = mh] and s = same_shape_contrib(1) [OF tableOf_shape, of mh mh t P M]
  have sh: "same_shape (removeKey mh pos key (tableOf mh t P M)) (tableOf mh t P' M')" for pos P' M'
    using c(1) by (meson same_shape_sym same_shape_trans tableOf_shape)
  have cell: "cell (removeKey mh pos key (tableOf mh t P M)) j =
      (if pos then cell (tableOf mh t P M) j - contrib mh t key j else cell (tableOf mh t P M) j + contrib mh t key j)"
    if "j < length (buckets (removeKey mh pos key (tableOf mh t P M)))" for pos j
    using c(2) [of j pos key] that c(1) [of pos key] by (simp add: s same_shape_def)
  have len: "length (buckets (removeKey mh pos key (tableOf mh t P M))) = length (buckets t)" for pos
    using c(1) [of pos key] by (simp add: same_shape_def)
  have rem: "(\<Sum>x\<in>X. contrib mh t x j) = contrib mh t key j + (\<Sum>x\<in>X - {key}. contrib mh t x j)"
    if "key \<in> X" for X j
    using that by (simp add: sum.remove)
  show "removeKey mh True key (tableOf mh t P M) = tableOf mh t (P - {key}) M" if "key \<in> P"
    by (rule table_eqI [OF sh]) (simp add: cell, simp add: len tableOf_cell rem [OF that])
  show "removeKey mh False key (tableOf mh t P M) = tableOf mh t P (M - {key})" if "key \<in> M"
    by (rule table_eqI [OF sh]) (simp add: cell, simp add: len tableOf_cell rem [OF that])
qed

definition peelInv :: "hasher \<Rightarrow> IBLT \<Rightarrow> u64 set \<Rightarrow> u64 set \<Rightarrow> PeelState \<Rightarrow> bool" where
  "peelInv mh t A B st \<longleftrightarrow>
     peelTable st = tableOf mh t (A - set (localHas st)) (B - set (remoteHas st)) \<and>
     set (localHas st) \<subseteq> A \<and> set (remoteHas st) \<subseteq> B \<and>
     distinct (localHas st) \<and> distinct (remoteHas st) \<and>
     set (pending st) \<subseteq> {..<length (buckets t)} \<and>
     (\<forall>j<length (buckets t). isPure mh (peelTable st) j \<longrightarrow> j \<in> set (pending st))"

definition peelMeasure :: "nat \<Rightarrow> u64 set \<Rightarrow> u64 set \<Rightarrow> PeelState \<Rightarrow> nat" where
  "peelMeasure k A B st =
     (k + 1) * (card (A - set (localHas st)) + card (B - set (remoteHas st))) + length (pending st)"

lemma peelInv_start: "peelInv mh t A B (peelStart mh (tableOf mh t A B))"
  by (auto simp: peelInv_def peelStart_def pending_def)

lemma peelInv_skip:
  assumes inv: "peelInv mh t A B st" and pend: "pending st = i # rest" and np: "\<not> isPure mh (peelTable st) i"
  shows "peelInv mh t A B (peelRound mh st)" "peelMeasure k A B (peelRound mh st) < peelMeasure k A B st"
proof -
  have "peelHead st < length (pureQueue st)" using pend pending_iff by simp
  note r = peelRound_skip [OF this pend np]
  show "peelInv mh t A B (peelRound mh st)" using inv pend np r by (auto simp: peelInv_def)
  show "peelMeasure k A B (peelRound mh st) < peelMeasure k A B st" using r pend by (simp add: peelMeasure_def)
qed

lemma measure_drop:
  fixes k c d e :: nat
  assumes "Suc c = d" "e \<le> k"
  shows "(k + 1) * (c + x) + (r + e) < (k + 1) * (d + x) + Suc r"
  using assms by auto

lemma card_remove_keys: "key \<in> A - set ls \<Longrightarrow> Suc (card (A - set (ls @ [key]))) = card (A - set ls)"
  for A :: "u64 set"
proof -
  assume k: "key \<in> A - set ls"
  have "A - set (ls @ [key]) = (A - set ls) - {key}" by auto
  then show ?thesis using card.remove [OF _ k] by simp
qed

lemma peelInv_pure:
  assumes ok: "table_ok t" and nf: "no_false_pure mh t A B"
    and inv: "peelInv mh t A B st" and pend: "pending st = i # rest" and pure: "isPure mh (peelTable st) i"
  shows "peelInv mh t A B (peelRound mh st) \<and> peelMeasure (ibltK t) A B (peelRound mh st) < peelMeasure (ibltK t) A B st"
proof -
  let ?P = "A - set (localHas st)" and ?M = "B - set (remoteHas st)"
  let ?T = "peelTable st"
  define key where "key = KeySum (cell ?T i)"
  define pos where "pos = (Count (cell ?T i) = 1)"
  have T: "?T = tableOf mh t ?P ?M" and i: "i < length (buckets t)" using inv pend by (auto simp: peelInv_def)
  have mem: "if pos then key \<in> ?P else key \<in> ?M"
    using nf pure i unfolding no_false_pure_def T key_def pos_def by blast
  have hd: "peelHead st < length (pureQueue st)" using pend pending_iff by simp
  note r = peelRound_pure [OF hd pend pure key_def pos_def]
  let ?ts = "fst (getHashesInto mh ?T key)"
  obtain ex where ex: "pending (peelRound mh st) = rest @ ex" "length ex \<le> ibltK t"
      "set ex \<subseteq> set ?ts" "\<forall>j\<in>set ?ts. isPure mh (peelTable (peelRound mh st)) j \<longrightarrow> j \<in> set ex"
    using r(2) T by (auto simp: tableOf_def)
  have okT: "table_ok ?T" using same_shape_ok [OF tableOf_shape ok] T by metis
  let ?P' = "A - set (localHas (peelRound mh st))" and ?M' = "B - set (remoteHas (peelRound mh st))"
  have sub: "?P' = (if pos then ?P - {key} else ?P)" "?M' = (if pos then ?M else ?M - {key})"
    by (auto simp: r(3,4))
  have T': "peelTable (peelRound mh st) = tableOf mh t ?P' ?M'"
  proof (cases pos)
    case True
    then show ?thesis using r(1) removeKey_tableOf(1) [OF ok, of key ?P mh ?M] mem sub T by simp
  next
    case False
    then show ?thesis using r(1) removeKey_tableOf(2) [OF ok, of key ?M mh ?P] mem sub T by simp
  qed
  have unchanged: "isPure mh ?T j" "cell (peelTable (peelRound mh st)) j = cell ?T j"
    if "j \<notin> set ?ts" "isPure mh (peelTable (peelRound mh st)) j" for j
  proof -
    show c: "cell (peelTable (peelRound mh st)) j = cell ?T j"
      using that(1) by (simp add: r(1) removeKey_def fold_bump_other)
    show "isPure mh ?T j"
      using that(2) isPure_cong [OF _ c, of mh] removeKey_cell(1) [OF okT, of mh pos key] r(1) by simp
  qed
  have cover: "j \<in> set (rest @ ex)"
    if j: "j < length (buckets t)" "isPure mh (peelTable (peelRound mh st)) j" for j
  proof (cases "j \<in> set ?ts")
    case True
    then show ?thesis using ex(4) j(2) by simp
  next
    case False
    note u = unchanged [OF False j(2)]
    have "j \<in> set (pending st)" using inv u(1) j(1) by (simp add: peelInv_def)
    moreover have "j \<noteq> i"
    proof
      assume "j = i"
      then have "if pos then key \<in> ?P' else key \<in> ?M'"
        using nf j u(2) T' unfolding no_false_pure_def key_def pos_def by (metis Diff_subset PowI)
      then show False using sub by (auto split: if_splits)
    qed
    ultimately show ?thesis using pend by simp
  qed
  have "peelInv mh t A B (peelRound mh st)"
    using inv mem cover T' pend ex(1,3) targets_less [OF okT] T
    by (fastforce simp: peelInv_def r(3,4) split: if_splits)
  moreover have "peelMeasure (ibltK t) A B (peelRound mh st) < peelMeasure (ibltK t) A B st"
    using measure_drop [OF card_remove_keys ex(2), of key A "localHas st" "card ?M" "length rest"]
      measure_drop [OF card_remove_keys ex(2), of key B "remoteHas st" "card ?P" "length rest"] mem
    by (cases pos) (simp_all add: peelMeasure_def ex(1) pend r(3,4) add.commute [of "card (A - _)"])
  ultimately show ?thesis by blast
qed

lemma Peel_sound_aux:
  assumes ok: "table_ok t" and nf: "no_false_pure mh t A B"
  shows "\<exists>st. peelLoop mh (peelStart mh (tableOf mh t A B)) = Some st \<and> peelInv mh t A B st \<and> pending st = []"
proof -
  have step: "peelInv mh t A B (peelRound mh s) \<and> peelMeasure (ibltK t) A B (peelRound mh s) < peelMeasure (ibltK t) A B s"
    if "peelInv mh t A B s" "peelHead s < length (pureQueue s)" for s
    using that peelInv_skip peelInv_pure [OF ok nf] by (metis pending_iff neq_Nil_conv)
  obtain st where st: "peelLoop mh (peelStart mh (tableOf mh t A B)) = Some st"
    using measure_while_option_Some [of "peelInv mh t A B" "\<lambda>st. peelHead st < length (pureQueue st)"
        "peelRound mh" "peelMeasure (ibltK t) A B", OF step peelInv_start]
    unfolding peelLoop_def by blast
  have "peelInv mh t A B st \<and> pending st = []"
    by (rule peelLoop_rule [OF st, where P = "peelInv mh t A B", OF peelInv_start])
       (use step pending_iff in \<open>metis list.distinct(1)\<close>)+
  then show ?thesis using st by blast
qed

lemma tableOf_empty_zero: "b \<in> set (buckets (tableOf mh t {} {})) \<Longrightarrow> Count b = 0 \<and> KeySum b = 0 \<and> HashSum b = 0"
  by (auto simp: tableOf_def zero_Bucket_def)

lemma Peel_exact_aux:
  assumes ok: "table_ok t" and nf: "no_false_pure mh t A B" and pl: "peelable mh t A B"
  shows "\<exists>ls rs. Peel mh (tableOf mh t A B) = Some (ls, rs, True) \<and> distinct ls \<and> distinct rs \<and> set ls = A \<and> set rs = B"
proof -
  obtain st where st: "peelLoop mh (peelStart mh (tableOf mh t A B)) = Some st"
    and inv: "peelInv mh t A B st" and fin: "pending st = []"
    using Peel_sound_aux [OF ok nf] by blast
  let ?P = "A - set (localHas st)" and ?M = "B - set (remoteHas st)"
  have "\<not> (\<exists>j<length (buckets t). isPure mh (tableOf mh t ?P ?M) j)"
    using inv fin by (auto simp: peelInv_def)
  then have PM: "?P = {}" "?M = {}" using pl unfolding peelable_def by (metis Diff_subset PowI)+
  then have "peelTable st = tableOf mh t {} {}" using inv by (simp add: peelInv_def)
  then have "Peel mh (tableOf mh t A B) = Some (localHas st, remoteHas st, True)"
    using tableOf_empty_zero st by (fastforce simp: Peel_def list_all_iff)
  then show ?thesis using inv PM by (auto simp: peelInv_def)
qed

lemma NewIBLTWithSeed_cell:
  "NewIBLTWithSeed n k sd = Some z \<Longrightarrow> j < n \<Longrightarrow> cell z j = 0 \<and> length (buckets z) = n"
  by (auto simp: NewIBLTWithSeed_def split: if_splits)

lemma sum_diff_common:
  fixes f :: "u64 \<Rightarrow> Bucket"
  shows "sum f X - sum f Y = sum f (X - Y) - sum f (Y - X)"
proof -
  have "sum f X = sum f (X \<inter> Y) + sum f (X - Y)" "sum f Y = sum f (X \<inter> Y) + sum f (Y - X)"
    by (simp_all add: sum.Int_Diff [of X f Y] sum.Int_Diff [of Y f X] Int_commute)
  then show ?thesis by simp
qed

lemma Subtract_digests:
  assumes z: "NewIBLTWithSeed n k sd = Some z" "0 < n" "n < 2 ^ 63"
    and ins: "insertAll mh xs z = Some a" "insertAll mh ys z = Some b" and dist: "distinct xs" "distinct ys"
  shows "Subtract a b = Some (tableOf mh z (set xs - set ys) (set ys - set xs)) \<and> table_ok z"
proof -
  have zl: "length (buckets z) = n" using z by (auto simp: NewIBLTWithSeed_def split: if_splits)
  then have ok: "table_ok z" using z by (auto simp: table_ok_def)
  note ca = insertAll_cell [OF ok ins(1)] and cb = insertAll_cell [OF ok ins(2)]
  obtain d where d: "Subtract a b = Some d"
    using ca(1) cb(1) by (auto simp: Subtract_def same_shape_def)
  have "d = tableOf mh z (set xs - set ys) (set ys - set xs)"
  proof (rule table_eqI)
    show "same_shape d (tableOf mh z (set xs - set ys) (set ys - set xs))"
      using Subtract_cell(1) [OF d] ca(1) by (meson same_shape_sym same_shape_trans tableOf_shape)
    fix j assume "j < length (buckets d)"
    then have j: "j < length (buckets z)" "j < length (buckets a)"
      using Subtract_cell(1) [OF d] ca(1) by (auto simp: same_shape_def)
    show "cell d j = cell (tableOf mh z (set xs - set ys) (set ys - set xs)) j"
      using Subtract_cell(3) [OF d j(2)] ca(2) [OF j(1)] cb(2) [OF j(1)] NewIBLTWithSeed_cell [OF z(1)] j(1) zl
        sum_diff_common [of "\<lambda>x. contrib mh z x j" "set xs" "set ys"]
      by (simp add: tableOf_cell sum_list_distinct_conv_sum_set dist)
  qed
  then show ?thesis using d ok by simp
qed

section \<open>A table on which peeling does not end\<close>

definition soloUnit :: "hasher \<Rightarrow> IBLT \<Rightarrow> u64 \<Rightarrow> nat \<Rightarrow> PeelState \<Rightarrow> bool" where
  "soloUnit mh t key x st \<longleftrightarrow> same_shape (peelTable st) t \<and> set (pending st) \<subseteq> {..<length (buckets t)} \<and>
     (\<forall>j<length (buckets t). cell (peelTable st) j = (if j = x then keyUnit mh t key else 0)) \<and> x \<in> set (pending st)"

definition soloDebt :: "hasher \<Rightarrow> IBLT \<Rightarrow> u64 \<Rightarrow> nat \<Rightarrow> PeelState \<Rightarrow> bool" where
  "soloDebt mh t key x st \<longleftrightarrow> same_shape (peelTable st) t \<and> set (pending st) \<subseteq> {..<length (buckets t)} \<and>
     (\<forall>j<length (buckets t). cell (peelTable st) j =
        (if j \<in> set (fst (getHashesInto mh t key)) - {x} then - keyUnit mh t key else 0)) \<and>
     (\<exists>y. y \<in> set (pending st) \<and> y \<in> set (fst (getHashesInto mh t key)) - {x})"

lemma isPure_unit:
  "same_shape t' t \<Longrightarrow> cell t' j = keyUnit mh t key \<Longrightarrow> isPure mh t' j"
  "same_shape t' t \<Longrightarrow> cell t' j = - keyUnit mh t key \<Longrightarrow> isPure mh t' j"
  "cell t' j = 0 \<Longrightarrow> \<not> isPure mh t' j"
  by (auto simp: isPure_def keyUnit_def uminus_Bucket_def zero_Bucket_def same_shape_hashes)

lemma contrib_distinct:
  "distinct (fst (getHashesInto mh t key)) \<Longrightarrow>
   contrib mh t key j = (if j \<in> set (fst (getHashesInto mh t key)) then keyUnit mh t key else 0)"
proof -
  have "(\<Sum>i\<leftarrow>is. if i = j then u else 0) = (if j \<in> set is then u else 0)" if "distinct is" for "is" and u :: Bucket
    using that by (induction "is") auto
  then show "distinct (fst (getHashesInto mh t key)) \<Longrightarrow> ?thesis" by (simp add: contrib_def)
qed

lemma solo_step:
  assumes ok: "table_ok t" and dist: "distinct (fst (getHashesInto mh t key))"
    and k: "2 \<le> ibltK t" and x: "x \<in> set (fst (getHashesInto mh t key))"
    and inv: "soloUnit mh t key x st \<or> soloDebt mh t key x st"
  shows "soloUnit mh t key x (peelRound mh st) \<or> soloDebt mh t key x (peelRound mh st)"
proof -
  let ?ts = "set (fst (getHashesInto mh t key))"
  let ?T = "peelTable st" and ?T' = "peelTable (peelRound mh st)"
  have sh: "same_shape ?T t" using inv by (auto simp: soloUnit_def soloDebt_def)
  note okT = same_shape_ok [OF sh ok]
  have xlt: "x < length (buckets t)" by (rule targets_less [OF ok x])
  obtain i rest where pend: "pending st = i # rest" and ilt: "i < length (buckets t)"
    using inv by (cases "pending st") (auto simp: soloUnit_def soloDebt_def)
  have hd: "peelHead st < length (pureQueue st)" using pend pending_iff by simp
  show ?thesis
  proof (cases "isPure mh ?T i")
    case False
    note r = peelRound_skip [OF hd pend False]
    from inv show ?thesis
    proof
      assume u: "soloUnit mh t key x st"
      then have "i \<noteq> x" using False isPure_unit(1) [OF sh] ilt by (auto simp: soloUnit_def)
      then show ?thesis using u r pend by (auto simp: soloUnit_def)
    next
      assume u: "soloDebt mh t key x st"
      then have "i \<notin> ?ts - {x}" using False isPure_unit(2) [OF sh, of i mh key] ilt unfolding soloDebt_def by metis
      then show ?thesis using u r pend by (auto simp: soloDebt_def)
    qed
  next
    case True
    have kU: "KeySum (keyUnit mh t key) = key" "Count (keyUnit mh t key) = 1"
       "KeySum (- keyUnit mh t key) = key" "Count (- keyUnit mh t key) = - 1" "(- 1 :: u32) \<noteq> 1"
      by (simp_all add: keyUnit_def uminus_Bucket_def)
    have kT: "keyUnit mh ?T key = keyUnit mh t key" "fst (getHashesInto mh ?T key) = fst (getHashesInto mh t key)"
      using same_shape_contrib(2) [OF sh, of mh] same_shape_hashes [OF sh, of mh] by simp_all
    have sh': "same_shape ?T' t"
      using peelRound_pure(1) [OF hd pend True refl refl] removeKey_cell(1) [OF okT] sh same_shape_trans by metis
    have nxt: "\<exists>ex. pending (peelRound mh st) = rest @ ex \<and> set ex \<subseteq> ?ts \<and> (\<forall>j\<in>?ts. isPure mh ?T' j \<longrightarrow> j \<in> set ex)"
      if "KeySum (cell ?T i) = key"
      using peelRound_pure(2) [OF hd pend True refl refl] that kT by auto
    have c: "cell ?T' j = (if Count (cell ?T i) = 1 then cell ?T j - contrib mh t key j else cell ?T j + contrib mh t key j)"
      if "KeySum (cell ?T i) = key" "j < length (buckets t)" for j
      using peelRound_pure(1) [OF hd pend True refl refl] removeKey_cell(2) [OF okT, of j mh] that sh
        same_shape_contrib(1) [OF sh, of mh] by (simp add: same_shape_def)
    note cd = contrib_distinct [OF dist]
    have rest: "set rest \<subseteq> {..<length (buckets t)}" using inv pend by (auto simp: soloUnit_def soloDebt_def)
    from inv show ?thesis
    proof
      assume u: "soloUnit mh t key x st"
      have i: "i = x" using u True isPure_unit(3) ilt unfolding soloUnit_def by metis
      then have ci: "cell ?T i = keyUnit mh t key" using u ilt by (simp add: soloUnit_def)
      have cells: "\<forall>j<length (buckets t). cell ?T' j = (if j \<in> ?ts - {x} then - keyUnit mh t key else 0)"
        using u c kU ci x by (auto simp: soloUnit_def cd)
      obtain y where y: "y \<in> ?ts - {x}"
      proof -
        have "card ?ts \<ge> 2" using distinct_card [OF dist] k by simp
        then have "\<not> ?ts \<subseteq> {x}" using card_mono [of "{x}" ?ts] by auto
        then show ?thesis using that by blast
      qed
      then have "isPure mh ?T' y" using cells isPure_unit(2) [OF sh', of y mh key] targets_less [OF ok] by auto
      then obtain ex where "pending (peelRound mh st) = rest @ ex" "set ex \<subseteq> ?ts" "y \<in> set ex"
        using nxt ci kU(1) y by auto
      then have "soloDebt mh t key x (peelRound mh st)"
        using cells sh' y rest targets_less [OF ok, of _ mh key] unfolding soloDebt_def by auto
      then show ?thesis ..
    next
      assume u: "soloDebt mh t key x st"
      have "i \<in> ?ts - {x}" using u True isPure_unit(3) [of ?T i mh] ilt unfolding soloDebt_def by metis
      then have ci: "cell ?T i = - keyUnit mh t key" using u ilt by (simp add: soloDebt_def)
      have cells: "\<forall>j<length (buckets t). cell ?T' j = (if j = x then keyUnit mh t key else 0)"
        using u c kU ci x by (auto simp: soloDebt_def cd)
      then have "isPure mh ?T' x" using isPure_unit(1) [OF sh', of x mh key] xlt by auto
      then obtain ex where "pending (peelRound mh st) = rest @ ex" "set ex \<subseteq> ?ts" "x \<in> set ex"
        using nxt ci kU(3) x by auto
      then have "soloUnit mh t key x (peelRound mh st)"
        using cells sh' rest targets_less [OF ok, of _ mh key] unfolding soloUnit_def by auto
      then show ?thesis ..
    qed
  qed
qed

section \<open>Properties of peeling\<close>

definition ex_hash :: hasher where
  "ex_hash sd bs = (if bs ! 0 = 1 then 0 else if bs ! 0 = 2 then 2 else 1)"

definition ex_table :: IBLT where
  "ex_table = \<lparr>buckets = replicate 4 0, ibltK = 2, ibltSeed = 7\<rparr>"

text \<open>
  C23. Insert, Subtract and Peel agree with each other, whatever the hash: when peeling the difference
  of two tables reports success, inserting its two key lists into the opposite tables makes the tables
  equal. No hypothesis on hash collisions is needed.
\<close>

theorem Peel_explains_difference:
  assumes "table_ok a" and "Subtract a b = Some d" and "ibltSeed a = ibltSeed b"
    and "Peel mh d = Some (ls, rs, True)"
  shows "\<exists>m. insertAll mh rs a = Some m \<and> insertAll mh ls b = Some m"
  by (rule Peel_explains_aux [OF assms])

text \<open>
  C20. Peeling the difference of two digests ends and returns exactly the two set differences, with no
  key twice, when no mixed bucket passes the purity test and no sub-collection of the keys is stuck.
\<close>

theorem Peel_reconciles:
  assumes "NewIBLTWithSeed n k sd = Some z" "0 < n" "n < 2 ^ 63"
    and "insertAll mh xs z = Some a" "insertAll mh ys z = Some b" "distinct xs" "distinct ys"
    and "no_false_pure mh z (set xs - set ys) (set ys - set xs)"
    and "peelable mh z (set xs - set ys) (set ys - set xs)"
  shows "\<exists>d ls rs. Subtract a b = Some d \<and> Peel mh d = Some (ls, rs, True) \<and> distinct ls \<and> distinct rs \<and>
    set ls = set xs - set ys \<and> set rs = set ys - set xs"
  using Subtract_digests [OF assms(1-7)] Peel_exact_aux [OF _ assms(8,9)] by blast

text \<open>
  C26. The peeling loop returns on every difference on which no mixed bucket passes the purity test,
  whether or not the table had enough buckets, and every key it reports belongs to the right side.
\<close>

theorem Peel_terminates:
  assumes "table_ok t" and "no_false_pure mh t A B"
  shows "\<exists>ls rs ok. Peel mh (tableOf mh t A B) = Some (ls, rs, ok) \<and> distinct ls \<and> distinct rs \<and>
    set ls \<subseteq> A \<and> set rs \<subseteq> B"
proof -
  obtain st where "peelLoop mh (peelStart mh (tableOf mh t A B)) = Some st" "peelInv mh t A B st"
    using Peel_sound_aux [OF assms] by blast
  then show ?thesis by (auto simp: Peel_def peelInv_def)
qed

text \<open>
  C27. The peeling loop runs forever on a table in which one bucket of a key is set and the other
  buckets of that key are empty: the key is removed and restored in turn, and each time the changed
  buckets pass the purity test and are enqueued again.
\<close>

theorem Peel_diverges:
  assumes "table_ok t" "distinct (fst (getHashesInto mh t key))" "2 \<le> ibltK t"
    and "x \<in> set (fst (getHashesInto mh t key))"
    and "buckets t = (replicate (length (buckets t)) 0) [x := keyUnit mh t key]"
  shows "Peel mh t = None"
proof -
  have xlt: "x < length (buckets t)" by (rule targets_less [OF assms(1,4)])
  have cells: "\<forall>j<length (buckets t). cell t j = (if j = x then keyUnit mh t key else 0)"
    by (subst assms(5)) (auto simp: nth_list_update)
  let ?I = "\<lambda>st. soloUnit mh t key x st \<or> soloDebt mh t key x st"
  have pure: "isPure mh t x" using isPure_unit(1) [OF same_shape_refl] cells xlt by simp
  have start: "?I (peelStart mh t)"
    using cells xlt pure by (auto simp: soloUnit_def peelStart_def pending_def)
  have "peelLoop mh (peelStart mh t) = None"
  proof (rule ccontr)
    assume "peelLoop mh (peelStart mh t) \<noteq> None"
    then obtain st where st: "peelLoop mh (peelStart mh t) = Some st" by blast
    have "?I st \<and> pending st = []"
      by (rule peelLoop_rule [OF st, where P = ?I, OF start]) (rule solo_step [OF assms(1-4)]; assumption)+
    then show False by (auto simp: soloUnit_def soloDebt_def)
  qed
  then show ?thesis by (simp add: Peel_def)
qed

lemma ex_targets:
  assumes "ibltK t = 2" "length (buckets t) = 4"
  shows "getHashesInto ex_hash t 0 = ([1, 2], 1)" "getHashesInto ex_hash t 1 = ([0, 1], 0)"
    "getHashesInto ex_hash t 2 = ([2, 3], 2)"
  using assms by (simp_all add: getHashesInto_def hashKeyWithSeed_def Let_def ex_hash_def le_bytes_def upt_rec)

lemma ex_contrib:
  "contrib ex_hash ex_table 1 j = (if j = 0 \<or> j = 1 then Bucket 1 1 0 else 0)"
  "contrib ex_hash ex_table 2 j = (if j = 2 \<or> j = 3 then Bucket 1 2 2 else 0)"
  by (auto simp: contrib_def keyUnit_def ex_targets ex_table_def)

lemma ex_cells:
  assumes "P \<subseteq> {1}" "M \<subseteq> {2}"
  shows "buckets (tableOf ex_hash ex_table P M) =
     [if P = {} then 0 else Bucket 1 1 0, if P = {} then 0 else Bucket 1 1 0,
      if M = {} then 0 else Bucket (- 1) 2 2, if M = {} then 0 else Bucket (- 1) 2 2]"
proof -
  have upt: "[0..<4] = [0, 1, 2, 3 :: nat]" "length (buckets ex_table) = 4" by (simp_all add: upt_rec ex_table_def)
  have neg: "- Bucket 1 2 2 = Bucket (- 1) 2 2" by (simp add: uminus_Bucket_def)
  have "P = {} \<or> P = {1}" "M = {} \<or> M = {2}" using assms by auto
  then show ?thesis by (elim disjE) (simp_all add: tableOf_def upt ex_contrib neg)
qed

lemma ex_pure:
  assumes "P \<subseteq> {1}" "M \<subseteq> {2}" "j < 4"
  shows "isPure ex_hash (tableOf ex_hash ex_table P M) j \<longleftrightarrow> (if j < 2 then P \<noteq> {} else M \<noteq> {})"
proof -
  have "j = 0 \<or> j = 1 \<or> j = 2 \<or> j = 3" using assms(3) by auto
  moreover have "ibltK (tableOf ex_hash ex_table P M) = 2" "length (buckets (tableOf ex_hash ex_table P M)) = 4"
    by (simp_all add: tableOf_def ex_table_def)
  ultimately show ?thesis
    using assms(1,2) by (auto simp: isPure_def Let_def ex_cells ex_targets zero_Bucket_def)
qed

lemma ex_no_false_pure: "no_false_pure ex_hash ex_table {1} {2}"
proof -
  have "KeySum (cell (tableOf ex_hash ex_table P M) j) \<in> (if Count (cell (tableOf ex_hash ex_table P M) j) = 1 then P else M)"
    if "P \<subseteq> {1}" "M \<subseteq> {2}" "j < 4" "isPure ex_hash (tableOf ex_hash ex_table P M) j" for P M j
  proof -
    have "j = 0 \<or> j = 1 \<or> j = 2 \<or> j = 3" using that(3) by auto
    then show ?thesis using that ex_pure [OF that(1-3)] by (auto simp: ex_cells)
  qed
  moreover have "length (buckets ex_table) = 4" by (simp add: ex_table_def)
  ultimately show ?thesis unfolding no_false_pure_def by (metis PowD)
qed

lemma ex_peelable: "peelable ex_hash ex_table {1} {2}"
proof -
  have l: "length (buckets ex_table) = 4" by (simp add: ex_table_def)
  show ?thesis
    unfolding peelable_def l
  proof (intro ballI impI)
    fix P M :: "u64 set"
    assume a: "P \<in> Pow {1}" "M \<in> Pow {2}" "P \<noteq> {} \<or> M \<noteq> {}"
    then show "\<exists>j<4. isPure ex_hash (tableOf ex_hash ex_table P M) j"
      using ex_pure [of P M "if P \<noteq> {} then 0 else 2"] by (intro exI [of _ "if P \<noteq> {} then 0 else 2"]) auto
  qed
qed

theorem Peel_diverges_witness:
  "Peel ex_hash (ex_table\<lparr>buckets := (buckets ex_table) [0 := Bucket 1 1 0]\<rparr>) = None"
proof (rule Peel_diverges [where key = 1 and x = 0])
  let ?t = "ex_table\<lparr>buckets := (buckets ex_table) [0 := Bucket 1 1 0]\<rparr>"
  have h: "getHashesInto ex_hash ?t 1 = ([0, 1], 0)" by (rule ex_targets) (simp_all add: ex_table_def)
  show "table_ok ?t" by (simp add: table_ok_def ex_table_def)
  show "distinct (fst (getHashesInto ex_hash ?t 1))" "0 \<in> set (fst (getHashesInto ex_hash ?t 1))" by (simp_all add: h)
  show "2 \<le> ibltK ?t" by (simp add: ex_table_def)
  show "buckets ?t = (replicate (length (buckets ?t)) 0) [0 := keyUnit ex_hash ?t 1]"
    using h by (simp add: keyUnit_def) (simp add: ex_table_def)
qed

lemma ex_digests:
  "\<exists>a b. insertAll ex_hash [1, 3] ex_table = Some a \<and> insertAll ex_hash [2, 3] ex_table = Some b \<and> table_ok a \<and>
     same_shape a ex_table \<and> same_shape b ex_table \<and> Subtract a b = Some (tableOf ex_hash ex_table {1} {2})"
proof -
  have ok: "table_ok ex_table" by (simp add: table_ok_def ex_table_def)
  obtain a b where ab: "insertAll ex_hash [1, 3] ex_table = Some a" "insertAll ex_hash [2, 3] ex_table = Some b"
    using insertAll_Some [OF ok] by metis
  have z: "NewIBLTWithSeed 4 2 7 = Some ex_table" by (simp add: NewIBLTWithSeed_def ex_table_def ibltMaxK_def)
  have s: "set [1, 3] - set [2, 3] = {1 :: u64}" "set [2, 3] - set [1, 3] = {2 :: u64}" by auto
  have "Subtract a b = Some (tableOf ex_hash ex_table {1} {2})"
    using Subtract_digests [OF z _ _ ab] unfolding s by simp
  then show ?thesis
    using ab insertAll_cell(1) [OF ok ab(1)] insertAll_cell(1) [OF ok ab(2)] same_shape_ok ok by blast
qed

theorem Peel_explains_difference_witness:
  "\<exists>a b m ls rs. insertAll ex_hash [1, 3] ex_table = Some a \<and> insertAll ex_hash [2, 3] ex_table = Some b \<and>
     insertAll ex_hash rs a = Some m \<and> insertAll ex_hash ls b = Some m"
proof -
  obtain a b where ab: "insertAll ex_hash [1, 3] ex_table = Some a" "insertAll ex_hash [2, 3] ex_table = Some b"
    "table_ok a" "same_shape a ex_table" "same_shape b ex_table" "Subtract a b = Some (tableOf ex_hash ex_table {1} {2})"
    using ex_digests by blast
  have "table_ok ex_table" by (simp add: table_ok_def ex_table_def)
  then obtain ls rs where p: "Peel ex_hash (tableOf ex_hash ex_table {1} {2}) = Some (ls, rs, True)"
    using Peel_exact_aux [OF _ ex_no_false_pure ex_peelable] by blast
  have "ibltSeed a = ibltSeed b" using ab(4,5) by (simp add: same_shape_def)
  from Peel_explains_difference [OF ab(3,6) this p] obtain m
    where "insertAll ex_hash rs a = Some m" "insertAll ex_hash ls b = Some m" by blast
  with ab(1,2) show ?thesis by blast
qed

theorem Peel_terminates_witness:
  "\<exists>ls rs ok. Peel ex_hash (tableOf ex_hash ex_table {1} {2}) = Some (ls, rs, ok) \<and> set ls \<subseteq> {1} \<and> set rs \<subseteq> {2}"
  using Peel_terminates [OF _ ex_no_false_pure] by (fastforce simp: table_ok_def ex_table_def)

theorem Peel_reconciles_witness:
  "\<exists>a b d ls rs. insertAll ex_hash [1, 3] ex_table = Some a \<and> insertAll ex_hash [2, 3] ex_table = Some b \<and>
     Subtract a b = Some d \<and> Peel ex_hash d = Some (ls, rs, True) \<and> set ls = {1} \<and> set rs = {2}"
proof -
  obtain a b where ab: "insertAll ex_hash [1, 3] ex_table = Some a" "insertAll ex_hash [2, 3] ex_table = Some b"
    using ex_digests by blast
  have z: "NewIBLTWithSeed 4 2 7 = Some ex_table" by (simp add: NewIBLTWithSeed_def ex_table_def ibltMaxK_def)
  have s: "set [1, 3] - set [2, 3] = {1 :: u64}" "set [2, 3] - set [1, 3] = {2 :: u64}" by auto
  show ?thesis
    using Peel_reconciles [OF z _ _ ab] ex_no_false_pure ex_peelable ab unfolding s by auto
qed

end
