(* ===== verification/Strata.thy ===== *)
theory Strata
  imports Iblt_Peel
begin

text \<open>
  The strata estimator: the de Bruijn lookup computes the number of trailing zeros, every key goes to
  the stratum of that number, and when each stratum peels the estimate is the exact size of the
  symmetric difference. Bounds on the size of the table made from the estimate.
\<close>

section \<open>Trailing zeros\<close>

lemma lowest_bit:
  fixes x :: u64
  assumes "x \<noteq> 0"
  obtains n where "n < 64" "bit x n" "\<And>m. m < n \<Longrightarrow> \<not> bit x m"
proof -
  obtain k where "bit x k" using assms bit_eqI [of x 0] by auto
  then have "bit x (LEAST n. bit x n)" by (rule LeastI)
  moreover have "\<not> bit x m" if "m < (LEAST n. bit x n)" for m
    using that by (rule not_less_Least)
  moreover have "(LEAST n. bit x n) < 64" using calculation(1) bit_imp_le_length by fastforce
  ultimately show ?thesis using that by blast
qed

lemma and_odd_double: "(1 + 2 * a) AND (1 + 2 * b) = 1 + 2 * (a AND b)" for a b :: u64
  by (rule bit_eqI) (auto simp: bit_and_iff even_bit_succ_iff bit_double_iff)

lemma and_minus_lowest:
  fixes x :: u64
  assumes "bit x n" "\<And>m. m < n \<Longrightarrow> \<not> bit x m"
  shows "x AND - x = 2 ^ n"
proof -
  define y where "y = drop_bit n x"
  have x: "x = push_bit n y"
  proof (rule bit_eqI)
    fix m assume "possible_bit TYPE(64 word) m"
    then show "bit x m = bit (push_bit n y) m"
      using assms(2) [of m] by (cases "m < n") (auto simp: y_def bit_push_bit_iff bit_drop_bit_eq)
  qed
  have "odd y" using assms(1) by (simp add: y_def bit_iff_odd_drop_bit)
  define k where "k = drop_bit 1 y"
  have y: "y = 1 + 2 * k"
    by (rule bit_eqI) (use \<open>odd y\<close> in \<open>auto simp: k_def even_bit_succ_iff bit_double_iff bit_drop_bit_eq bit_0 gr0_conv_Suc\<close>)
  have "- y = 1 + 2 * NOT k" using y by (simp add: not_eq_complement)
  then have "y AND - y = 1" using y and_odd_double [of k "NOT k"] by simp
  moreover have "- x = push_bit n (- y)" by (simp add: x push_bit_eq_mult)
  ultimately show ?thesis by (simp add: x push_bit_and [symmetric])
qed

lemma deBruijn_lookup: "n < 64 \<Longrightarrow> deBruijnTable ! unat (drop_bit 58 (2 ^ n * deBruijn)) = n"
proof -
  have "list_all (\<lambda>n. deBruijnTable ! unat (drop_bit 58 (2 ^ n * deBruijn)) = n) [0..<64]"
    by (simp add: upt_rec deBruijn_def deBruijnTable_def)
  then show "n < 64 \<Longrightarrow> ?thesis" by (simp add: list_all_iff)
qed

lemma trailingZeros64_bit:
  assumes "x \<noteq> 0"
  shows "bit x (trailingZeros64 x) \<and> (\<forall>m<trailingZeros64 x. \<not> bit x m)"
proof -
  obtain n where n: "n < 64" "bit x n" "\<And>m. m < n \<Longrightarrow> \<not> bit x m" using lowest_bit [OF assms] by blast
  then have "trailingZeros64 x = n" using assms by (simp add: trailingZeros64_def and_minus_lowest deBruijn_lookup)
  then show ?thesis using n by simp
qed


section \<open>Strata\<close>

definition strataOf :: "u64 \<Rightarrow> nat" where
  "strataOf key = (if trailingZeros64 key \<ge> strataCount then strataCount - 1 else trailingZeros64 key)"

primrec strataInsertAll :: "hasher \<Rightarrow> u64 list \<Rightarrow> StrataEstimator \<Rightarrow> StrataEstimator option" where
  "strataInsertAll mh [] se = Some se"
| "strataInsertAll mh (x # xs) se =
     (case Strata_Insert mh x se of None \<Rightarrow> None | Some se' \<Rightarrow> strataInsertAll mh xs se')"

abbreviation stratumTable :: "Seed \<Rightarrow> IBLT" where
  "stratumTable sd \<equiv> \<lparr>buckets = replicate strataIBLTBuckets 0, ibltK = strataK, ibltSeed = sd\<rparr>"

lemma strataOf_less: "strataOf key < strataCount"
  by (simp add: strataOf_def strataCount_def)

lemma NewStrata_nth: "s < strataCount \<Longrightarrow> strata (NewStrataEstimator sd) ! s = stratumTable sd"
  by (simp add: NewStrataEstimator_def NewIBLTWithSeed_def strataK_def ibltMaxK_def)

lemma Strata_Insert_nth:
  assumes "Strata_Insert mh key se = Some se'" "length (strata se) = strataCount"
  shows "length (strata se') = strataCount \<and> strataSeed se' = strataSeed se \<and>
    (\<forall>s < strataCount. if s = strataOf key then IBLT_Insert mh key (strata se ! s) = Some (strata se' ! s)
       else strata se' ! s = strata se ! s)"
  using assms strataOf_less [of key]
  by (auto simp: Strata_Insert_def strataOf_def [symmetric] Let_def nth_list_update split: option.splits)

lemma strataInsertAll_nth:
  "strataInsertAll mh xs se = Some se' \<Longrightarrow> length (strata se) = strataCount \<Longrightarrow> s < strataCount \<Longrightarrow>
   insertAll mh (filter (\<lambda>x. strataOf x = s) xs) (strata se ! s) = Some (strata se' ! s)"
proof (induction xs arbitrary: se)
  case (Cons x xs)
  then obtain se1 where se1: "Strata_Insert mh x se = Some se1" "strataInsertAll mh xs se1 = Some se'"
    by (auto split: option.splits)
  note n = Strata_Insert_nth [OF se1(1) Cons.prems(2)]
  have "insertAll mh (filter (\<lambda>x. strataOf x = s) xs) (strata se1 ! s) = Some (strata se' ! s)"
    using Cons.IH [OF se1(2)] n Cons.prems(3) by blast
  then show ?case using n Cons.prems(3) by (auto split: if_splits)
qed simp

definition strataDiff :: "u64 list \<Rightarrow> u64 list \<Rightarrow> nat \<Rightarrow> u64 set" where
  "strataDiff xs ys s = {x \<in> set xs - set ys. strataOf x = s}"

text \<open>Every stratum is within the capacity of its table.\<close>

definition strata_peelable :: "hasher \<Rightarrow> Seed \<Rightarrow> u64 list \<Rightarrow> u64 list \<Rightarrow> bool" where
  "strata_peelable mh sd xs ys \<longleftrightarrow> (\<forall>s < strataCount.
     no_false_pure mh (stratumTable sd) (strataDiff xs ys s) (strataDiff ys xs s) \<and>
     peelable mh (stratumTable sd) (strataDiff xs ys s) (strataDiff ys xs s))"

lemma stratum_peel:
  assumes ins: "strataInsertAll mh xs (NewStrataEstimator sd) = Some a" "strataInsertAll mh ys (NewStrataEstimator sd) = Some b"
    and dist: "distinct xs" "distinct ys" and sp: "strata_peelable mh sd xs ys" and s: "s < strataCount"
  shows "\<exists>d ls rs. Subtract (strata a ! s) (strata b ! s) = Some d \<and> Peel mh d = Some (ls, rs, True) \<and>
    length ls = card (strataDiff xs ys s) \<and> length rs = card (strataDiff ys xs s)"
proof -
  have l: "length (strata (NewStrataEstimator sd)) = strataCount" by (simp add: NewStrataEstimator_def)
  let ?f = "filter (\<lambda>x. strataOf x = s)"
  have i: "insertAll mh (?f xs) (stratumTable sd) = Some (strata a ! s)"
    "insertAll mh (?f ys) (stratumTable sd) = Some (strata b ! s)"
    using strataInsertAll_nth [OF ins(1) l s] strataInsertAll_nth [OF ins(2) l s] NewStrata_nth [OF s] by simp_all
  have z: "NewIBLTWithSeed strataIBLTBuckets strataK sd = Some (stratumTable sd)"
    by (simp add: NewIBLTWithSeed_def strataK_def ibltMaxK_def)
  have d: "set (?f xs) - set (?f ys) = strataDiff xs ys s" "set (?f ys) - set (?f xs) = strataDiff ys xs s"
    by (auto simp: strataDiff_def)
  have sub: "Subtract (strata a ! s) (strata b ! s) =
      Some (tableOf mh (stratumTable sd) (strataDiff xs ys s) (strataDiff ys xs s)) \<and> table_ok (stratumTable sd)"
    using Subtract_digests [OF z _ _ i] dist unfolding d by (simp add: strataIBLTBuckets_def)
  then show ?thesis
    using Peel_exact_aux [of "stratumTable sd" mh "strataDiff xs ys s" "strataDiff ys xs s"] sp s
    by (auto simp: strata_peelable_def distinct_card [symmetric])
qed

lemma estimateFrom_exact:
  assumes "\<And>s. s < n \<Longrightarrow> \<exists>d ls rs. Subtract (as ! s) (bs ! s) = Some d \<and> Peel mh d = Some (ls, rs, True) \<and>
      length ls = f s \<and> length rs = g s"
  shows "estimateFrom mh as bs n cnt = Some (cnt + of_nat (\<Sum>s<n. f s + g s))"
  using assms
proof (induction n arbitrary: cnt)
  case (Suc n)
  obtain d ls rs where "Subtract (as ! n) (bs ! n) = Some d" "Peel mh d = Some (ls, rs, True)"
    "length ls = f n" "length rs = g n" using Suc.prems [of n] by auto
  then show ?case using Suc.IH [of "cnt + of_nat (f n) + of_nat (g n)"] Suc.prems by (simp add: algebra_simps)
qed simp

lemma sum_strata: "(\<Sum>s < strataCount. card (strataDiff xs ys s)) = card (set xs - set ys)"
proof -
  have "set xs - set ys = (\<Union>s < strataCount. strataDiff xs ys s)"
    using strataOf_less by (auto simp: strataDiff_def)
  moreover have "card (\<Union>s < strataCount. strataDiff xs ys s) = (\<Sum>s < strataCount. card (strataDiff xs ys s))"
    by (rule card_UN_disjoint) (auto simp: strataDiff_def)
  ultimately show ?thesis by simp
qed

text \<open>
  The de Bruijn table lookup is the number of trailing zero bits of every 64-bit value, 64 for 0.
\<close>

theorem trailingZeros64_correct:
  "trailingZeros64 x = (if x = 0 then 64 else (LEAST n. bit x n))"
proof (cases "x = 0")
  case False
  have "(LEAST n. bit x n) = trailingZeros64 x"
    by (rule Least_equality) (use trailingZeros64_bit [OF False] in \<open>auto simp: not_less [symmetric]\<close>)
  then show ?thesis using False by simp
qed (simp add: trailingZeros64_def)

text \<open>
  When every stratum of two estimators is within capacity, the estimate is the exact number of
  keys that one side has and the other does not.
\<close>

theorem Estimate_exact:
  assumes "strataInsertAll mh xs (NewStrataEstimator sd) = Some a" "strataInsertAll mh ys (NewStrataEstimator sd) = Some b"
    and "distinct xs" "distinct ys" and "strata_peelable mh sd xs ys"
  shows "Estimate mh a b = Some (of_nat (card (set xs - set ys) + card (set ys - set xs)))"
proof -
  have "(\<Sum>s < strataCount. card (strataDiff xs ys s) + card (strataDiff ys xs s)) =
      card (set xs - set ys) + card (set ys - set xs)"
    by (simp add: sum.distrib sum_strata)
  then show ?thesis
    using estimateFrom_exact [OF stratum_peel [OF assms], of strataCount 0] by (simp add: Estimate_def)
qed


text \<open>One key on one side only: distinct targets are enough.\<close>

lemma single_peels:
  assumes ok: "table_ok t" and d: "distinct (fst (getHashesInto mh t x))" and k: "0 < ibltK t"
    and AB: "A = {x} \<and> B = {} \<or> A = {} \<and> B = {x}"
  shows "no_false_pure mh t A B \<and> peelable mh t A B"
proof -
  have c: "cell (tableOf mh t P M) j = (if j \<in> set (fst (getHashesInto mh t x)) then
      (if P \<noteq> {} then keyUnit mh t x else if M \<noteq> {} then - keyUnit mh t x else 0) else 0)"
    if "P \<subseteq> A" "M \<subseteq> B" "j < length (buckets t)" for P M j
  proof -
    have "P = {} \<and> M = {} \<or> P = {x} \<and> M = {} \<or> P = {} \<and> M = {x}" using that(1,2) AB by auto
    then show ?thesis using that(3) by (auto simp: tableOf_cell contrib_distinct [OF d])
  qed
  have u: "KeySum (keyUnit mh t x) = x" "Count (keyUnit mh t x) = 1" "KeySum (- keyUnit mh t x) = x"
    "Count (- keyUnit mh t x) = - 1" by (simp_all add: keyUnit_def uminus_Bucket_def)
  have "no_false_pure mh t A B"
    unfolding no_false_pure_def
  proof (intro ballI allI impI)
    fix P M j assume a: "P \<in> Pow A" "M \<in> Pow B" "j < length (buckets t)" "isPure mh (tableOf mh t P M) j"
    then have "cell (tableOf mh t P M) j \<noteq> 0" using isPure_unit(3) by blast
    then have "P = {x} \<and> cell (tableOf mh t P M) j = keyUnit mh t x \<or>
        M = {x} \<and> cell (tableOf mh t P M) j = - keyUnit mh t x"
      using c [of P M j] a AB by (auto split: if_splits)
    then show "if Count (cell (tableOf mh t P M) j) = 1 then KeySum (cell (tableOf mh t P M) j) \<in> P
        else KeySum (cell (tableOf mh t P M) j) \<in> M" using u by auto
  qed
  moreover have "peelable mh t A B"
    unfolding peelable_def
  proof (intro ballI impI)
    fix P M assume a: "P \<in> Pow A" "M \<in> Pow B" "P \<noteq> {} \<or> M \<noteq> {}"
    obtain j where j: "j \<in> set (fst (getHashesInto mh t x))"
      using k length_targets [of mh t x] by (metis length_greater_0_conv list.set_sel(1))
    then have "cell (tableOf mh t P M) j = keyUnit mh t x \<or> cell (tableOf mh t P M) j = - keyUnit mh t x"
      using c [of P M j] a targets_less [OF ok j] by auto
    then have "isPure mh (tableOf mh t P M) j"
      using isPure_unit(1,2) [OF tableOf_shape [of mh t P M]] by blast
    then show "\<exists>j<length (buckets t). isPure mh (tableOf mh t P M) j" using targets_less [OF ok j] by blast
  qed
  ultimately show ?thesis ..
qed

lemma empty_peels: "no_false_pure mh t {} {} \<and> peelable mh t {} {}"
  using isPure_unit(3) by (auto simp: no_false_pure_def peelable_def tableOf_cell)

lemma ex_stratum_targets:
  "getHashesInto ex_hash (stratumTable 7) 1 = ([0, 1, 2], 0)"
  "getHashesInto ex_hash (stratumTable 7) 2 = ([2, 3, 4], 2)"
  by (simp_all add: getHashesInto_def hashKeyWithSeed_def Let_def ex_hash_def le_bytes_def upt_rec strataK_def
      strataIBLTBuckets_def)

lemma ex_strata_peelable: "strata_peelable ex_hash 7 [1] [2]"
proof -
  have tz: "trailingZeros64 1 = 0" "trailingZeros64 2 = 1"
    by (simp_all add: trailingZeros64_def deBruijn_def deBruijnTable_def)
  have "strataDiff [1] [2] s = (if s = 0 then {1} else {})" "strataDiff [2] [1] s = (if s = 1 then {2} else {})" for s
    by (auto simp: strataDiff_def strataOf_def tz strataCount_def)
  moreover have "table_ok (stratumTable 7)" by (simp add: table_ok_def strataIBLTBuckets_def)
  moreover have "0 < strataK" by (simp add: strataK_def)
  moreover have "distinct (fst (getHashesInto ex_hash (stratumTable 7) 1))"
    "distinct (fst (getHashesInto ex_hash (stratumTable 7) 2))" by (simp_all add: ex_stratum_targets)
  ultimately show ?thesis
    using single_peels [of "stratumTable 7" ex_hash 1 "{1}" "{}"] single_peels [of "stratumTable 7" ex_hash 2 "{}" "{2}"]
      empty_peels [of ex_hash "stratumTable 7"]
    by (simp add: strata_peelable_def)
qed

lemma strataInsertAll_Some:
  assumes "length (strata se) = strataCount" "\<forall>s < strataCount. table_ok (strata se ! s)"
  shows "\<exists>se'. strataInsertAll mh xs se = Some se'"
  using assms
proof (induction xs arbitrary: se)
  case (Cons x xs)
  obtain t where t: "IBLT_Insert mh x (strata se ! strataOf x) = Some t"
    using Insert_Some Cons.prems strataOf_less by blast
  then obtain se1 where se1: "Strata_Insert mh x se = Some se1"
    by (simp add: Strata_Insert_def strataOf_def [symmetric])
  note n = Strata_Insert_nth [OF se1 Cons.prems(1)]
  have "table_ok (strata se1 ! s)" if s: "s < strataCount" for s
    using n s Cons.prems(2) Insert_cell(1) [of "strata se ! s" mh x "strata se1 ! s"] same_shape_ok
    by (metis (full_types))
  then show ?case using Cons.IH [of se1] n se1 by simp
qed simp

theorem Estimate_exact_witness:
  "\<exists>a b. strataInsertAll ex_hash [1] (NewStrataEstimator 7) = Some a \<and>
     strataInsertAll ex_hash [2] (NewStrataEstimator 7) = Some b \<and> Estimate ex_hash a b = Some 2"
proof -
  have l: "length (strata (NewStrataEstimator 7)) = strataCount" by (simp add: NewStrataEstimator_def)
  have t: "\<forall>s < strataCount. table_ok (strata (NewStrataEstimator 7) ! s)"
    by (simp add: NewStrata_nth table_ok_def strataIBLTBuckets_def)
  obtain a b where ab: "strataInsertAll ex_hash [1] (NewStrataEstimator 7) = Some a"
    "strataInsertAll ex_hash [2] (NewStrataEstimator 7) = Some b" using strataInsertAll_Some [OF l t] by metis
  have "Estimate ex_hash a b = Some 2" using Estimate_exact [OF ab _ _ ex_strata_peelable] by simp
  then show ?thesis using ab by blast
qed

text \<open>
  The size of the reconciliation table: never below the floor, one and a half times the estimate
  rounded down above it, as long as three times the estimate fits a machine integer.
\<close>

theorem DynamicIBLTSize_bounds:
  assumes "0 \<le> sint dEst" and "3 * sint dEst < 2 ^ 63"
  shows "DynamicIBLTSize dEst = max 128 (3 * sint dEst div 2) \<and> DynamicIBLTSize dEst \<ge> sint dEst"
proof -
  have "sint (dEst * 3) = 3 * sint dEst"
  proof -
    have "sint (dEst * 3) = signed_take_bit 63 (sint dEst * 3)" by (simp add: sint_word_ariths(3))
    also have "\<dots> = 3 * sint dEst" using assms by (simp add: signed_take_bit_int_eq_self)
    finally show ?thesis .
  qed
  then show ?thesis using assms
    by (auto simp: DynamicIBLTSize_def Let_def ibltSafetyFactor_def minDynamicBuckets_def quot2_def max_def)
qed

theorem DynamicIBLTSize_bounds_witness:
  "DynamicIBLTSize 1001 = 1501"
  using DynamicIBLTSize_bounds [of 1001] by simp

end
