(* ===== verification/Anti_Entropy.thy ===== *)
theory Anti_Entropy
  imports Convergence Strata
begin

text \<open>
  Anti-entropy between two engines (\<^verbatim>\<open>pkg/sync/crdt.go\<close>): the key of an entry, the digest of all
  entries, the delta computed against the digest of the other side, and what one round delivers. The
  delta's lazy iterator is the list of what it yields to a consumer that takes everything.
\<close>

section \<open>Keys, digests and deltas\<close>

definition fnvOffset :: u64 where "fnvOffset = 14695981039346656037"
definition fnvPrime :: u64 where "fnvPrime = 1099511628211"

definition fnvStep :: "byte \<Rightarrow> u64 \<Rightarrow> u64" where
  "fnvStep b key = (key XOR ucast b) * fnvPrime"

definition HashCausalDot :: "CausalDot \<Rightarrow> bytes \<Rightarrow> u64" where
  "HashCausalDot dot digest =
     fold fnvStep digest
       (fold (\<lambda>i key. (key XOR (drop_bit (i * 8) (Counter dot) AND 0xff)) * fnvPrime) [0..<8]
         (fold fnvStep (NodeID dot) fnvOffset))"

definition entryKey :: "CRDTEntry \<Rightarrow> u64" where
  "entryKey en = HashCausalDot (Dot en) (PayloadDigest en)"

text \<open>\<^verbatim>\<open>None\<close> stands for a division by zero in an empty table, which never occurs here.\<close>

definition GenerateDigestWithSeed :: "hasher \<Rightarrow> Seed \<Rightarrow> DeltaCRDTEngine \<Rightarrow> IBLT option" where
  "GenerateDigestWithSeed maphash sd e =
     fold (\<lambda>shardRoot. ForEach
             (\<lambda>_ entries iblt. (True,
                fold (\<lambda>en iblt. case iblt of None \<Rightarrow> None | Some t \<Rightarrow> IBLT_Insert maphash (entryKey en) t)
                  entries iblt))
             shardRoot)
       (shards e) (NewIBLTWithSeed 1024 4 sd)"

definition GenerateDigest :: "hasher \<Rightarrow> Seed \<Rightarrow> DeltaCRDTEngine \<Rightarrow> IBLT option" where
  "GenerateDigest maphash madeSeed e = GenerateDigestWithSeed maphash madeSeed e"

definition GenerateStrataEstimator :: "hasher \<Rightarrow> Seed \<Rightarrow> DeltaCRDTEngine \<Rightarrow> StrataEstimator option" where
  "GenerateStrataEstimator maphash sd e =
     fold (\<lambda>shardRoot. ForEach
             (\<lambda>_ entries se. (True,
                fold (\<lambda>en se. case se of None \<Rightarrow> None | Some s \<Rightarrow> Strata_Insert maphash (entryKey en) s)
                  entries se))
             shardRoot)
       (shards e) (Some (NewStrataEstimator sd))"

text \<open>\<^verbatim>\<open>sort.Search\<close>: the least index in the range at which the predicate holds.\<close>

function searchFrom :: "(nat \<Rightarrow> bool) \<Rightarrow> nat \<Rightarrow> nat \<Rightarrow> nat" where
  "searchFrom f i j =
     (if i < j then let h = (i + j) div 2 in if \<not> f h then searchFrom f (h + 1) j else searchFrom f i h else i)"
  by pat_completeness auto
termination
  by (relation "measure (\<lambda>(f, i, j). j - i)") auto

declare searchFrom.simps [simp del]

definition shouldSend :: "u64 list \<Rightarrow> u64 \<Rightarrow> bool" where
  "shouldSend sendKeys key =
     (if length sendKeys > 0
      then let idx = searchFrom (\<lambda>j. sendKeys ! j \<ge> key) 0 (length sendKeys)
           in idx < length sendKeys \<and> sendKeys ! idx = key
      else False)"

definition iterEntries :: "HAMT list \<Rightarrow> u64 list \<Rightarrow> bool \<Rightarrow> bool \<Rightarrow> incomingEntry list" where
  "iterEntries shardRoots sendKeys diffNil peelErr =
     fold (\<lambda>sr. ForEach
             (\<lambda>entityID entries out. (True,
                fold (\<lambda>en out. if diffNil \<or> peelErr \<or> shouldSend sendKeys (entryKey en)
                               then out @ [(entityID, en)] else out) entries out))
             sr)
       shardRoots []"

text \<open>
  \<^verbatim>\<open>None\<close>: the peel does not end. A digest of another shape and an incomplete peel both send
  everything.
\<close>

definition GenerateDelta :: "hasher \<Rightarrow> IBLT \<Rightarrow> DeltaCRDTEngine \<Rightarrow> CRDTDelta option" where
  "GenerateDelta maphash remoteDigest e =
     (case GenerateDigestWithSeed maphash (ibltSeed remoteDigest) e of
        None \<Rightarrow> None
      | Some localDigest \<Rightarrow>
          (case subtractArena localDigest remoteDigest of
             None \<Rightarrow> Some \<lparr>Entries = Some (iterEntries (shards e) [] True False), DeltaOriginNodeID = localNodeID e\<rparr>
           | Some diff \<Rightarrow>
               (case PeelArena maphash diff of
                  None \<Rightarrow> None
                | Some (lh, rh, full) \<Rightarrow>
                    Some \<lparr>Entries = Some (iterEntries (shards e) (sort lh) False (\<not> full)),
                          DeltaOriginNodeID = localNodeID e\<rparr>)))"

section \<open>Searching\<close>

lemma searchFrom_spec:
  assumes "i \<le> j" "\<And>x y. x \<le> y \<Longrightarrow> y < j \<Longrightarrow> f x \<Longrightarrow> f y"
  shows "i \<le> searchFrom f i j \<and> searchFrom f i j \<le> j \<and>
    (\<forall>x. i \<le> x \<and> x < searchFrom f i j \<longrightarrow> \<not> f x) \<and> (searchFrom f i j < j \<longrightarrow> f (searchFrom f i j))"
  using assms
proof (induction f i j rule: searchFrom.induct)
  case (1 f i j)
  show ?case
  proof (cases "i < j")
    case False
    then have "searchFrom f i j = i" by (subst searchFrom.simps) simp
    then show ?thesis using False 1(3) by auto
  next
    case True
    define h where "h = (i + j) div 2"
    have h: "i \<le> h" "h < j" using True by (auto simp: h_def)
    show ?thesis
    proof (cases "f h")
      case True
      have "i \<le> searchFrom f i h \<and> searchFrom f i h \<le> h \<and> (\<forall>x. i \<le> x \<and> x < searchFrom f i h \<longrightarrow> \<not> f x) \<and>
          (searchFrom f i h < h \<longrightarrow> f (searchFrom f i h))"
        using 1(2) [OF \<open>i < j\<close> h_def] True h 1(4) by auto
      moreover have "searchFrom f i j = searchFrom f i h"
        using \<open>i < j\<close> True by (simp add: searchFrom.simps [of f i j] h_def [symmetric] Let_def)
      ultimately show ?thesis using h True by (metis le_neq_implies_less less_imp_le order.trans)
    next
      case False
      have "h + 1 \<le> searchFrom f (h + 1) j \<and> searchFrom f (h + 1) j \<le> j \<and>
          (\<forall>x. h + 1 \<le> x \<and> x < searchFrom f (h + 1) j \<longrightarrow> \<not> f x) \<and> (searchFrom f (h + 1) j < j \<longrightarrow> f (searchFrom f (h + 1) j))"
        using 1(1) [OF \<open>i < j\<close> h_def] False h 1(4) by auto
      moreover have "searchFrom f i j = searchFrom f (h + 1) j"
        using \<open>i < j\<close> False by (simp add: searchFrom.simps [of f i j] h_def [symmetric] Let_def)
      moreover have "\<not> f x" if "x \<le> h" for x using 1(4) [OF that h(2)] False by blast
      ultimately show ?thesis using h by (metis Suc_eq_plus1 Suc_leI le_trans not_less less_imp_le trans_le_add1)
    qed
  qed
qed

lemma shouldSend_sorted: "sorted ks \<Longrightarrow> shouldSend ks key \<longleftrightarrow> key \<in> set ks"
proof -
  assume s: "sorted ks"
  let ?f = "\<lambda>j. ks ! j \<ge> key" and ?i = "searchFrom (\<lambda>j. ks ! j \<ge> key) 0 (length ks)"
  have m: "\<And>x y. x \<le> y \<Longrightarrow> y < length ks \<Longrightarrow> ?f x \<Longrightarrow> ?f y"
    using sorted_nth_mono [OF s] by (meson order.trans)
  have sp: "?i \<le> length ks" "\<forall>x. 0 \<le> x \<and> x < ?i \<longrightarrow> \<not> ?f x" "?i < length ks \<longrightarrow> ?f ?i"
    using searchFrom_spec [of 0 "length ks" ?f, OF _ m] by auto
  show ?thesis
  proof
    assume "shouldSend ks key"
    then have "?i < length ks" "ks ! ?i = key" by (auto simp: shouldSend_def Let_def split: if_splits)
    then show "key \<in> set ks" using nth_mem by metis
  next
    assume "key \<in> set ks"
    then obtain j where j: "j < length ks" "ks ! j = key" by (auto simp: in_set_conv_nth)
    have "\<not> j < ?i"
    proof
      assume "j < ?i"
      then have "\<not> ?f j" using sp by blast
      then show False using j(2) by simp
    qed
    then have "?i \<le> j" by simp
    then have i: "?i < length ks" using j by simp
    then have "ks ! ?i \<ge> key" using sp by blast
    moreover have "ks ! ?i \<le> key" using sorted_nth_mono [OF s \<open>?i \<le> j\<close> j(1)] j(2) by simp
    ultimately have "ks ! ?i = key" by simp
    then show "shouldSend ks key" using i by (auto simp: shouldSend_def Let_def)
  qed
qed

section \<open>All entries\<close>

definition allEntries :: "DeltaCRDTEngine \<Rightarrow> incomingEntry list" where
  "allEntries e = concat (map (\<lambda>(k, es). map (Pair k) es) (all_binds e))"

definition allKeys :: "DeltaCRDTEngine \<Rightarrow> u64 list" where
  "allKeys e = map (\<lambda>x. entryKey (snd x)) (allEntries e)"

lemma allEntries_iff:
  assumes ok: "eng_ok mh e"
  shows "(k, en) \<in> set (allEntries e) \<longleftrightarrow> eng_map mh e k (Dot en) = Some en"
proof -
  have "(k, en) \<in> set (allEntries e) \<longleftrightarrow> en \<in> set (PointGet mh k e)"
    using all_binds_iff [OF ok] by (auto simp: allEntries_def) force
  also have "\<dots> \<longleftrightarrow> eng_map mh e k (Dot en) = Some en"
    unfolding eng_map_def using dotmap_set [OF PointGet_leaf_ok [OF ok]] dotmap_SomeD by blast
  finally show ?thesis .
qed

lemma eng_map_entry: "eng_map mh e k d = Some en \<Longrightarrow> Dot en = d"
  by (auto simp: eng_map_def dest: dotmap_SomeD)

lemma allEntries_distinct:
  assumes ok: "eng_ok mh e"
  shows "distinct (map keyDot (allEntries e))"
proof -
  have d: "distinct (map fst bs) \<Longrightarrow> (\<forall>(k, es)\<in>set bs. distinct (map Dot es)) \<Longrightarrow>
      distinct (map keyDot (concat (map (\<lambda>(k, es). map (Pair k) es) bs)))" for bs
  proof (induction bs)
    case (Cons b bs)
    obtain k es where b: "b = (k, es)" by force
    have "distinct (map keyDot (map (Pair k) es))"
      using Cons.prems(2) b by (auto simp: keyDot_def distinct_map inj_on_def)
    moreover have "k \<notin> fst ` set bs" using Cons.prems(1) b by simp
    then have "keyDot ` set (map (Pair k) es) \<inter> keyDot ` set (concat (map (\<lambda>(k, es). map (Pair k) es) bs)) = {}"
      by (auto simp: keyDot_def) (metis fst_conv image_eqI)
    moreover have "distinct (map keyDot (concat (map (\<lambda>(k, es). map (Pair k) es) bs)))"
      using Cons.IH Cons.prems by simp
    ultimately show ?case
      unfolding b list.map prod.case concat.simps map_append distinct_append set_map by blast
  qed simp
  have "distinct (map Dot es)" if "(k, es) \<in> set (all_binds e)" for k es
    using that all_binds_iff [OF ok] PointGet_leaf_ok [OF ok, of k]
    by (auto simp: leaf_ok_def strict_sorted_iff)
  then show ?thesis unfolding allEntries_def by (intro d all_binds_distinct [OF ok]) auto
qed

lemma fold_insert_insertAll:
  "fold (\<lambda>en iblt. case iblt of None \<Rightarrow> None | Some t \<Rightarrow> IBLT_Insert mh (entryKey en) t) es (Some t) =
   insertAll mh (map entryKey es) t"
proof (induction es arbitrary: t)
  case (Cons en es)
  have n: "fold (\<lambda>en iblt. case iblt of None \<Rightarrow> None | Some t \<Rightarrow> IBLT_Insert mh (entryKey en) t) es None = None"
    by (induction es) auto
  show ?case using Cons n by (auto split: option.splits)
qed simp

lemma fold_map_entries:
  "fold (\<lambda>(k, es). fold (g k) es) bs s = fold (\<lambda>(k, en). g k en) (concat (map (\<lambda>(k, es). map (Pair k) es) bs)) s"
proof (induction bs arbitrary: s)
  case (Cons b bs)
  have "fold (\<lambda>(k, en). g k en) (map (Pair k) es) s = fold (g k) es s" for k es s
    by (induction es arbitrary: s) auto
  then show ?case using Cons by (auto split: prod.splits)
qed simp

lemma GenerateDigest_insertAll:
  assumes "NewIBLTWithSeed 1024 4 sd = Some z"
  shows "GenerateDigestWithSeed mh sd e = insertAll mh (allKeys e) z"
proof -
  have "GenerateDigestWithSeed mh sd e =
      fold (\<lambda>(k, es). fold (\<lambda>en iblt. case iblt of None \<Rightarrow> None | Some t \<Rightarrow> IBLT_Insert mh (entryKey en) t) es)
        (all_binds e) (Some z)"
    unfolding GenerateDigestWithSeed_def fold_ForEach assms all_binds_def ..
  also have "\<dots> = fold (\<lambda>(k, en) iblt. case iblt of None \<Rightarrow> None | Some t \<Rightarrow> IBLT_Insert mh (entryKey en) t)
      (allEntries e) (Some z)"
    unfolding allEntries_def fold_map_entries ..
  also have "\<dots> = fold (\<lambda>en iblt. case iblt of None \<Rightarrow> None | Some t \<Rightarrow> IBLT_Insert mh (entryKey en) t)
      (map snd (allEntries e)) (Some z)"
    by (simp add: fold_map comp_def split_beta')
  finally show ?thesis by (simp add: fold_insert_insertAll allKeys_def comp_def)
qed

lemma iterEntries_filter:
  "iterEntries (shards e) ks dn pe =
   filter (\<lambda>x. dn \<or> pe \<or> shouldSend ks (entryKey (snd x))) (allEntries e)"
proof -
  have f: "fold (\<lambda>(k, en) out. if P en then out @ [(k, en)] else out) xs out = out @ filter (\<lambda>x. P (snd x)) xs" for P xs out
    by (induction xs arbitrary: out) auto
  have "iterEntries (shards e) ks dn pe =
      fold (\<lambda>(k, es). fold (\<lambda>en out. if dn \<or> pe \<or> shouldSend ks (entryKey en) then out @ [(k, en)] else out) es)
        (all_binds e) []"
    unfolding iterEntries_def fold_ForEach all_binds_def ..
  then show ?thesis unfolding fold_map_entries allEntries_def [symmetric] by (simp add: f)
qed

section \<open>One round\<close>

text \<open>
  The hypotheses on the hash for the keys of two engines. Equal keys mean the same dot of the same
  entity (no collision of the 64-bit keys), and no two collections of keys that differ have the same
  table.
\<close>

definition keys_identify :: "DeltaCRDTEngine \<Rightarrow> DeltaCRDTEngine \<Rightarrow> bool" where
  "keys_identify a b \<longleftrightarrow>
     (\<forall>x\<in>set (allEntries a) \<union> set (allEntries b). \<forall>y\<in>set (allEntries a) \<union> set (allEntries b).
        entryKey (snd x) = entryKey (snd y) \<longrightarrow> keyDot x = keyDot y)"

definition no_hidden :: "hasher \<Rightarrow> IBLT \<Rightarrow> u64 set \<Rightarrow> u64 set \<Rightarrow> bool" where
  "no_hidden mh t A B \<longleftrightarrow> (\<forall>P\<in>Pow A. \<forall>M\<in>Pow B.
     (\<forall>j<length (buckets t). cell (tableOf mh t P M) j = 0) \<longrightarrow> P = {} \<and> M = {})"

definition digestTable :: "Seed \<Rightarrow> IBLT" where
  "digestTable sd = \<lparr>buckets = replicate 1024 0, ibltK = 4, ibltSeed = sd\<rparr>"

lemma digestTable_facts:
  "NewIBLTWithSeed 1024 4 sd = Some (digestTable sd)" "table_ok (digestTable sd)" "ibltSeed (digestTable sd) = sd"
  by (simp_all add: digestTable_def NewIBLTWithSeed_def ibltMaxK_def table_ok_def)

definition missing :: "DeltaCRDTEngine \<Rightarrow> DeltaCRDTEngine \<Rightarrow> u64 set" where
  "missing a b = set (allKeys a) - set (allKeys b)"

definition round_safe :: "hasher \<Rightarrow> Seed \<Rightarrow> DeltaCRDTEngine \<Rightarrow> DeltaCRDTEngine \<Rightarrow> bool" where
  "round_safe mh sd a b \<longleftrightarrow> keys_identify a b \<and>
     no_false_pure mh (digestTable sd) (missing a b) (missing b a) \<and>
     no_hidden mh (digestTable sd) (missing a b) (missing b a)"

lemma Peel_covers:
  assumes "table_ok t" "no_false_pure mh t A B" "no_hidden mh t A B"
  shows "\<exists>ls rs full. PeelArena mh (tableOf mh t A B) = Some (ls, rs, full) \<and> set ls \<subseteq> A \<and> (full \<longrightarrow> set ls = A)"
proof -
  obtain st where st: "peelLoop mh (peelStart mh (tableOf mh t A B)) = Some st" "peelInv mh t A B st"
    using Peel_sound_aux [OF assms(1,2)] by blast
  let ?P = "A - set (localHas st)" and ?M = "B - set (remoteHas st)"
  let ?full = "list_all (\<lambda>b. \<not> (Count b \<noteq> 0 \<or> KeySum b \<noteq> 0 \<or> HashSum b \<noteq> 0)) (buckets (peelTable st))"
  have "?P = {}" if full: ?full
  proof -
    have "cell (tableOf mh t ?P ?M) j = 0" if "j < length (buckets t)" for j
    proof -
      have "cell (peelTable st) j \<in> set (buckets (peelTable st))" using st(2) that by (auto simp: peelInv_def)
      then have "cell (peelTable st) j = 0"
        using full by (auto simp: list_all_iff zero_Bucket_def intro: Bucket.expand)
      then show ?thesis using st(2) by (simp add: peelInv_def)
    qed
    then show ?thesis using assms(3) unfolding no_hidden_def by (meson Diff_subset PowI)
  qed
  then show ?thesis using st by (auto simp: PeelArena_def peelInv_def)
qed

lemma subtractArena_eq: "subtractArena a b = Subtract a b"
  by (simp add: subtractArena_def Subtract_def)

lemma distinct_allKeys:
  assumes ok: "eng_ok mh a" and ki: "keys_identify a b"
  shows "distinct (allKeys a)"
proof -
  have "inj_on (\<lambda>x. entryKey (snd x)) (set (allEntries a))"
  proof (rule inj_onI)
    fix x y assume xy: "x \<in> set (allEntries a)" "y \<in> set (allEntries a)" "entryKey (snd x) = entryKey (snd y)"
    then have "keyDot x = keyDot y" using ki by (auto simp: keys_identify_def)
    then show "x = y" using allEntries_distinct [OF ok] xy(1,2) by (auto simp: distinct_map inj_on_def)
  qed
  then show ?thesis using allEntries_distinct [OF ok] by (simp add: allKeys_def distinct_map)
qed

lemma GenerateDigest_Some: "\<exists>d. GenerateDigestWithSeed mh sd e = Some d \<and> ibltSeed d = sd"
proof -
  obtain d where d: "insertAll mh (allKeys e) (digestTable sd) = Some d"
    using insertAll_Some [OF digestTable_facts(2)] by blast
  then show ?thesis
    using GenerateDigest_insertAll [OF digestTable_facts(1), of mh sd e] insertAll_cell(1) [OF digestTable_facts(2) d]
    by (simp add: same_shape_def digestTable_facts(3))
qed

text \<open>What a delta computed from the digest of \<^verbatim>\<open>b\<close> contains: entries of \<^verbatim>\<open>a\<close> only, and all that \<^verbatim>\<open>b\<close> lacks.\<close>

lemma GenerateDelta_spec:
  assumes ok: "eng_ok mh a" "eng_ok mh b" and rs: "round_safe mh sd a b"
    and dig: "GenerateDigestWithSeed mh sd b = Some dig"
  shows "\<exists>delta. GenerateDelta mh dig a = Some delta \<and> set (delta_entries delta) \<subseteq> set (allEntries a) \<and>
    (\<forall>x\<in>set (allEntries a). x \<in> set (delta_entries delta) \<or> keyDot x \<in> keyDot ` set (allEntries b))"
proof -
  let ?z = "digestTable sd"
  note z = digestTable_facts(1) [of sd] and zok = digestTable_facts(2) [of sd]
  have ki: "keys_identify a b" "keys_identify b a"
    using rs unfolding round_safe_def keys_identify_def by blast+
  obtain da where da: "GenerateDigestWithSeed mh sd a = Some da" using GenerateDigest_Some by blast
  have ins: "insertAll mh (allKeys a) ?z = Some da" "insertAll mh (allKeys b) ?z = Some dig"
    using da dig GenerateDigest_insertAll [OF z] by simp_all
  have seed: "ibltSeed dig = sd" using GenerateDigest_Some [of mh sd b] dig by auto
  have sub: "subtractArena da dig = Some (tableOf mh ?z (missing a b) (missing b a))"
    unfolding subtractArena_eq missing_def
    using Subtract_digests [OF z _ _ ins distinct_allKeys [OF ok(1) ki(1)] distinct_allKeys [OF ok(2) ki(2)]]
    by (simp del: One_nat_def)
  obtain ls rs' full where p: "PeelArena mh (tableOf mh ?z (missing a b) (missing b a)) = Some (ls, rs', full)"
    "set ls \<subseteq> missing a b" "full \<longrightarrow> set ls = missing a b"
    using Peel_covers [OF zok, of mh "missing a b" "missing b a"] rs unfolding round_safe_def by blast
  let ?d = "\<lparr>Entries = Some (iterEntries (shards a) (sort ls) False (\<not> full)), DeltaOriginNodeID = localNodeID a\<rparr>"
  have gd: "GenerateDelta mh dig a = Some ?d" using da sub p(1) seed by (simp add: GenerateDelta_def)
  have de: "delta_entries ?d = filter (\<lambda>x. \<not> full \<or> entryKey (snd x) \<in> set ls) (allEntries a)"
    by (simp add: delta_entries_def iterEntries_filter shouldSend_sorted)
  have "x \<in> set (delta_entries ?d) \<or> keyDot x \<in> keyDot ` set (allEntries b)" if x: "x \<in> set (allEntries a)" for x
  proof (cases "entryKey (snd x) \<in> set (allKeys b)")
    case True
    then obtain y where y: "y \<in> set (allEntries b)" "entryKey (snd x) = entryKey (snd y)" by (auto simp: allKeys_def)
    then have "keyDot x = keyDot y" using ki(1) x unfolding keys_identify_def by blast
    then show ?thesis using y(1) by blast
  next
    case False
    then have "entryKey (snd x) \<in> missing a b" using x by (auto simp: missing_def allKeys_def)
    then show ?thesis using p(3) x by (auto simp: de)
  qed
  moreover have "set (delta_entries ?d) \<subseteq> set (allEntries a)" by (auto simp: de)
  ultimately show ?thesis using gd by blast
qed

text \<open>
  One anti-entropy round. An engine answers the digest of another with a delta; after the other
  has joined it, it knows every dot that the first knew and its own, and nothing else. This holds
  whether the peel is complete or overflows, when the keys do not collide and no mixed bucket looks
  pure.
\<close>

theorem anti_entropy_round:
  assumes "eng_ok mh a" "eng_ok mh b" "sort_ok sortFunc" "\<not> closing b"
    and "round_safe mh sd a b" "GenerateDigestWithSeed mh sd b = Some dig"
  shows "\<exists>delta b'. GenerateDelta mh dig a = Some delta \<and> Join mh sortFunc f64 delta b = Some b' \<and> eng_ok mh b' \<and>
    (\<forall>k. dom (eng_map mh b' k) = dom (eng_map mh a k) \<union> dom (eng_map mh b k)) \<and>
    (\<forall>k d v. eng_map mh b' k d = Some v \<longrightarrow> eng_map mh b k d = Some v \<or> eng_map mh a k d = Some v)"
proof -
  obtain delta where delta: "GenerateDelta mh dig a = Some delta" "set (delta_entries delta) \<subseteq> set (allEntries a)"
    "\<forall>x\<in>set (allEntries a). x \<in> set (delta_entries delta) \<or> keyDot x \<in> keyDot ` set (allEntries b)"
    using GenerateDelta_spec [OF assms(1,2,5,6)] by blast
  obtain b' where b': "Join mh sortFunc f64 delta b = Some b'" using Join_Some [OF assms(4)] by blast
  note c = Join_cases [OF assms(2,3) b']
  have in_a: "(k, v) \<in> set (delta_entries delta) \<Longrightarrow> eng_map mh a k (Dot v) = Some v" for k v
    using delta(2) allEntries_iff [OF assms(1)] by blast
  have new: "eng_map mh b k d = Some v \<or> eng_map mh a k d = Some v" if "eng_map mh b' k d = Some v" for k d v
    using c(2) [OF that] in_a by blast
  have old_a: "eng_map mh b' k d \<noteq> None" if a: "eng_map mh a k d = Some v" for k d v
  proof -
    have d: "Dot v = d" by (rule eng_map_entry [OF a])
    then have "(k, v) \<in> set (allEntries a)" using allEntries_iff [OF assms(1)] a by blast
    then consider "(k, v) \<in> set (delta_entries delta)" | "keyDot (k, v) \<in> keyDot ` set (allEntries b)"
      using delta(3) by blast
    then show ?thesis
    proof cases
      case 1
      then show ?thesis using c(3) d by blast
    next
      case 2
      then obtain k' w where "(k', w) \<in> set (allEntries b)" "keyDot (k, v) = keyDot (k', w)" by auto
      then have "eng_map mh b k d = Some w" using allEntries_iff [OF assms(2)] d by (auto simp: keyDot_def)
      then show ?thesis using c(1) by force
    qed
  qed
  have "dom (eng_map mh b' k) = dom (eng_map mh a k) \<union> dom (eng_map mh b k)" for k
  proof (intro set_eqI iffI)
    fix d assume "d \<in> dom (eng_map mh b' k)"
    then show "d \<in> dom (eng_map mh a k) \<union> dom (eng_map mh b k)" using new by blast
  next
    fix d assume "d \<in> dom (eng_map mh a k) \<union> dom (eng_map mh b k)"
    then show "d \<in> dom (eng_map mh b' k)" using old_a c(1) by blast
  qed
  then show ?thesis using delta(1) b' Join_ok [OF assms(2,3) b'] new by blast
qed

lemma peelable_no_hidden: "peelable mh t A B \<Longrightarrow> no_hidden mh t A B"
  unfolding peelable_def no_hidden_def using isPure_unit(3) by metis

lemma const_hash_targets: "distinct (fst (getHashesInto (\<lambda>_ _. 0) (digestTable sd) x))"
  by (simp add: getHashesInto_def hashKeyWithSeed_def Let_def digestTable_def upt_rec)

lemma round_safe_single:
  assumes "allEntries a = [y]" "allEntries b = []"
  shows "round_safe (\<lambda>_ _. 0) sd a b" and "round_safe (\<lambda>_ _. 0) sd b a"
proof -
  let ?x = "entryKey (snd y)"
  have k: "0 < ibltK (digestTable sd)" by (simp add: digestTable_def)
  have m: "missing a b = {?x}" "missing b a = {}" using assms by (auto simp: missing_def allKeys_def)
  have ki: "keys_identify a b" "keys_identify b a" using assms by (auto simp: keys_identify_def)
  note sp = single_peels [OF digestTable_facts(2) const_hash_targets k]
  have "no_false_pure (\<lambda>_ _. 0) (digestTable sd) {?x} {} \<and> peelable (\<lambda>_ _. 0) (digestTable sd) {?x} {}"
    "no_false_pure (\<lambda>_ _. 0) (digestTable sd) {} {?x} \<and> peelable (\<lambda>_ _. 0) (digestTable sd) {} {?x}"
    by (rule sp; simp)+
  then show "round_safe (\<lambda>_ _. 0) sd a b" "round_safe (\<lambda>_ _. 0) sd b a"
    using ki peelable_no_hidden unfolding round_safe_def m by blast+
qed

lemma ex_holder:
  "\<exists>a. Join (\<lambda>_ _. 0) isortCmp (\<lambda>x. x) (ex_delta [([97], ex_entry 1)]) (ex_replica 5 1) = Some a \<and>
     eng_ok (\<lambda>_ _. 0) a \<and> \<not> closing a \<and> allEntries a = [([97], ex_entry 1)] \<and>
     eng_map (\<lambda>_ _. 0) a [97] (Dot (ex_entry 1)) = Some (ex_entry 1)"
proof -
  let ?mh = "\<lambda>_ _. 0 :: u64"
  obtain a where a: "Join ?mh isortCmp (\<lambda>x. x) (ex_delta [([97], ex_entry 1)]) (ex_replica 5 1) = Some a" "\<not> closing a"
    using Join_Some [OF ex_replica_facts(3)] by blast
  note ok = Join_ok [OF ex_replica_facts(1) isortCmp_sort_ok a(1)]
  note c = Join_cases [OF ex_replica_facts(1) isortCmp_sort_ok a(1)]
  have none: "eng_map ?mh (ex_replica 5 1) k d = None" for k d by (simp add: eng_map_def ex_replica_facts)
  have m: "eng_map ?mh a k d = Some v \<longleftrightarrow> k = [97] \<and> v = ex_entry 1 \<and> d = Dot (ex_entry 1)" for k d v
  proof
    assume "eng_map ?mh a k d = Some v"
    then show "k = [97] \<and> v = ex_entry 1 \<and> d = Dot (ex_entry 1)" using c(2) none by fastforce
  next
    assume v: "k = [97] \<and> v = ex_entry 1 \<and> d = Dot (ex_entry 1)"
    then obtain w where "eng_map ?mh a k d = Some w" using c(3) [of "[97]" "ex_entry 1"] by auto
    moreover from this have "w = ex_entry 1" using c(2) none by fastforce
    ultimately show "eng_map ?mh a k d = Some v" using v by simp
  qed
  have s: "set (allEntries a) = {([97], ex_entry 1)}"
    using allEntries_iff [OF ok] m by (auto simp: set_eq_iff)
  have "distinct (allEntries a)" using allEntries_distinct [OF ok] by (simp add: distinct_map)
  then have "length (allEntries a) = 1" using s distinct_card by fastforce
  then have "allEntries a = [([97], ex_entry 1)]" using s by (cases "allEntries a") auto
  then show ?thesis using a ok m by blast
qed

lemma ex_empty: "allEntries (ex_replica 6 2) = []"
proof -
  have "(k, en) \<notin> set (allEntries (ex_replica 6 2))" for k en
    unfolding allEntries_iff [OF ex_replica_facts(1) [of "\<lambda>_ _. 0"]] eng_map_def ex_replica_facts(4) by simp
  then show ?thesis by (cases "allEntries (ex_replica 6 2)") auto
qed

theorem anti_entropy_round_witness:
  "\<exists>a dig delta b'. Join (\<lambda>_ _. 0) isortCmp (\<lambda>x. x) (ex_delta [([97], ex_entry 1)]) (ex_replica 5 1) = Some a \<and>
     GenerateDigestWithSeed (\<lambda>_ _. 0) 7 (ex_replica 6 2) = Some dig \<and> GenerateDelta (\<lambda>_ _. 0) dig a = Some delta \<and>
     Join (\<lambda>_ _. 0) isortCmp (\<lambda>x. x) delta (ex_replica 6 2) = Some b' \<and>
     eng_map (\<lambda>_ _. 0) b' [97] (Dot (ex_entry 1)) = Some (ex_entry 1)"
proof -
  let ?mh = "\<lambda>_ _. 0 :: u64" and ?b = "ex_replica 6 2"
  obtain a where a: "Join ?mh isortCmp (\<lambda>x. x) (ex_delta [([97], ex_entry 1)]) (ex_replica 5 1) = Some a"
    "eng_ok ?mh a" "allEntries a = [([97], ex_entry 1)]" "eng_map ?mh a [97] (Dot (ex_entry 1)) = Some (ex_entry 1)"
    using ex_holder by blast
  obtain dig where dig: "GenerateDigestWithSeed ?mh 7 ?b = Some dig" using GenerateDigest_Some by blast
  have none: "eng_map ?mh ?b k d = None" for k d by (simp add: eng_map_def ex_replica_facts)
  obtain delta b' where r: "GenerateDelta ?mh dig a = Some delta" "Join ?mh isortCmp (\<lambda>x. x) delta ?b = Some b'"
    "dom (eng_map ?mh b' [97]) = dom (eng_map ?mh a [97]) \<union> dom (eng_map ?mh ?b [97])"
    "\<forall>k d v. eng_map ?mh b' k d = Some v \<longrightarrow> eng_map ?mh ?b k d = Some v \<or> eng_map ?mh a k d = Some v"
    using anti_entropy_round [OF a(2) ex_replica_facts(1) isortCmp_sort_ok ex_replica_facts(3)
        round_safe_single(1) [OF a(3) ex_empty] dig] by meson
  have "Dot (ex_entry 1) \<in> dom (eng_map ?mh b' [97])" unfolding r(3) using a(4) by (intro UnI1 domI)
  then obtain w where w: "eng_map ?mh b' [97] (Dot (ex_entry 1)) = Some w" by blast
  then have "w = ex_entry 1" using r(4) none a(4) by (metis option.distinct(1) option.inject)
  then show ?thesis using a(1) dig r(1,2) w by blast
qed

lemma round_union:
  assumes ok: "eng_ok mh a" "eng_ok mh b" and s: "sort_ok sortFunc" and rs: "round_safe mh sd a b"
    and dig: "GenerateDigestWithSeed mh sd b = Some dig" and gd: "GenerateDelta mh dig a = Some delta"
    and j: "Join mh sortFunc f64 delta b = Some b'"
    and agree: "\<And>k d v w. eng_map mh a k d = Some v \<Longrightarrow> eng_map mh b k d = Some w \<Longrightarrow> v = w"
  shows "eng_map mh b' k d = (case eng_map mh b k d of Some v \<Rightarrow> Some v | None \<Rightarrow> eng_map mh a k d)"
proof -
  note c = Join_cases [OF ok(2) s j]
  have sub: "set (delta_entries delta) \<subseteq> set (allEntries a)"
    and cov: "\<forall>x\<in>set (allEntries a). x \<in> set (delta_entries delta) \<or> keyDot x \<in> keyDot ` set (allEntries b)"
    using GenerateDelta_spec [OF ok rs dig] gd by auto
  show ?thesis
  proof (cases "eng_map mh b k d")
    case (Some v)
    then show ?thesis using c(1) by simp
  next
    case None
    have "eng_map mh b' k d = eng_map mh a k d"
    proof (cases "eng_map mh a k d")
      case b: None
      have "eng_map mh b' k d \<noteq> Some v" for v
      proof
        assume "eng_map mh b' k d = Some v"
        then have "(k, v) \<in> set (allEntries a)" "Dot v = d" using c(2) [of k d v] None sub by auto
        then show False using allEntries_iff [OF ok(1)] b by auto
      qed
      then show ?thesis using b by (cases "eng_map mh b' k d") auto
    next
      case (Some v)
      have d: "Dot v = d" by (rule eng_map_entry [OF Some])
      then have "(k, v) \<in> set (allEntries a)" using allEntries_iff [OF ok(1)] Some by blast
      moreover have "keyDot (k, v) \<notin> keyDot ` set (allEntries b)"
        using None d allEntries_iff [OF ok(2)] by (auto simp: keyDot_def)
      ultimately have "(k, v) \<in> set (delta_entries delta)" using cov by blast
      then obtain w where w: "eng_map mh b' k d = Some w" using c(3) [of k v] d by auto
      then have "(k, w) \<in> set (allEntries a)" "Dot w = d" using c(2) [OF w] None sub by auto
      then show ?thesis using allEntries_iff [OF ok(1), of k w] Some w by auto
    qed
    then show ?thesis using None by simp
  qed
qed

text \<open>
  C2. Two open engines that exchange digests and join each other's delta converge. The digests, the deltas and the joins are
  all defined, that is, the peeling of both digests ends and nothing panics; and afterwards the engines read the same
  entries for every entity and have the same Merkle root. The hypotheses are that both engines hash with the same function, as two engines of
  one process do, that they give no dot two contents, and that the round is safe: no two entries
  share a 64-bit key, no bucket of a digest that holds several keys looks like one that holds a single
  key, and no set of missing keys cancels out in the table.
\<close>

theorem anti_entropy_converges:
  assumes ok: "eng_ok mh a" "eng_ok mh b" and s: "sort_ok sortFunc" and op: "\<not> closing a" "\<not> closing b"
    and rs: "round_safe mh sd a b" "round_safe mh sd' b a"
    and agree: "\<And>k d v w. eng_map mh a k d = Some v \<Longrightarrow> eng_map mh b k d = Some w \<Longrightarrow> v = w"
  shows "\<exists>db da dab dba a' b'.
    GenerateDigestWithSeed mh sd b = Some db \<and> GenerateDigestWithSeed mh sd' a = Some da \<and>
    GenerateDelta mh db a = Some dab \<and> GenerateDelta mh da b = Some dba \<and>
    Join mh sortFunc f64 dab b = Some b' \<and> Join mh sortFunc f64 dba a = Some a' \<and>
    (\<forall>k. PointGet mh k a' = PointGet mh k b') \<and> MerkleRootFromShards sha256 a' = MerkleRootFromShards sha256 b'"
proof -
  obtain db da where dig: "GenerateDigestWithSeed mh sd b = Some db" "GenerateDigestWithSeed mh sd' a = Some da"
    using GenerateDigest_Some by blast
  obtain dab dba where gd: "GenerateDelta mh db a = Some dab" "GenerateDelta mh da b = Some dba"
    using GenerateDelta_spec [OF ok rs(1) dig(1)] GenerateDelta_spec [OF ok(2,1) rs(2) dig(2)] by blast
  obtain b' a' where j: "Join mh sortFunc f64 dab b = Some b'" "Join mh sortFunc f64 dba a = Some a'"
    using Join_Some [OF op(1)] Join_Some [OF op(2)] by blast
  have ok': "eng_ok mh a'" "eng_ok mh b'" using Join_ok ok s j by blast+
  have b: "eng_map mh b' k d = (case eng_map mh b k d of Some v \<Rightarrow> Some v | None \<Rightarrow> eng_map mh a k d)" for k d
    by (rule round_union [OF ok s rs(1) dig(1) gd(1) j(1)]) (rule agree)
  have a: "eng_map mh a' k d = (case eng_map mh a k d of Some v \<Rightarrow> Some v | None \<Rightarrow> eng_map mh b k d)" for k d
    by (rule round_union [OF ok(2,1) s rs(2) dig(2) gd(2) j(2)]) (rule agree [symmetric])
  have "eng_map mh a' k d = eng_map mh b' k d" for k d
    unfolding a b using agree [of k d] by (auto split: option.splits)
  then have "PointGet mh k a' = PointGet mh k b'" for k by (intro eng_map_ext ok' ext)
  then show ?thesis using Merkle_same_binds [OF same_all_binds [OF ok']] dig gd j by blast
qed

theorem anti_entropy_converges_witness:
  "\<exists>a da db dab dba a' b'. Join (\<lambda>_ _. 0) isortCmp (\<lambda>x. x) (ex_delta [([97], ex_entry 1)]) (ex_replica 5 1) = Some a \<and>
     GenerateDigestWithSeed (\<lambda>_ _. 0) 7 (ex_replica 6 2) = Some db \<and> GenerateDigestWithSeed (\<lambda>_ _. 0) 8 a = Some da \<and>
     GenerateDelta (\<lambda>_ _. 0) db a = Some dab \<and> GenerateDelta (\<lambda>_ _. 0) da (ex_replica 6 2) = Some dba \<and>
     Join (\<lambda>_ _. 0) isortCmp (\<lambda>x. x) dab (ex_replica 6 2) = Some b' \<and> Join (\<lambda>_ _. 0) isortCmp (\<lambda>x. x) dba a = Some a' \<and>
     MerkleRootFromShards (\<lambda>bs. bs) a' = MerkleRootFromShards (\<lambda>bs. bs) b'"
proof -
  let ?mh = "\<lambda>_ _. 0 :: u64" and ?b = "ex_replica 6 2"
  obtain a where a: "Join ?mh isortCmp (\<lambda>x. x) (ex_delta [([97], ex_entry 1)]) (ex_replica 5 1) = Some a"
    "eng_ok ?mh a" "\<not> closing a" "allEntries a = [([97], ex_entry 1)]" using ex_holder by blast
  note rs = round_safe_single [OF a(4) ex_empty]
  have ag: "v = w" if "eng_map ?mh a k d = Some v" "eng_map ?mh ?b k d = Some w" for k d v w
    using that by (simp add: eng_map_def ex_replica_facts)
  have "\<exists>db da dab dba a' b'.
      GenerateDigestWithSeed ?mh 7 ?b = Some db \<and> GenerateDigestWithSeed ?mh 8 a = Some da \<and>
      GenerateDelta ?mh db a = Some dab \<and> GenerateDelta ?mh da ?b = Some dba \<and>
      Join ?mh isortCmp (\<lambda>x. x) dab ?b = Some b' \<and> Join ?mh isortCmp (\<lambda>x. x) dba a = Some a' \<and>
      (\<forall>k. PointGet ?mh k a' = PointGet ?mh k b') \<and> MerkleRootFromShards (\<lambda>bs. bs) a' = MerkleRootFromShards (\<lambda>bs. bs) b'"
    by (rule anti_entropy_converges [OF a(2) ex_replica_facts(1) isortCmp_sort_ok a(3) ex_replica_facts(3) rs]) (rule ag)
  then show ?thesis using a(1) by blast
qed

end
