(* ===== verification/Admission.thy ===== *)
theory Admission
  imports Engine_Join
begin

text \<open>
  The two cheap gates in front of signature verification: the token bucket of each peer
  (\<^verbatim>\<open>pkg/admission/ewma.go\<close>) and the cap on the physical clock (\<^verbatim>\<open>pkg/clock/admission.go\<close>). A shard is a
  finite map; its mutex makes each call atomic. The rate is the float64 that the source stores as bits.
\<close>

section \<open>Peer buckets\<close>

definition ewmaAlpha :: real where "ewmaAlpha = 1 / 10"
definition initialBudget :: u64 where "initialBudget = 2 ^ 20"

datatype FrameDecision = Keep | Drop

record PeerEWMA =
  peerRate :: real
  peerBudget :: u64
  peerLastCounter :: u64

definition bucketShardCount :: nat where "bucketShardCount = 16"
definition shardMask :: byte where "shardMask = 15"

record PeerBucket =
  bucketShards :: "(bytes \<rightharpoonup> PeerEWMA) list"

definition NewPeerBucket :: PeerBucket where
  "NewPeerBucket = \<lparr>bucketShards = map (\<lambda>_. Map.empty) [0..<bucketShardCount]\<rparr>"

definition shardIndex :: "bytes \<Rightarrow> nat" where
  "shardIndex k = unat (k ! 0 AND shardMask)"

definition Accept :: "(real \<Rightarrow> real) \<Rightarrow> bytes \<Rightarrow> u64 \<Rightarrow> PeerBucket \<Rightarrow> FrameDecision \<times> PeerBucket" where
  "Accept f64 pub counter b =
     (if length pub \<noteq> 32 then (Drop, b)
      else
        let i = shardIndex pub;
            m = bucketShards b ! i;
            peer = (case m pub of Some p \<Rightarrow> p
                    | None \<Rightarrow> \<lparr>peerRate = 0, peerBudget = initialBudget, peerLastCounter = 0\<rparr>);
            save = (\<lambda>p. b\<lparr>bucketShards := (bucketShards b)[i := m(pub \<mapsto> p)]\<rparr>);
            prev = peerLastCounter peer;
            delta = (if counter > prev then counter - prev else 0)
        in if delta = 0 then (Keep, save peer)
           else
             let nextRate = f64 (f64 (f64 ewmaAlpha * peerRate peer) +
                                 f64 (f64 (1 - ewmaAlpha) * f64 (of_nat (unat delta))));
                 peer1 = peer\<lparr>peerRate := nextRate\<rparr>
             in if delta \<ge> peerBudget peer1 then (Drop, save peer1)
                else (Keep, save (peer1\<lparr>peerBudget := peerBudget peer1 - delta, peerLastCounter := counter\<rparr>)))"

definition lookupPeer :: "bytes \<Rightarrow> PeerBucket \<Rightarrow> PeerEWMA option" where
  "lookupPeer pub b = (if length pub \<noteq> 32 then None else (bucketShards b ! shardIndex pub) pub)"

definition Budget :: "bytes \<Rightarrow> PeerBucket \<Rightarrow> u64" where
  "Budget pub b =
     (if length pub \<noteq> 32 then 0
      else case (bucketShards b ! shardIndex pub) pub of Some p \<Rightarrow> peerBudget p | None \<Rightarrow> 0)"

definition Rate :: "bytes \<Rightarrow> PeerBucket \<Rightarrow> real" where
  "Rate pub b =
     (if length pub \<noteq> 32 then 0
      else case (bucketShards b ! shardIndex pub) pub of Some p \<Rightarrow> peerRate p | None \<Rightarrow> 0)"

section \<open>The clock cap\<close>

definition maxDriftEpsilon :: i64 where "maxDriftEpsilon = 2000"

text \<open>\<^verbatim>\<open>int64\<close> subtraction wraps; the comparison is signed.\<close>

definition Admit :: "(real \<Rightarrow> real) \<Rightarrow> i64 \<Rightarrow> i64 \<Rightarrow> u64 \<Rightarrow> DeltaCRDTEngine \<Rightarrow> bool \<times> DeltaCRDTEngine" where
  "Admit f64 localPhysicalUSec incomingPhysicalUSec incomingLogical e =
     (if sint (incomingPhysicalUSec - localPhysicalUSec) > sint maxDriftEpsilon then (False, e)
      else (True, AdvanceLamportTo f64 incomingLogical e))"

section \<open>The bucket invariant\<close>

definition peer_ok :: "PeerEWMA \<Rightarrow> bool" where
  "peer_ok p \<longleftrightarrow> unat (peerBudget p) + unat (peerLastCounter p) = 2 ^ 20 \<and> 0 < peerBudget p"

definition bucket_ok :: "PeerBucket \<Rightarrow> bool" where
  "bucket_ok b \<longleftrightarrow> length (bucketShards b) = bucketShardCount \<and> (\<forall>pub p. lookupPeer pub b = Some p \<longrightarrow> peer_ok p)"

lemma shardIndex_less: "shardIndex pub < bucketShardCount"
proof -
  have "k AND shardMask \<le> shardMask" for k :: byte by (rule word_and_le1)
  then have "unat (pub ! 0 AND shardMask) \<le> unat shardMask" by (simp add: word_le_nat_alt)
  then show ?thesis by (simp add: shardIndex_def bucketShardCount_def shardMask_def)
qed

lemma lookup_save:
  assumes "length (bucketShards b) = bucketShardCount" "length pub = 32"
  shows "lookupPeer q (b\<lparr>bucketShards := (bucketShards b)[shardIndex pub := (bucketShards b ! shardIndex pub)(pub \<mapsto> p)]\<rparr>) =
    (if q = pub then Some p else lookupPeer q b)"
  using assms shardIndex_less [of pub] shardIndex_less [of q]
  by (auto simp: lookupPeer_def nth_list_update)

definition freshPeer :: PeerEWMA where
  "freshPeer = \<lparr>peerRate = 0, peerBudget = initialBudget, peerLastCounter = 0\<rparr>"

lemma freshPeer_ok: "peer_ok freshPeer"
  by (simp add: peer_ok_def freshPeer_def initialBudget_def)

lemma charge_ok:
  assumes ok: "peer_ok p" and c: "counter > peerLastCounter p" and d: "\<not> counter - peerLastCounter p \<ge> peerBudget p"
  shows "peer_ok (p\<lparr>peerRate := r, peerBudget := peerBudget p - (counter - peerLastCounter p), peerLastCounter := counter\<rparr>)"
    and "unat counter < 2 ^ 20"
proof -
  let ?d = "counter - peerLastCounter p"
  have ud: "unat ?d = unat counter - unat (peerLastCounter p)" using c by (simp add: unat_sub)
  have lt: "unat (peerLastCounter p) < unat counter" "unat ?d < unat (peerBudget p)"
    using c d by (simp_all add: word_less_nat_alt word_le_nat_alt)
  have ub: "unat (peerBudget p - ?d) = unat (peerBudget p) - unat ?d" using d by (simp add: unat_sub)
  show "peer_ok (p\<lparr>peerRate := r, peerBudget := peerBudget p - ?d, peerLastCounter := counter\<rparr>)"
    using ok ud lt ub by (simp add: peer_ok_def word_less_nat_alt)
  show "unat counter < 2 ^ 20" using ok ud lt unfolding peer_ok_def by linarith
qed

text \<open>One call, seen from the peer that it charges.\<close>

definition getPeer :: "bytes \<Rightarrow> PeerBucket \<Rightarrow> PeerEWMA" where
  "getPeer pub b = (case lookupPeer pub b of Some p \<Rightarrow> p | None \<Rightarrow> freshPeer)"

definition chargePeer :: "(real \<Rightarrow> real) \<Rightarrow> u64 \<Rightarrow> PeerEWMA \<Rightarrow> FrameDecision \<times> PeerEWMA" where
  "chargePeer f64 counter p =
     (if counter \<le> peerLastCounter p then (Keep, p)
      else
        let delta = counter - peerLastCounter p;
            r = f64 (f64 (f64 ewmaAlpha * peerRate p) + f64 (f64 (1 - ewmaAlpha) * f64 (of_nat (unat delta))))
        in if delta \<ge> peerBudget p then (Drop, p\<lparr>peerRate := r\<rparr>)
           else (Keep, p\<lparr>peerRate := r, peerBudget := peerBudget p - delta, peerLastCounter := counter\<rparr>))"

lemma Accept_charge:
  assumes "length pub = 32" "chargePeer f64 counter (getPeer pub b) = (v, p')"
  shows "Accept f64 pub counter b =
    (v, b\<lparr>bucketShards := (bucketShards b)[shardIndex pub := (bucketShards b ! shardIndex pub)(pub \<mapsto> p')]\<rparr>)"
proof -
  have g: "(case (bucketShards b ! shardIndex pub) pub of None \<Rightarrow> \<lparr>peerRate = 0, peerBudget = initialBudget, peerLastCounter = 0\<rparr>
      | Some p \<Rightarrow> p) = getPeer pub b"
    using assms(1) by (simp add: getPeer_def lookupPeer_def freshPeer_def split: option.split)
  have "counter - l = 0 \<longleftrightarrow> counter = l" for l :: u64 by simp
  then show ?thesis
    using assms unfolding Accept_def Let_def g
    by (auto simp: chargePeer_def Let_def split: if_splits)
qed

lemma chargePeer_spec:
  assumes "peer_ok p" "chargePeer f64 counter p = (v, p')"
  shows "peer_ok p' \<and> peerLastCounter p \<le> peerLastCounter p' \<and> peerBudget p' \<le> peerBudget p \<and>
    (v = Keep \<longrightarrow> counter \<le> peerLastCounter p') \<and>
    (v = Drop \<longrightarrow> peerLastCounter p' = peerLastCounter p \<and> peerBudget p' = peerBudget p)"
proof (cases "counter \<le> peerLastCounter p")
  case False
  let ?d = "counter - peerLastCounter p"
  show ?thesis
  proof (cases "?d \<ge> peerBudget p")
    case True
    then show ?thesis using assms False by (auto simp: chargePeer_def Let_def peer_ok_def)
  next
    case d: False
    have "peerBudget p - ?d \<le> peerBudget p" using d by (simp add: word_sub_le)
    then show ?thesis
      using assms False d charge_ok(1) [OF assms(1)] by (auto simp: chargePeer_def Let_def not_le not_less)
  qed
qed (use assms in \<open>auto simp: chargePeer_def\<close>)

text \<open>What is left of the budget and the high-water mark add up, so that the verdict does not depend on either.\<close>

lemma chargePeer_verdict:
  assumes "peer_ok p"
  shows "fst (chargePeer f64 counter p) = Keep \<longleftrightarrow> unat counter < 2 ^ 20"
proof (cases "counter \<le> peerLastCounter p")
  case True
  have "0 < unat (peerBudget p)" "unat (peerBudget p) + unat (peerLastCounter p) = 2 ^ 20"
    using assms by (auto simp: peer_ok_def word_less_nat_alt)
  then have "unat counter < 2 ^ 20" using True unfolding word_le_nat_alt by linarith
  then show ?thesis using True by (simp add: chargePeer_def)
next
  case False
  have "unat (counter - peerLastCounter p) = unat counter - unat (peerLastCounter p)"
    using False by (simp add: unat_sub)
  then have "counter - peerLastCounter p \<ge> peerBudget p \<longleftrightarrow> \<not> unat counter < 2 ^ 20"
    using assms False unfolding peer_ok_def word_le_nat_alt by linarith
  then show ?thesis using False by (simp add: chargePeer_def Let_def)
qed

lemma getPeer_ok: "bucket_ok b \<Longrightarrow> peer_ok (getPeer pub b)"
  by (auto simp: getPeer_def bucket_ok_def freshPeer_ok split: option.splits)

text \<open>Everything a call does: the state of the peer that is charged, and of no other.\<close>

lemma Accept_spec:
  assumes ok: "bucket_ok b" and a: "Accept f64 pub counter b = (v, b')"
  shows "bucket_ok b'"
    and "q \<noteq> pub \<Longrightarrow> lookupPeer q b' = lookupPeer q b"
    and "length pub = 32 \<Longrightarrow> lookupPeer pub b' = Some (snd (chargePeer f64 counter (getPeer pub b))) \<and>
           v = fst (chargePeer f64 counter (getPeer pub b))"
    and "length pub \<noteq> 32 \<Longrightarrow> v = Drop \<and> b' = b"
proof -
  have len: "length (bucketShards b) = bucketShardCount" using ok by (simp add: bucket_ok_def)
  show "length pub \<noteq> 32 \<Longrightarrow> v = Drop \<and> b' = b" using a by (simp add: Accept_def)
  have "bucket_ok b' \<and> (q \<noteq> pub \<longrightarrow> lookupPeer q b' = lookupPeer q b) \<and>
    (length pub = 32 \<longrightarrow> lookupPeer pub b' = Some (snd (chargePeer f64 counter (getPeer pub b))) \<and>
       v = fst (chargePeer f64 counter (getPeer pub b)))"
  proof (cases "length pub = 32")
    case False
    then show ?thesis using a ok by (simp add: Accept_def)
  next
    case True
    obtain v' p' where c: "chargePeer f64 counter (getPeer pub b) = (v', p')" by fastforce
    have b': "b' = b\<lparr>bucketShards := (bucketShards b)[shardIndex pub := (bucketShards b ! shardIndex pub)(pub \<mapsto> p')]\<rparr>"
      and v: "v = v'" using a Accept_charge [OF True c] by auto
    have l: "lookupPeer r b' = (if r = pub then Some p' else lookupPeer r b)" for r
      unfolding b' by (rule lookup_save [OF len True])
    have "peer_ok p'" using chargePeer_spec [OF getPeer_ok [OF ok] c] by blast
    then have "bucket_ok b'" using ok len l by (auto simp: bucket_ok_def b' split: if_splits)
    then show ?thesis using l c v by simp
  qed
  then show "bucket_ok b'" "q \<noteq> pub \<Longrightarrow> lookupPeer q b' = lookupPeer q b"
    "length pub = 32 \<Longrightarrow> lookupPeer pub b' = Some (snd (chargePeer f64 counter (getPeer pub b))) \<and>
       v = fst (chargePeer f64 counter (getPeer pub b))" by auto
qed

lemma NewPeerBucket_ok: "bucket_ok NewPeerBucket"
  using shardIndex_less by (auto simp: bucket_ok_def NewPeerBucket_def lookupPeer_def)

lemma Accept_verdict:
  assumes "bucket_ok b" "Accept f64 pub counter b = (v, b')"
  shows "v = Keep \<longleftrightarrow> length pub = 32 \<and> unat counter < 2 ^ 20"
proof (cases "length pub = 32")
  case True
  then show ?thesis
    using Accept_spec(3) [OF assms] chargePeer_verdict [OF getPeer_ok [OF assms(1)], of f64 counter pub] by simp
next
  case False
  then show ?thesis using Accept_spec(4) [OF assms] by simp
qed

section \<open>Runs\<close>

text \<open>A run of calls from any peers in any order, with the verdict of each.\<close>

inductive bucketRun :: "(real \<Rightarrow> real) \<Rightarrow> PeerBucket \<Rightarrow> (bytes \<times> u64 \<times> FrameDecision) list \<Rightarrow> PeerBucket \<Rightarrow> bool" for f64 where
  start: "bucketRun f64 b [] b"
| step: "bucketRun f64 b tr b1 \<Longrightarrow> Accept f64 pub counter b1 = (v, b2) \<Longrightarrow> bucketRun f64 b (tr @ [(pub, counter, v)]) b2"

lemma bucketRun_inv:
  "bucketRun f64 b tr b' \<Longrightarrow> bucket_ok b \<Longrightarrow> bucket_ok b' \<and>
   (\<forall>(pub, c, v)\<in>set tr. v = Keep \<longleftrightarrow> length pub = 32 \<and> unat c < 2 ^ 20)"
proof (induction rule: bucketRun.induct)
  case (step b tr b1 pub counter v b2)
  then have ok: "bucket_ok b1" by blast
  show ?case using step Accept_verdict [OF ok step.hyps(2)] Accept_spec(1) [OF ok step.hyps(2)] by auto
qed simp

text \<open>
  C33. The rate gate is a fixed ceiling on the counter. In every run of calls by any peers in any order,
  a frame is let through exactly when its key has 32 bytes and its counter is below \<open>2\<^sup>2\<^sup>0\<close>: the verdict
  depends neither on how often the peer has called nor on what it was charged, because what is left of
  its budget is always \<open>2\<^sup>2\<^sup>0\<close> less its high-water mark. So no peer is ever charged for another, no
  identity advances past its budget, and an identity whose counter has reached \<open>2\<^sup>2\<^sup>0\<close> never passes again.
\<close>

theorem bucket_static_ceiling:
  assumes "bucketRun f64 NewPeerBucket tr b"
  shows "(\<forall>(pub, c, v)\<in>set tr. v = Keep \<longleftrightarrow> length pub = 32 \<and> unat c < 2 ^ 20) \<and>
    (\<forall>pub p. lookupPeer pub b = Some p \<longrightarrow> unat (peerBudget p) + unat (peerLastCounter p) = 2 ^ 20)"
  using bucketRun_inv [OF assms NewPeerBucket_ok] by (auto simp: bucket_ok_def peer_ok_def)

theorem bucket_static_ceiling_witness:
  "\<exists>b. bucketRun (\<lambda>x. x) NewPeerBucket [(replicate 32 7, 5, Keep), (replicate 32 7, 2 ^ 20, Drop)] b \<and>
     (\<forall>p. lookupPeer (replicate 32 7) b = Some p \<longrightarrow> unat (peerBudget p) + unat (peerLastCounter p) = 2 ^ 20)"
proof -
  let ?pub = "replicate 32 7 :: bytes"
  obtain v1 b1 where r1: "Accept (\<lambda>x. x) ?pub 5 NewPeerBucket = (v1, b1)" by fastforce
  obtain v2 b2 where r2: "Accept (\<lambda>x. x) ?pub (2 ^ 20) b1 = (v2, b2)" by fastforce
  have "v1 = Keep" using Accept_verdict [OF NewPeerBucket_ok r1] by simp
  moreover have "v2 = Drop"
    using Accept_verdict [OF Accept_spec(1) [OF NewPeerBucket_ok r1] r2] by (cases v2) auto
  ultimately have r: "bucketRun (\<lambda>x. x) NewPeerBucket [(?pub, 5, Keep), (?pub, 2 ^ 20, Drop)] b2"
    using bucketRun.step [OF bucketRun.step [OF bucketRun.start r1] r2] by simp
  show ?thesis using r bucket_static_ceiling [OF r] by blast
qed

section \<open>The clock gate\<close>

text \<open>
  The clock gate passes exactly the frames at most 2 milliseconds ahead of the local clock while
  the difference of the two times fits an \<^verbatim>\<open>int64\<close>; it raises the Lamport clock to the frame's counter
  when it passes a frame, and leaves the engine as it is otherwise.
\<close>

lemma Admit_cap:
  assumes "- (2 ^ 63) \<le> sint phys - sint now" "sint phys - sint now < 2 ^ 63"
  shows "(fst (Admit f64 now phys logical e) \<longleftrightarrow> sint phys \<le> sint now + 2000) \<and>
    snd (Admit f64 now phys logical e) = (if fst (Admit f64 now phys logical e) then AdvanceLamportTo f64 logical e else e)"
proof -
  have "sint (phys - now) = sint phys - sint now"
    using assms by (simp add: sint_word_ariths signed_take_bit_int_eq_self)
  then show ?thesis by (auto simp: Admit_def maxDriftEpsilon_def)
qed

end
