(* ===== verification/Envelope.thy ===== *)
theory Envelope
  imports Sov_Prelude
begin

text \<open>
  The relay envelope of \<^verbatim>\<open>pkg/attribution/envelope.go\<close> and the egress side of \<^verbatim>\<open>pkg/receive/forward.go\<close>:
  the wire layout of versions 2 and 3, the custody chain of relay signatures, the depth bound, and
  forwarding by one more hop. Signing and verification are parameters: \<^verbatim>\<open>verify pub msg sig\<close> stands for
  \<^verbatim>\<open>identity.VerifyCRDTFrame\<close> and \<^verbatim>\<open>sign\<close> for \<^verbatim>\<open>ed25519.Sign\<close>. The hook that counts verifications in
  tests is nil in production and left out.
\<close>

section \<open>Layout\<close>

definition PubSize :: nat where "PubSize = 32"
definition SigSize :: nat where "SigSize = 64"
definition OriginSigSize :: nat where "OriginSigSize = 64"
definition WallSize :: nat where "WallSize = 8"
definition DotCounterSize :: nat where "DotCounterSize = 8"
definition OriginNodeIDSize :: nat where "OriginNodeIDSize = 16"
definition HopSize :: nat where "HopSize = PubSize + SigSize + WallSize"
definition HeaderLen :: nat where "HeaderLen = 2 + 2 + 4 + OriginSigSize + DotCounterSize + OriginNodeIDSize"
definition headerLenV2 :: nat where "headerLenV2 = HeaderLen - DotCounterSize - OriginNodeIDSize"
definition envelopeVersion :: u16 where "envelopeVersion = 3"
definition envelopeVersionV2 :: u16 where "envelopeVersionV2 = 2"
definition verifyCostPerHop32c :: int where "verifyCostPerHop32c = 60211"

lemmas envelope_sizes = PubSize_def SigSize_def OriginSigSize_def WallSize_def DotCounterSize_def
  OriginNodeIDSize_def HopSize_def HeaderLen_def headerLenV2_def

datatype EnvelopeError = ErrHopBoundExceeded | ErrVerify nat | ErrMalformed

record Hop =
  RelayPub :: bytes
  hopSig :: bytes
  WallUSec :: i64

record RelayEnvelope =
  innerWire :: bytes
  envOriginSig :: bytes
  envDotCounter :: u64
  envOriginNodeID :: bytes
  envVersion :: u16
  envHops :: "Hop list"

definition MaxHopsForBudget :: "int \<Rightarrow> int" where
  "MaxHopsForBudget budget =
     (if budget \<le> 0 then 0
      else let n = budget div verifyCostPerHop32c - 1 in if n < 0 then 0 else n)"

section \<open>Construction\<close>

definition NewRelayEnvelope :: "bytes \<Rightarrow> Hop list \<Rightarrow> RelayEnvelope" where
  "NewRelayEnvelope inner hops =
     \<lparr>innerWire = inner, envOriginSig = replicate OriginSigSize 0, envDotCounter = 0,
      envOriginNodeID = replicate OriginNodeIDSize 0, envVersion = 0, envHops = hops\<rparr>"

definition NewSignedRelayEnvelope :: "bytes \<Rightarrow> bytes \<Rightarrow> Hop list \<Rightarrow> RelayEnvelope" where
  "NewSignedRelayEnvelope inner originSig hops = (NewRelayEnvelope inner hops)\<lparr>envOriginSig := originSig\<rparr>"

definition NewSignedRelayEnvelopeV3 :: "bytes \<Rightarrow> bytes \<Rightarrow> u64 \<Rightarrow> bytes \<Rightarrow> Hop list \<Rightarrow> RelayEnvelope" where
  "NewSignedRelayEnvelopeV3 inner originSig dotCounter originNodeID hops =
     (NewRelayEnvelope inner hops)\<lparr>envOriginSig := originSig, envDotCounter := dotCounter, envOriginNodeID := originNodeID\<rparr>"

definition HopCount :: "RelayEnvelope \<Rightarrow> nat" where "HopCount e = length (envHops e)"

section \<open>The custody chain\<close>

definition SignedMaterial :: "bytes \<Rightarrow> bytes \<Rightarrow> u16 \<Rightarrow> i64 \<Rightarrow> bytes" where
  "SignedMaterial inner preceding hopIndex wallUSec =
     inner @ preceding @ le_bytes 2 hopIndex @ le_bytes 8 wallUSec"

text \<open>The loop of \<^verbatim>\<open>Open\<close>, from hop \<^verbatim>\<open>i\<close> on: \<^verbatim>\<open>Some i\<close> is the first hop whose signature fails.\<close>

fun openHops :: "(bytes \<Rightarrow> bytes \<Rightarrow> bytes \<Rightarrow> bool) \<Rightarrow> bytes \<Rightarrow> bytes \<Rightarrow> nat \<Rightarrow> Hop list \<Rightarrow> nat option" where
  "openHops verify inner preceding i [] = None"
| "openHops verify inner preceding i (hop # hops) =
     (let material = SignedMaterial inner preceding (of_nat i) (WallUSec hop) in
      if \<not> verify (RelayPub hop) material (hopSig hop) then Some i
      else openHops verify inner material (Suc i) hops)"

definition Open :: "(bytes \<Rightarrow> bytes \<Rightarrow> bytes \<Rightarrow> bool) \<Rightarrow> int \<Rightarrow> RelayEnvelope \<Rightarrow> EnvelopeError + bytes \<times> nat" where
  "Open verify maxHops e =
     (let n = length (envHops e) in
      if int n > maxHops then Inl ErrHopBoundExceeded
      else case openHops verify (innerWire e) [] 0 (envHops e) of
        Some i \<Rightarrow> Inl (ErrVerify i)
      | None \<Rightarrow> Inr (innerWire e, n))"

definition SignHop :: "('k \<Rightarrow> bytes \<Rightarrow> bytes) \<Rightarrow> 'k \<Rightarrow> bytes \<Rightarrow> bytes \<Rightarrow> bytes \<Rightarrow> u16 \<Rightarrow> i64 \<Rightarrow> Hop" where
  "SignHop sign relayPriv relayPub inner preceding hopIndex wallUSec =
     \<lparr>RelayPub = relayPub,
      hopSig = copyArray SigSize (sign relayPriv (SignedMaterial inner preceding hopIndex wallUSec)),
      WallUSec = wallUSec\<rparr>"

section \<open>The wire form\<close>

definition marshalHop :: "Hop \<Rightarrow> bytes" where
  "marshalHop hop = RelayPub hop @ hopSig hop @ le_bytes 8 (WallUSec hop)"

definition Marshal :: "RelayEnvelope \<Rightarrow> bytes" where
  "Marshal e =
     le_bytes 2 envelopeVersion @
     le_bytes 2 (of_nat (length (envHops e)) :: u16) @
     le_bytes 4 (of_nat (length (innerWire e)) :: u32) @
     envOriginSig e @
     le_bytes 8 (envDotCounter e) @
     envOriginNodeID e @
     innerWire e @
     concat (map marshalHop (envHops e))"

definition headerLenForVersion :: "u16 \<Rightarrow> nat option" where
  "headerLenForVersion ver =
     (if ver = envelopeVersion then Some HeaderLen
      else if ver = envelopeVersionV2 then Some headerLenV2
      else None)"

definition unmarshalHop :: "bytes \<Rightarrow> nat \<Rightarrow> Hop" where
  "unmarshalHop wire base =
     \<lparr>RelayPub = gslice base (base + PubSize) wire,
      hopSig = gslice (base + PubSize) (base + PubSize + SigSize) wire,
      WallUSec = of_le (gslice (base + PubSize + SigSize) (base + HopSize) wire)\<rparr>"

definition UnmarshalRelayEnvelope :: "bytes \<Rightarrow> EnvelopeError + RelayEnvelope" where
  "UnmarshalRelayEnvelope wire =
     (if length wire < 2 then Inl ErrMalformed
      else let ver = of_le (gslice 0 2 wire) in
        case headerLenForVersion ver of
          None \<Rightarrow> Inl ErrMalformed
        | Some hdrLen \<Rightarrow>
            if length wire < hdrLen then Inl ErrMalformed
            else let n = unat (of_le (gslice 2 4 wire) :: u16);
                     innerLen = unat (of_le (gslice 4 8 wire) :: u32)
              in if length wire < hdrLen + innerLen + n * HopSize then Inl ErrMalformed
                 else Inr
                   \<lparr>innerWire = gslice hdrLen (hdrLen + innerLen) wire,
                    envOriginSig = gslice 8 (8 + OriginSigSize) wire,
                    envDotCounter =
                      (if ver = envelopeVersion
                       then of_le (gslice (8 + OriginSigSize) (8 + OriginSigSize + DotCounterSize) wire) else 0),
                    envOriginNodeID =
                      (if ver = envelopeVersion
                       then gslice (8 + OriginSigSize + DotCounterSize)
                              (8 + OriginSigSize + DotCounterSize + OriginNodeIDSize) wire
                       else replicate OriginNodeIDSize 0),
                    envVersion = ver,
                    envHops = map (\<lambda>i. unmarshalHop wire (hdrLen + innerLen + i * HopSize)) [0..<n]\<rparr>)"

section \<open>Forwarding\<close>

definition frameLenPrefixSize :: nat where "frameLenPrefixSize = 4"

definition LengthPrefixFrame :: "bytes \<Rightarrow> bytes" where
  "LengthPrefixFrame envelopeBytes = be_bytes frameLenPrefixSize (of_nat (length envelopeBytes) :: u32) @ envelopeBytes"

fun precedingFrom :: "bytes \<Rightarrow> bytes \<Rightarrow> nat \<Rightarrow> Hop list \<Rightarrow> bytes" where
  "precedingFrom inner preceding i [] = preceding"
| "precedingFrom inner preceding i (hop # hops) =
     precedingFrom inner (SignedMaterial inner preceding (of_nat i) (WallUSec hop)) (Suc i) hops"

definition rebuildPreceding :: "bytes \<Rightarrow> Hop list \<Rightarrow> bytes" where
  "rebuildPreceding inner hops = precedingFrom inner [] 0 hops"

text \<open>The frame that \<^verbatim>\<open>ForwardEnvelope\<close> hands to the socket.\<close>

definition ForwardEnvelope ::
  "('k \<Rightarrow> bytes \<Rightarrow> bytes) \<Rightarrow> 'k \<Rightarrow> bytes \<Rightarrow> bytes \<Rightarrow> bytes \<Rightarrow> u64 \<Rightarrow> bytes \<Rightarrow> Hop list \<Rightarrow> u16 \<Rightarrow> i64 \<Rightarrow> bytes" where
  "ForwardEnvelope sign relayPriv relayPub inner originSig dotCounter originNodeID existingHops hopIndex wallUSec =
     (let preceding = rebuildPreceding inner existingHops;
          newHop = SignHop sign relayPriv relayPub inner preceding hopIndex wallUSec;
          allHops = existingHops @ [newHop]
      in LengthPrefixFrame (Marshal (NewSignedRelayEnvelopeV3 inner originSig dotCounter originNodeID allHops)))"

section \<open>Round trip\<close>

definition hop_ok :: "Hop \<Rightarrow> bool" where
  "hop_ok h \<longleftrightarrow> length (RelayPub h) = PubSize \<and> length (hopSig h) = SigSize"

definition env_ok :: "RelayEnvelope \<Rightarrow> bool" where
  "env_ok e \<longleftrightarrow> length (envOriginSig e) = OriginSigSize \<and> length (envOriginNodeID e) = OriginNodeIDSize \<and>
     length (envHops e) < 2 ^ 16 \<and> length (innerWire e) < 2 ^ 32 \<and> (\<forall>h\<in>set (envHops e). hop_ok h)"

lemma length_marshalHop [simp]: "hop_ok h \<Longrightarrow> length (marshalHop h) = HopSize"
  by (simp add: marshalHop_def hop_ok_def envelope_sizes)

lemma length_marshalHops: "\<forall>h\<in>set hs. hop_ok h \<Longrightarrow> length (concat (map marshalHop hs)) = length hs * HopSize"
  by (induction hs) auto

lemma unmarshal_marshalHop:
  assumes "hop_ok x" "length h = off"
  shows "unmarshalHop (h @ marshalHop x @ r) off = x"
  using assms gslice_shift [of h off 0 32] gslice_shift [of h off 32 96] gslice_shift [of h off 96 104]
  by (cases x) (simp add: unmarshalHop_def marshalHop_def hop_ok_def envelope_sizes gslice_def of_le_le_bytes)

lemma unmarshal_marshalHops:
  assumes "\<forall>h\<in>set hs. hop_ok h" "length h = off" "i < length hs"
  shows "unmarshalHop (h @ concat (map marshalHop hs) @ r) (off + i * HopSize) = hs ! i"
proof -
  have "concat (map marshalHop hs) = concat (map marshalHop (take i hs)) @ marshalHop (hs ! i) @
      concat (map marshalHop (drop (Suc i) hs))"
    using id_take_nth_drop [OF assms(3)] by (metis concat.simps(2) concat_append list.simps(9) map_append)
  moreover have "length (h @ concat (map marshalHop (take i hs))) = off + i * HopSize"
    using assms length_marshalHops [of "take i hs"] by (auto dest: in_set_takeD)
  ultimately show ?thesis
    using assms unmarshal_marshalHop [of "hs ! i" "h @ concat (map marshalHop (take i hs))" "off + i * HopSize"
        "concat (map marshalHop (drop (Suc i) hs)) @ r"]
    by simp
qed

lemma Unmarshal_Marshal:
  assumes ok: "env_ok e"
  shows "UnmarshalRelayEnvelope (Marshal e @ r) = Inr (e\<lparr>envVersion := envelopeVersion\<rparr>) \<and>
    length (Marshal e) = HeaderLen + length (innerWire e) + length (envHops e) * HopSize"
proof -
  let ?v = "le_bytes 2 envelopeVersion" and ?n = "le_bytes 2 (of_nat (length (envHops e)) :: u16)"
  let ?l = "le_bytes 4 (of_nat (length (innerWire e)) :: u32)" and ?d = "le_bytes 8 (envDotCounter e)"
  let ?s = "envOriginSig e" and ?o = "envOriginNodeID e" and ?i = "innerWire e"
  let ?h = "concat (map marshalHop (envHops e))"
  let ?W = "?v @ ?n @ ?l @ ?s @ ?d @ ?o @ ?i @ ?h @ r"
  have w: "Marshal e @ r = ?W" by (simp add: Marshal_def)
  have c: "length ?s = 64" "length ?o = 16" "\<forall>h\<in>set (envHops e). hop_ok h"
    using ok by (auto simp: env_ok_def envelope_sizes)
  have lh: "length ?h = length (envHops e) * HopSize" using length_marshalHops c(3) by blast
  have len: "length ?W = 96 + length ?i + length (envHops e) * HopSize + length r"
    using c lh by simp
  have g: "gslice 0 2 ?W = ?v" "gslice 2 4 ?W = ?n" "gslice 4 8 ?W = ?l" "gslice 8 72 ?W = ?s"
    "gslice 72 80 ?W = ?d" "gslice 80 96 ?W = ?o" "gslice 96 (96 + length ?i) ?W = ?i"
    using c by (simp_all add: gslice_def)
  have n: "unat (of_nat (length (envHops e)) :: u16) = length (envHops e)"
    "unat (of_nat (length ?i) :: u32) = length ?i"
    using ok by (simp_all add: env_ok_def unat_of_nat)
  have b: "map (\<lambda>i. unmarshalHop ?W (96 + length ?i + i * HopSize)) [0..<length (envHops e)] = envHops e"
    using unmarshal_marshalHops [OF c(3), of "?v @ ?n @ ?l @ ?s @ ?d @ ?o @ ?i" "96 + length ?i" _ r] c
    by (intro nth_equalityI) simp_all
  have sz: "HeaderLen = 96" "8 + OriginSigSize = 72" "(72::nat) + DotCounterSize = 80" "(80::nat) + OriginNodeIDSize = 96"
    by (simp_all add: envelope_sizes)
  have "UnmarshalRelayEnvelope ?W = Inr (e\<lparr>envVersion := envelopeVersion\<rparr>)"
    using len unfolding UnmarshalRelayEnvelope_def g
    by (simp add: of_le_le_bytes headerLenForVersion_def sz g n b Let_def)
  moreover have "length (Marshal e) = 96 + length ?i + length (envHops e) * HopSize" using c lh by (simp add: Marshal_def)
  ultimately show ?thesis unfolding w sz by blast
qed

lemma unmarshalHop_ok: "base + HopSize \<le> length w \<Longrightarrow> hop_ok (unmarshalHop w base)"
  by (simp add: hop_ok_def unmarshalHop_def envelope_sizes)

lemma marshal_unmarshalHop:
  assumes "base + HopSize \<le> length w"
  shows "marshalHop (unmarshalHop w base) = gslice base (base + HopSize) w"
proof -
  have "length (gslice (96 + base) (base + 104) w) = 8" using assms by (simp add: envelope_sizes)
  then show ?thesis
    by (simp add: marshalHop_def unmarshalHop_def envelope_sizes le_bytes_of_le gslice_join)
qed

lemma marshal_unmarshalHops:
  "off + n * HopSize \<le> length w \<Longrightarrow>
   concat (map marshalHop (map (\<lambda>i. unmarshalHop w (off + i * HopSize)) [0..<n])) = gslice off (off + n * HopSize) w"
proof (induction n)
  case (Suc n)
  then have "concat (map marshalHop (map (\<lambda>i. unmarshalHop w (off + i * HopSize)) [0..<n])) = gslice off (off + n * HopSize) w"
    by simp
  moreover have "marshalHop (unmarshalHop w (off + n * HopSize)) = gslice (off + n * HopSize) (off + Suc n * HopSize) w"
    using marshal_unmarshalHop [of "off + n * HopSize" w] Suc.prems by (simp add: algebra_simps)
  ultimately show ?case by (simp add: gslice_join del: map_map)
qed (simp add: gslice_def)

text \<open>Every accepted envelope is well formed; of version 3, it is the encoding of what was read.\<close>

lemma Unmarshal_sound:
  assumes "UnmarshalRelayEnvelope w = Inr e"
  shows "env_ok e" and "envVersion e = envelopeVersion \<Longrightarrow> Marshal e = take (length (Marshal e)) w"
    and "envVersion e = envelopeVersion \<or> envVersion e = envelopeVersionV2"
proof -
  define ver where "ver = (of_le (gslice 0 2 w) :: u16)"
  define n where "n = unat (of_le (gslice 2 4 w) :: u16)"
  define L where "L = unat (of_le (gslice 4 8 w) :: u32)"
  obtain hl where hl: "headerLenForVersion ver = Some hl" "2 \<le> length w" "hl \<le> length w" "hl + L + n * HopSize \<le> length w"
    and e: "innerWire e = gslice hl (hl + L) w" "envOriginSig e = gslice 8 (8 + OriginSigSize) w"
      "envDotCounter e = (if ver = envelopeVersion then of_le (gslice (8 + OriginSigSize) (8 + OriginSigSize + DotCounterSize) w) else 0)"
      "envOriginNodeID e = (if ver = envelopeVersion
         then gslice (8 + OriginSigSize + DotCounterSize) (8 + OriginSigSize + DotCounterSize + OriginNodeIDSize) w
         else replicate OriginNodeIDSize 0)"
      "envVersion e = ver" "envHops e = map (\<lambda>i. unmarshalHop w (hl + L + i * HopSize)) [0..<n]"
    using assms unfolding UnmarshalRelayEnvelope_def Let_def ver_def [symmetric] n_def [symmetric] L_def [symmetric]
    by (auto split: if_splits option.splits)
  have hv: "hl = 96 \<and> ver = envelopeVersion \<or> hl = 72 \<and> ver = envelopeVersionV2 \<and> ver \<noteq> envelopeVersion"
    using hl(1) by (auto simp: headerLenForVersion_def envelope_sizes split: if_splits)
  then show "envVersion e = envelopeVersion \<or> envVersion e = envelopeVersionV2" using e by auto
  have 72: "72 \<le> length w" using hl hv by auto
  have nb: "n < 2 ^ 16" "L < 2 ^ 32"
    unfolding n_def L_def using unsigned_less [of "of_le (gslice 2 4 w) :: u16"] unsigned_less [of "of_le (gslice 4 8 w) :: u32"] by simp_all
  have hops: "\<forall>h\<in>set (envHops e). hop_ok h"
  proof -
    have "hop_ok (unmarshalHop w (hl + L + i * HopSize))" if "i < n" for i
    proof -
      have "Suc i * HopSize \<le> n * HopSize" using that by (intro mult_right_mono) auto
      then show ?thesis using hl(4) by (intro unmarshalHop_ok) simp
    qed
    then show ?thesis by (auto simp: e)
  qed
  have lens: "length (envHops e) = n" "length (innerWire e) = L" "length (envOriginSig e) = 64" "length (envOriginNodeID e) = 16"
    using hl hv 72 by (auto simp: e envelope_sizes)
  then show "env_ok e" using nb hops by (simp add: env_ok_def envelope_sizes)
  show "Marshal e = take (length (Marshal e)) w" if "envVersion e = envelopeVersion"
  proof -
    have h: "hl = 96" "ver = envelopeVersion" using that hv e(5) by (auto simp: envelopeVersionV2_def envelopeVersion_def)
    have l: "length (gslice 0 2 w) = 2" "length (gslice 2 4 w) = 2" "length (gslice 4 8 w) = 4" "length (gslice 72 80 w) = 8"
      using hl(3) h by simp_all
    have f: "le_bytes 2 envelopeVersion = gslice 0 2 w" "le_bytes 2 (of_nat n :: u16) = gslice 2 4 w"
      "le_bytes 4 (of_nat L :: u32) = gslice 4 8 w" "le_bytes 8 (of_le (gslice 72 80 w) :: u64) = gslice 72 80 w"
      using h(2) l by (simp_all add: n_def L_def ver_def le_bytes_of_le flip: h(2))
    have hs: "concat (map marshalHop (envHops e)) = gslice (96 + L) (96 + L + n * HopSize) w"
      unfolding e(6) h(1) using marshal_unmarshalHops [of "96 + L" n w] hl(4) h by simp
    have m: "Marshal e = gslice 0 2 w @ gslice 2 4 w @ gslice 4 8 w @ gslice 8 72 w @ gslice 72 80 w @
        gslice 80 96 w @ gslice 96 (96 + L) w @ gslice (96 + L) (96 + L + n * HopSize) w"
      unfolding Marshal_def lens hs using f h by (simp add: e envelope_sizes)
    have "Marshal e = gslice 0 (96 + L + n * HopSize) w" unfolding m by (simp add: gslice_join)
    then show ?thesis using hl(4) h by (simp add: gslice_def)
  qed
qed

text \<open>
  C37. The relay envelope and its wire form correspond. A frame is accepted and decoded to an envelope of version 3 exactly
  when that envelope is well formed and the frame is its encoding, followed by any bytes: these are ignored, so
  one envelope has many frames, but every frame has at most one envelope, and the bytes that were read are the encoding.
\<close>

theorem RelayEnvelope_roundtrip:
  "UnmarshalRelayEnvelope w = Inr e \<and> envVersion e = envelopeVersion \<longleftrightarrow>
   env_ok e \<and> envVersion e = envelopeVersion \<and> (\<exists>rest. w = Marshal e @ rest)"
proof
  assume "UnmarshalRelayEnvelope w = Inr e \<and> envVersion e = envelopeVersion"
  then have "env_ok e" "envVersion e = envelopeVersion" "Marshal e = take (length (Marshal e)) w"
    using Unmarshal_sound(1,2) [of w e] by blast+
  moreover have "w = take (length (Marshal e)) w @ drop (length (Marshal e)) w" by simp
  ultimately show "env_ok e \<and> envVersion e = envelopeVersion \<and> (\<exists>rest. w = Marshal e @ rest)" by metis
next
  assume r: "env_ok e \<and> envVersion e = envelopeVersion \<and> (\<exists>rest. w = Marshal e @ rest)"
  then obtain rest where "w = Marshal e @ rest" by blast
  then show "UnmarshalRelayEnvelope w = Inr e \<and> envVersion e = envelopeVersion"
    using r Unmarshal_Marshal [of e rest] by (cases e) simp
qed

definition ex_hop :: Hop where
  "ex_hop = \<lparr>RelayPub = replicate 32 7, hopSig = replicate 64 9, WallUSec = 1000\<rparr>"

definition ex_env :: RelayEnvelope where
  "ex_env = \<lparr>innerWire = [1, 2, 3], envOriginSig = replicate 64 5, envDotCounter = 42,
     envOriginNodeID = replicate 16 6, envVersion = 3, envHops = [ex_hop]\<rparr>"

lemma ex_env_ok: "env_ok ex_env"
  by (simp add: env_ok_def ex_env_def ex_hop_def hop_ok_def envelope_sizes)

theorem RelayEnvelope_roundtrip_witness:
  "UnmarshalRelayEnvelope (Marshal ex_env @ [0]) = Inr ex_env \<and> env_ok ex_env"
  using RelayEnvelope_roundtrip [of "Marshal ex_env @ [0]" ex_env] ex_env_ok
  by (simp add: ex_env_def envelopeVersion_def)

section \<open>What a custody chain attests\<close>

lemma precedingFrom_append:
  "precedingFrom inner p i (hs @ hs') = precedingFrom inner (precedingFrom inner p i hs) (i + length hs) hs'"
  by (induction hs arbitrary: p i) simp_all

lemma rebuild_Nil [simp]: "rebuildPreceding inner [] = []"
  by (simp add: rebuildPreceding_def)

lemma rebuild_snoc:
  "rebuildPreceding inner (hs @ [h]) = SignedMaterial inner (rebuildPreceding inner hs) (of_nat (length hs)) (WallUSec h)"
  by (simp add: rebuildPreceding_def precedingFrom_append)

lemma length_rebuild: "length (rebuildPreceding inner hs) = length hs * (length inner + 10)"
  by (induction hs rule: rev_induct) (simp_all add: rebuild_snoc SignedMaterial_def)

lemma rebuild_cong: "map WallUSec hs = map WallUSec hs' \<Longrightarrow> rebuildPreceding inner hs = rebuildPreceding inner hs'"
proof (induction hs arbitrary: hs' rule: rev_induct)
  case (snoc h hs)
  then obtain g gs where "hs' = gs @ [g]" "map WallUSec hs = map WallUSec gs" "WallUSec h = WallUSec g"
    by (metis (no_types, lifting) Nil_is_map_conv append_butlast_last_id butlast_snoc last_map last_snoc list.simps(8,9) map_append map_butlast not_Cons_self2 snoc.prems append_is_Nil_conv)
  moreover from this have "length hs = length gs" by (metis length_map)
  ultimately show ?case using snoc.IH by (simp add: rebuild_snoc)
qed simp

lemma append_same_tail: "xs @ us = ys @ vs \<Longrightarrow> length us = length vs \<Longrightarrow> xs = ys \<and> us = vs"
  by simp

lemma rebuild_inj:
  assumes "rebuildPreceding inner hs = rebuildPreceding inner' hs'" "hs \<noteq> []" "hs' \<noteq> []"
    and "length hs \<le> 2 ^ 16" "length hs' \<le> 2 ^ 16"
  shows "inner = inner' \<and> map WallUSec hs = map WallUSec hs'"
  using assms
proof (induction hs arbitrary: hs' rule: rev_induct)
  case (snoc h hs)
  then obtain g gs where hs': "hs' = gs @ [g]" by (metis rev_exhaust)
  have eq: "(inner @ rebuildPreceding inner hs) @ (le_bytes 2 (of_nat (length hs) :: u16) @ le_bytes 8 (WallUSec h)) =
     (inner' @ rebuildPreceding inner' gs) @ (le_bytes 2 (of_nat (length gs) :: u16) @ le_bytes 8 (WallUSec g))"
    using snoc.prems(1) by (simp add: hs' rebuild_snoc SignedMaterial_def)
  then have fr: "inner @ rebuildPreceding inner hs = inner' @ rebuildPreceding inner' gs"
    and tl: "le_bytes 2 (of_nat (length hs) :: u16) = le_bytes 2 (of_nat (length gs) :: u16)"
      "le_bytes 8 (WallUSec h) = le_bytes 8 (WallUSec g)"
    using append_same_tail [OF eq] by auto
  have "(of_nat (length hs) :: u16) = of_nat (length gs)"
    using arg_cong [OF tl(1), of "of_le :: bytes \<Rightarrow> u16"] by (simp add: of_le_le_bytes)
  then have "unat (of_nat (length hs) :: u16) = unat (of_nat (length gs) :: u16)" by simp
  then have l: "length hs = length gs" using snoc.prems(4,5) hs' by (simp add: unat_of_nat)
  have w: "WallUSec h = WallUSec g"
    using arg_cong [OF tl(2), of "of_le :: bytes \<Rightarrow> i64"] by (simp add: of_le_le_bytes)
  have "length inner + length hs * (length inner + 10) = length inner' + length hs * (length inner' + 10)"
    using arg_cong [OF fr, of length] l by (simp add: length_rebuild)
  then have "Suc (length hs) * length inner = Suc (length hs) * length inner'" by (simp add: algebra_simps)
  then have "length inner = length inner'" by (metis Suc_mult_cancel1)
  then have i: "inner = inner'" "rebuildPreceding inner hs = rebuildPreceding inner' gs"
    using fr by (auto simp: append_eq_append_conv)
  show ?case
  proof (cases "hs = []")
    case True
    then show ?thesis using i l w hs' by simp
  next
    case False
    then have "map WallUSec hs = map WallUSec gs"
      using snoc.IH [OF i(2)] l snoc.prems(4,5) hs' by fastforce
    then show ?thesis using i w hs' by simp
  qed
qed simp

text \<open>
  What the signature of a relay covers. The material signed by the last of a chain of relays
  determines, and is determined by, the inner frame and the timestamps of all hops up to it: no chain
  can be moved to another frame, reordered, shortened or redated. The keys and the signatures of the
  earlier relays are not part of it.
\<close>

theorem custody_material_exact:
  assumes "hops \<noteq> []" "hops' \<noteq> []" "length hops \<le> 2 ^ 16" "length hops' \<le> 2 ^ 16"
  shows "rebuildPreceding inner hops = rebuildPreceding inner' hops' \<longleftrightarrow>
    inner = inner' \<and> map WallUSec hops = map WallUSec hops'"
  using rebuild_inj [OF _ assms] rebuild_cong by blast

theorem custody_material_exact_witness:
  "rebuildPreceding [1] [\<lparr>RelayPub = [1], hopSig = [2], WallUSec = 5\<rparr>] =
     rebuildPreceding [1] [\<lparr>RelayPub = [3], hopSig = [4], WallUSec = 5\<rparr>] \<and>
   rebuildPreceding [1] [\<lparr>RelayPub = [1], hopSig = [2], WallUSec = 5\<rparr>] \<noteq>
     rebuildPreceding [1] [\<lparr>RelayPub = [1], hopSig = [2], WallUSec = 6\<rparr>]"
  using custody_material_exact [of "[\<lparr>RelayPub = [1], hopSig = [2], WallUSec = 5\<rparr>]" "[\<lparr>RelayPub = [3], hopSig = [4], WallUSec = 5\<rparr>]" "[1]" "[1]"]
    custody_material_exact [of "[\<lparr>RelayPub = [1], hopSig = [2], WallUSec = 5\<rparr>]" "[\<lparr>RelayPub = [1], hopSig = [2], WallUSec = 6\<rparr>]" "[1]" "[1]"]
  by simp

section \<open>Opening an envelope\<close>

text \<open>All relays signed: hop \<^verbatim>\<open>i\<close> over the material of the chain up to it.\<close>

definition hops_valid :: "(bytes \<Rightarrow> bytes \<Rightarrow> bytes \<Rightarrow> bool) \<Rightarrow> bytes \<Rightarrow> Hop list \<Rightarrow> bool" where
  "hops_valid verify inner hs \<longleftrightarrow>
     (\<forall>i < length hs. verify (RelayPub (hs ! i)) (rebuildPreceding inner (take (Suc i) hs)) (hopSig (hs ! i)))"

lemma openHops_append:
  "openHops verify inner p i (hs @ hs') =
     (case openHops verify inner p i hs of Some j \<Rightarrow> Some j
      | None \<Rightarrow> openHops verify inner (precedingFrom inner p i hs) (i + length hs) hs')"
  by (induction hs arbitrary: p i) (simp_all add: Let_def split: option.split)

lemma hops_valid_snoc:
  "hops_valid verify inner (hs @ [h]) \<longleftrightarrow>
   hops_valid verify inner hs \<and> verify (RelayPub h) (rebuildPreceding inner (hs @ [h])) (hopSig h)"
  by (auto simp: hops_valid_def nth_append less_Suc_eq)

lemma openHops_None: "openHops verify inner [] 0 hs = None \<longleftrightarrow> hops_valid verify inner hs"
proof (induction hs rule: rev_induct)
  case (snoc h hs)
  then show ?case
    by (auto simp: openHops_append hops_valid_snoc rebuild_snoc Let_def split: option.split)
      (simp_all add: rebuildPreceding_def)
qed (simp add: hops_valid_def)

lemma Open_Inr:
  "Open verify m e = Inr (w, n) \<longleftrightarrow>
   w = innerWire e \<and> n = length (envHops e) \<and> int n \<le> m \<and> hops_valid verify (innerWire e) (envHops e)"
  using openHops_None [of verify "innerWire e" "envHops e"]
  by (auto simp: Open_def Let_def split: option.split)

lemma Open_error:
  "Open verify m e = Inl er \<Longrightarrow> er = ErrHopBoundExceeded \<longleftrightarrow> m < int (length (envHops e))"
  by (auto simp: Open_def Let_def split: if_splits option.splits)

text \<open>
  C28. An earlier relay can be replaced in an accepted chain. If an envelope opens, then it still opens
  after the key and the signature of any of its hops are exchanged for another key and a signature by
  that key over the same material, although the later relays never saw the new one.
\<close>

theorem Open_relay_replaced:
  assumes "Open verify m e = Inr (w, n)" "j < n"
    and "verify pub (rebuildPreceding (innerWire e) (take (Suc j) (envHops e))) sig"
  shows "Open verify m (e\<lparr>envHops := (envHops e)[j := (envHops e ! j)\<lparr>RelayPub := pub, hopSig := sig\<rparr>]\<rparr>) = Inr (w, n)"
proof -
  let ?hs = "envHops e" and ?h = "(envHops e ! j)\<lparr>RelayPub := pub, hopSig := sig\<rparr>"
  have o: "w = innerWire e" "n = length ?hs" "int n \<le> m" "hops_valid verify (innerWire e) ?hs"
    using assms(1) unfolding Open_Inr by auto
  have w: "map WallUSec (?hs[j := ?h]) = map WallUSec ?hs"
    using assms(2) o(2) by (intro nth_equalityI) (auto simp: nth_list_update)
  have "rebuildPreceding (innerWire e) (take (Suc i) (?hs[j := ?h])) = rebuildPreceding (innerWire e) (take (Suc i) ?hs)" for i
    using w by (intro rebuild_cong) (simp flip: take_map)
  then have "hops_valid verify (innerWire e) (?hs[j := ?h])"
    using o(2,4) assms(2,3) by (auto simp: hops_valid_def nth_list_update)
  then show ?thesis unfolding Open_Inr using o by simp
qed

text \<open>A toy signature for examples: the key followed by the sum of the message bytes.\<close>

definition ex_sign :: "bytes \<Rightarrow> bytes \<Rightarrow> bytes" where "ex_sign key msg = key @ replicate 32 (sum_list msg)"
definition ex_verify :: "bytes \<Rightarrow> bytes \<Rightarrow> bytes \<Rightarrow> bool" where
  "ex_verify pub msg sig \<longleftrightarrow> length pub = 32 \<and> sig = ex_sign pub msg"

definition ex_signed :: RelayEnvelope where
  "ex_signed = ex_env\<lparr>envHops := [SignHop ex_sign (replicate 32 7) (replicate 32 7) [1, 2, 3] [] 0 1000]\<rparr>"

lemma length_ex_sign [simp]: "length key = 32 \<Longrightarrow> length (ex_sign key msg) = 64"
  by (simp add: ex_sign_def)

lemma ex_signed_opens: "Open ex_verify 15 ex_signed = Inr ([1, 2, 3], 1)"
  unfolding Open_Inr
  by (simp add: ex_signed_def ex_env_def SignHop_def hops_valid_def ex_verify_def rebuildPreceding_def SigSize_def)

lemma ex_signed_ok: "env_ok ex_signed"
  by (simp add: env_ok_def ex_signed_def ex_env_def SignHop_def hop_ok_def envelope_sizes)

theorem Open_relay_replaced_witness:
  "\<exists>sig. Open ex_verify 15 (ex_signed\<lparr>envHops := (envHops ex_signed)[0 := (envHops ex_signed ! 0)\<lparr>RelayPub := replicate 32 8, hopSig := sig\<rparr>]\<rparr>)
     = Inr ([1, 2, 3], 1)"
  using Open_relay_replaced [OF ex_signed_opens, of 0 "replicate 32 8"
      "ex_sign (replicate 32 8) (rebuildPreceding (innerWire ex_signed) (take (Suc 0) (envHops ex_signed)))"]
  by (auto simp: ex_verify_def)

text \<open>
  The depth bound is the verification budget. With the bound computed from a budget that covers at
  least one verification, an envelope whose relay signatures are valid is opened exactly when its
  verifications, one for each hop and one for the origin, fit into the budget.
\<close>

theorem Open_within_budget:
  assumes "verifyCostPerHop32c \<le> budget" "hops_valid verify (innerWire e) (envHops e)"
  shows "(\<exists>r. Open verify (MaxHopsForBudget budget) e = Inr r) \<longleftrightarrow>
    int (HopCount e + 1) * verifyCostPerHop32c \<le> budget"
proof -
  have c: "verifyCostPerHop32c = 60211" by (simp add: verifyCostPerHop32c_def)
  have d: "1 \<le> budget div 60211" using assms(1) c by linarith
  have "MaxHopsForBudget budget = budget div 60211 - 1"
    using assms(1) d by (simp add: MaxHopsForBudget_def c Let_def)
  moreover have "k \<le> budget div 60211 - 1 \<longleftrightarrow> (k + 1) * 60211 \<le> budget" for k
  proof -
    define q r where "q = budget div 60211" and "r = budget mod 60211"
    have "0 \<le> r" "r < 60211" "budget = 60211 * q + r" by (simp_all add: q_def r_def)
    then have "k \<le> q - 1 \<longleftrightarrow> (k + 1) * 60211 \<le> budget" by auto
    then show ?thesis by (simp add: q_def)
  qed
  ultimately have "int (HopCount e) \<le> MaxHopsForBudget budget \<longleftrightarrow> int (HopCount e + 1) * 60211 \<le> budget"
    by (simp add: add.commute)
  moreover have "(\<exists>r. Open verify (MaxHopsForBudget budget) e = Inr r) \<longleftrightarrow> int (HopCount e) \<le> MaxHopsForBudget budget"
    using assms(2) Open_Inr [of verify "MaxHopsForBudget budget" e] by (auto simp: HopCount_def)
  ultimately show ?thesis by (simp add: c)
qed

theorem Open_within_budget_witness:
  "(\<exists>r. Open ex_verify (MaxHopsForBudget 1000000) ex_signed = Inr r) \<and>
   \<not> (\<exists>r. Open ex_verify (MaxHopsForBudget 100000) ex_signed = Inr r)"
proof -
  have v: "hops_valid ex_verify (innerWire ex_signed) (envHops ex_signed)" using ex_signed_opens unfolding Open_Inr by simp
  have n: "HopCount ex_signed = 1" by (simp add: HopCount_def ex_signed_def)
  show ?thesis
    using Open_within_budget [OF _ v, of 1000000] Open_within_budget [OF _ v, of 100000]
    by (simp add: n verifyCostPerHop32c_def)
qed

section \<open>Forwarding\<close>

text \<open>
  C29. A forwarded frame is accepted by the next receiver. When a relay opened an envelope, signs its
  own hop with a key whose signatures verify and ships the frame, the receiver that strips the length
  prefix decodes the chain of the relay plus its hop, and opens it with one hop more to spend: the inner
  frame, the origin's signature and the gate fields arrive unchanged.
\<close>

theorem ForwardEnvelope_accepted:
  assumes "env_ok e" "Open verify m e = Inr (inner, n)" "n + 1 < 2 ^ 16"
    and "\<And>msg. length (sign priv msg) = SigSize" "\<And>msg. verify pub msg (sign priv msg)" "length pub = PubSize"
  shows "\<exists>e'. UnmarshalRelayEnvelope
       (drop frameLenPrefixSize (ForwardEnvelope sign priv pub inner (envOriginSig e) (envDotCounter e)
          (envOriginNodeID e) (envHops e) (of_nat n) wall)) = Inr e' \<and>
     Open verify (m + 1) e' = Inr (inner, n + 1) \<and> take n (envHops e') = envHops e \<and>
     envOriginSig e' = envOriginSig e \<and> envDotCounter e' = envDotCounter e \<and> envOriginNodeID e' = envOriginNodeID e"
proof -
  let ?new = "SignHop sign priv pub inner (rebuildPreceding inner (envHops e)) (of_nat n) wall"
  let ?e = "NewSignedRelayEnvelopeV3 inner (envOriginSig e) (envDotCounter e) (envOriginNodeID e) (envHops e @ [?new])"
  have o: "inner = innerWire e" "n = length (envHops e)" "int n \<le> m" "hops_valid verify inner (envHops e)"
    using assms(2) unfolding Open_Inr by auto
  have "env_ok ?e"
    using assms(1,3,4,6) o by (simp add: env_ok_def NewSignedRelayEnvelopeV3_def NewRelayEnvelope_def SignHop_def hop_ok_def)
  then have u: "UnmarshalRelayEnvelope (Marshal ?e) = Inr (?e\<lparr>envVersion := envelopeVersion\<rparr>)"
    using Unmarshal_Marshal [of ?e "[]"] by simp
  have "hops_valid verify inner (envHops e @ [?new])"
    unfolding hops_valid_snoc using o assms(4,5) by (simp add: SignHop_def rebuild_snoc)
  then have "Open verify (m + 1) (?e\<lparr>envVersion := envelopeVersion\<rparr>) = Inr (inner, n + 1)"
    unfolding Open_Inr using o by (simp add: NewSignedRelayEnvelopeV3_def NewRelayEnvelope_def)
  then show ?thesis
    using u o by (intro exI [of _ "?e\<lparr>envVersion := envelopeVersion\<rparr>"])
      (simp add: ForwardEnvelope_def LengthPrefixFrame_def Let_def NewSignedRelayEnvelopeV3_def NewRelayEnvelope_def)
qed

theorem ForwardEnvelope_accepted_witness:
  "\<exists>e'. UnmarshalRelayEnvelope
       (drop frameLenPrefixSize (ForwardEnvelope ex_sign (replicate 32 8) (replicate 32 8) [1, 2, 3] (envOriginSig ex_signed)
          (envDotCounter ex_signed) (envOriginNodeID ex_signed) (envHops ex_signed) (of_nat 1) 2000)) = Inr e' \<and>
     Open ex_verify (15 + 1) e' = Inr ([1, 2, 3], 1 + 1)"
  using ForwardEnvelope_accepted [OF ex_signed_ok ex_signed_opens, of ex_sign "replicate 32 8" "replicate 32 8" 2000]
  by (auto simp: ex_verify_def envelope_sizes)

end
