(* ===== verification/Frames.thy ===== *)
theory Frames
  imports Envelope "HOL-Library.Monad_Syntax"
begin

text \<open>
  The frames that share a connection with relay envelopes: the batch and the hybrid envelope of
  \<^verbatim>\<open>pkg/attribution/wire_v1.go\<close>, the digest frame of \<^verbatim>\<open>pkg/mesh/digest.go\<close>, and the reassembly of
  length-prefixed frames from a byte stream (\<^verbatim>\<open>FrameReader\<close> of \<^verbatim>\<open>pkg/receive/receiver.go\<close>).
\<close>

section \<open>Batch envelopes\<close>

definition WireV1Magic :: u32 where "WireV1Magic = 0x53424154"
definition WireV1Version :: byte where "WireV1Version = 1"
definition BatchEnvelopeHeaderLen :: nat where "BatchEnvelopeHeaderLen = 4 + 1 + 8 + 2 + OriginNodeIDSize + OriginSigSize"

datatype BatchError = ErrBatchMalformed | ErrBatchUnsigned

record BatchEnvelope =
  batchOriginNodeID :: bytes
  batchOriginSig :: bytes
  batchOriginSeq :: u64
  batchBatchCount :: u16
  batchEnvWire :: bytes

definition MarshalBatchEnvelope :: "bytes \<Rightarrow> bytes \<Rightarrow> u64 \<Rightarrow> u16 \<Rightarrow> bytes \<Rightarrow> bytes" where
  "MarshalBatchEnvelope originNodeID originSig originSeq batchCount batchWire =
     be_bytes 4 WireV1Magic @ [WireV1Version] @ be_bytes 8 originSeq @ be_bytes 2 batchCount @
     originNodeID @ originSig @ batchWire"

definition UnmarshalBatchEnvelope :: "bytes \<Rightarrow> BatchError + BatchEnvelope" where
  "UnmarshalBatchEnvelope wire =
     (if length wire < BatchEnvelopeHeaderLen then Inl ErrBatchMalformed
      else if of_be (gslice 0 4 wire) \<noteq> WireV1Magic then Inl ErrBatchMalformed
      else if wire ! 4 \<noteq> WireV1Version then Inl ErrBatchMalformed
      else let env = \<lparr>batchOriginNodeID = gslice 15 (15 + OriginNodeIDSize) wire,
                      batchOriginSig = gslice (15 + OriginNodeIDSize) BatchEnvelopeHeaderLen wire,
                      batchOriginSeq = of_be (gslice 5 13 wire),
                      batchBatchCount = of_be (gslice 13 15 wire),
                      batchEnvWire = wire\<rparr>
        in if batchOriginSig env = replicate OriginSigSize 0 then Inl ErrBatchUnsigned else Inr env)"

definition BatchWire :: "BatchEnvelope \<Rightarrow> bytes" where
  "BatchWire e = drop BatchEnvelopeHeaderLen (batchEnvWire e)"

definition IsBatchFrame :: "bytes \<Rightarrow> bool" where
  "IsBatchFrame frame \<longleftrightarrow> length frame \<ge> 4 \<and> of_be (gslice 0 4 frame) = WireV1Magic"

definition BatchAcceptCount :: "bytes \<Rightarrow> nat" where
  "BatchAcceptCount frame = (case UnmarshalBatchEnvelope frame of Inl _ \<Rightarrow> 0 | Inr env \<Rightarrow> unat (batchBatchCount env))"

section \<open>Hybrid envelopes\<close>

definition WireHybridPQMagic :: u32 where "WireHybridPQMagic = 0x53485942"
definition WireHybridPQVersion :: byte where "WireHybridPQVersion = 1"
definition PQSignatureSize :: nat where "PQSignatureSize = 3309"
definition HybridEnvelopeHeaderLen :: nat where
  "HybridEnvelopeHeaderLen = 4 + 1 + 8 + 2 + OriginNodeIDSize + OriginSigSize + PQSignatureSize"

datatype HybridError = ErrHybridMalformed | ErrHybridUnsigned

record HybridEnvelope =
  hybridOriginNodeID :: bytes
  hybridEdSig :: bytes
  hybridPQSig :: bytes
  hybridOriginSeq :: u64
  hybridBatchCount :: u16
  hybridEnvWire :: bytes

definition MarshalHybridFrame :: "bytes \<Rightarrow> bytes \<Rightarrow> bytes \<Rightarrow> u64 \<Rightarrow> u16 \<Rightarrow> bytes \<Rightarrow> bytes" where
  "MarshalHybridFrame originNodeID edSig pqSig originSeq batchCount batchWire =
     be_bytes 4 WireHybridPQMagic @ [WireHybridPQVersion] @ be_bytes 8 originSeq @ be_bytes 2 batchCount @
     originNodeID @ edSig @ pqSig @ batchWire"

definition UnmarshalHybridFrame :: "bytes \<Rightarrow> HybridError + HybridEnvelope" where
  "UnmarshalHybridFrame wire =
     (if length wire < HybridEnvelopeHeaderLen then Inl ErrHybridMalformed
      else if of_be (gslice 0 4 wire) \<noteq> WireHybridPQMagic then Inl ErrHybridMalformed
      else if wire ! 4 \<noteq> WireHybridPQVersion then Inl ErrHybridMalformed
      else let edOff = 15 + OriginNodeIDSize;
               pqOff = edOff + OriginSigSize;
               env = \<lparr>hybridOriginNodeID = gslice 15 (15 + OriginNodeIDSize) wire,
                      hybridEdSig = gslice edOff (edOff + OriginSigSize) wire,
                      hybridPQSig = gslice pqOff HybridEnvelopeHeaderLen wire,
                      hybridOriginSeq = of_be (gslice 5 13 wire),
                      hybridBatchCount = of_be (gslice 13 15 wire),
                      hybridEnvWire = wire\<rparr>
        in if hybridEdSig env = replicate OriginSigSize 0 \<or> hybridPQSig env = replicate PQSignatureSize 0
           then Inl ErrHybridUnsigned else Inr env)"

definition HybridBatchWire :: "HybridEnvelope \<Rightarrow> bytes" where
  "HybridBatchWire e = drop HybridEnvelopeHeaderLen (hybridEnvWire e)"

definition IsHybridFrame :: "bytes \<Rightarrow> bool" where
  "IsHybridFrame frame \<longleftrightarrow> length frame \<ge> 4 \<and> of_be (gslice 0 4 frame) = WireHybridPQMagic"

definition HybridAcceptCount :: "bytes \<Rightarrow> nat" where
  "HybridAcceptCount frame = (case UnmarshalHybridFrame frame of Inl _ \<Rightarrow> 0 | Inr env \<Rightarrow> unat (hybridBatchCount env))"

section \<open>Digest frames\<close>

definition WireDigestMagic :: u32 where "WireDigestMagic = 0x53445354"
definition digestFrameHeaderLen :: nat where "digestFrameHeaderLen = 4 + 16"
definition digestFrameSELenOff :: nat where "digestFrameSELenOff = digestFrameHeaderLen"

definition IsDigestFrame :: "bytes \<Rightarrow> bool" where
  "IsDigestFrame frame \<longleftrightarrow> length frame \<ge> 4 \<and> of_be (gslice 0 4 frame) = WireDigestMagic"

definition PutDigestFrame :: "bytes \<Rightarrow> bytes" where
  "PutDigestFrame dst = put_at 0 (be_bytes 4 WireDigestMagic) dst"

definition buildDigestFrame :: "bytes \<Rightarrow> bytes \<Rightarrow> bytes \<Rightarrow> bytes" where
  "buildDigestFrame senderID marshaledStrata marshaledIBLT =
     PutDigestFrame (replicate 4 0) @ senderID @ be_bytes 4 (of_nat (length marshaledStrata) :: u32) @
     marshaledStrata @ marshaledIBLT"

text \<open>\<^verbatim>\<open>None\<close> is the pair of nil slices.\<close>

definition digestFrameSplit :: "bytes \<Rightarrow> (bytes \<times> bytes) option" where
  "digestFrameSplit frame =
     (if length frame < digestFrameSELenOff + 4 then None
      else let seLen = unat (of_be (gslice digestFrameSELenOff (digestFrameSELenOff + 4) frame) :: u32);
               seStart = digestFrameSELenOff + 4
        in if seStart > length frame \<or> seStart + seLen > length frame then None
           else Some (gslice seStart (seStart + seLen) frame, drop (seStart + seLen) frame))"

definition digestFrameSender :: "bytes \<Rightarrow> bytes" where
  "digestFrameSender frame =
     (if length frame < digestFrameHeaderLen then replicate 16 0 else gslice 4 digestFrameHeaderLen frame)"

section \<open>Dispatch\<close>

text \<open>
  The router of the read loops over the two interfaces it is given: the receiver's three handlers,
  and the digest sink, \<^verbatim>\<open>None\<close> when stratified anti-entropy is off. \<^verbatim>\<open>accepted\<close> is the accepting verdict.
\<close>

definition DispatchFrame ::
  "(bytes \<Rightarrow> 's \<Rightarrow> 'v \<times> 's) \<Rightarrow> (bytes \<Rightarrow> 's \<Rightarrow> 'v \<times> 's) \<Rightarrow> (bytes \<Rightarrow> 's \<Rightarrow> 'v \<times> 's) \<Rightarrow>
   (bytes \<Rightarrow> bytes \<Rightarrow> 's \<Rightarrow> 's) option \<Rightarrow> 'v \<Rightarrow> bytes \<Rightarrow> bytes \<Rightarrow> 's \<Rightarrow> 'v \<times> 's" where
  "DispatchFrame handleBatchFrame handleHybridFrame handleFrame digester accepted frame peerID s =
     (if IsBatchFrame frame then handleBatchFrame frame s
      else if IsDigestFrame frame
      then (accepted, case digester of None \<Rightarrow> s | Some deliverDigest \<Rightarrow> deliverDigest peerID frame s)
      else if IsHybridFrame frame then handleHybridFrame frame s
      else handleFrame frame s)"

section \<open>Reassembly\<close>

definition maxFrameSize :: nat where "maxFrameSize = 16 * 2 ^ 20"

text \<open>
  The underlying \<^verbatim>\<open>io.Reader\<close> is the list of what its next calls can deliver: some bytes and, with
  the last of them, possibly an error. A call takes at most as many bytes as it has room for.
\<close>

type_synonym source = "(bytes \<times> string option) list"

definition readSource :: "nat \<Rightarrow> source \<Rightarrow> bytes \<times> string option \<times> source" where
  "readSource room src = (case src of
     [] \<Rightarrow> ([], Some ''EOF'', [])
   | (c, err) # cs \<Rightarrow> if length c \<le> room then (c, err, cs) else (take room c, None, (drop room c, err) # cs))"

record FrameReader =
  readerSrc :: source
  readerBuf :: bytes
  readerCap :: nat

definition NewFrameReader :: "source \<Rightarrow> FrameReader" where
  "NewFrameReader src = \<lparr>readerSrc = src, readerBuf = [], readerCap = 0\<rparr>"

datatype FrameError = ReadError string | ErrFrameTooLarge

function growCap :: "nat \<Rightarrow> nat \<Rightarrow> nat" where
  "growCap newCap target = (if 0 < newCap \<and> newCap < target then growCap (newCap * 2) target else newCap)"
  by pat_completeness auto
termination
  by (relation "measure (\<lambda>(newCap, target). target - newCap)") auto

declare growCap.simps [simp del]

definition growBuffer :: "nat \<Rightarrow> FrameReader \<Rightarrow> FrameReader" where
  "growBuffer target f =
     (if readerCap f < target
      then let newCap = growCap 1024 target
        in f\<lparr>readerCap := (if newCap > maxFrameSize + frameLenPrefixSize then maxFrameSize + frameLenPrefixSize else newCap)\<rparr>
      else f)"

text \<open>The read loop of \<^verbatim>\<open>fill\<close>; \<^verbatim>\<open>None\<close>: a reader that never delivers, or no room, keeps it going forever.\<close>

partial_function (option) fillLoop :: "nat \<Rightarrow> FrameReader \<Rightarrow> (string option \<times> FrameReader) option" where
  "fillLoop target f =
     (if length (readerBuf f) < target
      then case readSource (readerCap f - length (readerBuf f)) (readerSrc f) of
        (got, err, src) \<Rightarrow>
          let f' = f\<lparr>readerBuf := readerBuf f @ got, readerSrc := src\<rparr>
          in (case err of Some e \<Rightarrow> Some (Some e, f') | None \<Rightarrow> fillLoop target f')
      else Some (None, f))"

definition fill :: "nat \<Rightarrow> FrameReader \<Rightarrow> (string option \<times> FrameReader) option" where
  "fill target f = fillLoop target (growBuffer target f)"

text \<open>\<^verbatim>\<open>fill\<close> returns an error or with enough bytes, so that each loop around it runs at most once.\<close>

definition fillTo :: "nat \<Rightarrow> FrameReader \<Rightarrow> (string option \<times> FrameReader) option" where
  "fillTo target f = (if length (readerBuf f) < target then fill target f else Some (None, f))"

definition ReadFrame :: "FrameReader \<Rightarrow> ((FrameError + bytes) \<times> FrameReader) option" where
  "ReadFrame f = do {
     (err1, f1) \<leftarrow> fillTo frameLenPrefixSize f;
     case err1 of Some e \<Rightarrow> Some (Inl (ReadError e), f1) | None \<Rightarrow>
       let frameLen = unat (of_be (gslice 0 frameLenPrefixSize (readerBuf f1)) :: u32)
       in if frameLen \<le> 0 \<or> frameLen > maxFrameSize then Some (Inl ErrFrameTooLarge, f1)
          else do {
            let need = frameLenPrefixSize + frameLen;
            (err2, f2) \<leftarrow> fillTo need f1;
            case err2 of Some e \<Rightarrow> Some (Inl (ReadError e), f2) | None \<Rightarrow>
              Some (Inr (gslice frameLenPrefixSize need (readerBuf f2)),
                    f2\<lparr>readerBuf := drop need (readerBuf f2)\<rparr>)
          }
   }"

section \<open>The reader delivers what was sent\<close>

definition pendingBytes :: "FrameReader \<Rightarrow> bytes" where
  "pendingBytes f = readerBuf f @ concat (map fst (readerSrc f))"

definition reader_ok :: "FrameReader \<Rightarrow> bool" where
  "reader_ok f \<longleftrightarrow> length (readerBuf f) \<le> readerCap f \<and> readerCap f \<le> maxFrameSize + frameLenPrefixSize \<and>
     (\<forall>(c, err)\<in>set (readerSrc f). err = None)"

lemma growCap_ge: "0 < newCap \<Longrightarrow> target \<le> growCap newCap target \<and> newCap \<le> growCap newCap target"
proof (induction newCap target rule: growCap.induct)
  case (1 newCap target)
  then show ?case by (cases "newCap < target") (simp_all add: growCap.simps [of newCap])
qed

lemma growBuffer_spec:
  assumes "reader_ok f" "target \<le> maxFrameSize + frameLenPrefixSize"
  shows "reader_ok (growBuffer target f)" "target \<le> readerCap (growBuffer target f)"
    "pendingBytes (growBuffer target f) = pendingBytes f"
  using assms growCap_ge [of 1024 target]
  by (auto simp: growBuffer_def reader_ok_def pendingBytes_def Let_def)

lemma fillLoop_spec:
  assumes "reader_ok f" "target \<le> readerCap f" "target \<le> length (pendingBytes f)"
  shows "\<exists>f'. fillLoop target f = Some (None, f') \<and> reader_ok f' \<and> pendingBytes f' = pendingBytes f \<and>
    target \<le> length (readerBuf f')"
  using assms
proof (induction "sum_list (map (\<lambda>(c, err). Suc (length c)) (readerSrc f))" arbitrary: f rule: less_induct)
  case less
  show ?case
  proof (cases "length (readerBuf f) < target")
    case False
    then show ?thesis using less.prems by (subst fillLoop.simps) auto
  next
    case short: True
    then obtain c cs where src: "readerSrc f = (c, None) # cs"
      using less.prems(1,3) by (cases "readerSrc f") (auto simp: pendingBytes_def reader_ok_def)
    let ?room = "readerCap f - length (readerBuf f)"
    have room: "0 < ?room" using short less.prems(2) by simp
    define got src' where "got = fst (readSource ?room (readerSrc f))" and "src' = snd (snd (readSource ?room (readerSrc f)))"
    have r: "readSource ?room (readerSrc f) = (got, None, src')"
      by (simp add: got_def src'_def readSource_def src)
    have gs: "length got \<le> ?room" "got @ concat (map fst src') = concat (map fst (readerSrc f))"
      "\<forall>(c, err)\<in>set src'. err = None"
      "sum_list (map (\<lambda>(c, err). Suc (length c)) src') < sum_list (map (\<lambda>(c, err). Suc (length c)) (readerSrc f))"
      using room less.prems(1) by (auto simp: got_def src'_def readSource_def src reader_ok_def)
    let ?f = "f\<lparr>readerBuf := readerBuf f @ got, readerSrc := src'\<rparr>"
    have "\<exists>f'. fillLoop target ?f = Some (None, f') \<and> reader_ok f' \<and> pendingBytes f' = pendingBytes ?f \<and>
        target \<le> length (readerBuf f')"
      using gs less.prems by (intro less.hyps) (auto simp: reader_ok_def pendingBytes_def simp flip: gs(2))
    moreover have "pendingBytes ?f = pendingBytes f" using gs(2) by (simp add: pendingBytes_def)
    moreover have "fillLoop target f = fillLoop target ?f"
      using short r by (subst fillLoop.simps) (simp add: Let_def)
    ultimately show ?thesis by simp
  qed
qed

lemma fillTo_spec:
  assumes "reader_ok f" "target \<le> maxFrameSize + frameLenPrefixSize" "target \<le> length (pendingBytes f)"
  shows "\<exists>f'. fillTo target f = Some (None, f') \<and> reader_ok f' \<and> pendingBytes f' = pendingBytes f \<and>
    target \<le> length (readerBuf f')"
proof (cases "length (readerBuf f) < target")
  case True
  then show ?thesis
    using fillLoop_spec [OF growBuffer_spec(1,2) [OF assms(1,2)]] assms growBuffer_spec(3) [OF assms(1,2)]
    by (simp add: fillTo_def fill_def)
next
  case False
  then show ?thesis using assms by (simp add: fillTo_def)
qed

lemma gslice_prefix: "j \<le> length xs \<Longrightarrow> gslice i j (xs @ ys) = gslice i j xs"
  by (auto simp: gslice_def)

lemma ReadFrame_spec:
  assumes ok: "reader_ok f" and p: "pendingBytes f = LengthPrefixFrame x @ rest"
    and x: "0 < length x" "length x \<le> maxFrameSize"
  shows "\<exists>f'. ReadFrame f = Some (Inr x, f') \<and> reader_ok f' \<and> pendingBytes f' = rest"
proof -
  let ?h = "be_bytes 4 (of_nat (length x) :: u32)"
  have four: "frameLenPrefixSize = 4" by (simp add: frameLenPrefixSize_def)
  have p': "pendingBytes f = ?h @ x @ rest" using p by (simp add: LengthPrefixFrame_def four)
  obtain f1 where f1: "fillTo 4 f = Some (None, f1)" "reader_ok f1" "pendingBytes f1 = ?h @ x @ rest" "4 \<le> length (readerBuf f1)"
    using fillTo_spec [OF ok, of 4] p' by (auto simp: four)
  have "gslice 0 4 (readerBuf f1) = gslice 0 4 (pendingBytes f1)"
    using f1(4) by (simp add: pendingBytes_def gslice_prefix)
  then have h: "gslice 0 4 (readerBuf f1) = ?h" using f1(3) by (simp add: gslice_def)
  have n: "unat (of_be ?h :: u32) = length x"
    using x(2) by (simp add: of_be_be_bytes unat_of_nat maxFrameSize_def)
  obtain f2 where f2: "fillTo (4 + length x) f1 = Some (None, f2)" "reader_ok f2" "pendingBytes f2 = ?h @ x @ rest"
      "4 + length x \<le> length (readerBuf f2)"
    using fillTo_spec [OF f1(2), of "4 + length x"] f1(3) x(2) by (auto simp: four)
  have b: "gslice 4 (4 + length x) (readerBuf f2) = x" "drop (4 + length x) (readerBuf f2) @ concat (map fst (readerSrc f2)) = rest"
  proof -
    have "gslice 4 (4 + length x) (readerBuf f2) = gslice 4 (4 + length x) (pendingBytes f2)"
      using f2(4) by (simp add: pendingBytes_def gslice_prefix)
    then show "gslice 4 (4 + length x) (readerBuf f2) = x" using f2(3) by (simp add: gslice_def)
    have "drop (4 + length x) (pendingBytes f2) = rest" using f2(3) by simp
    then show "drop (4 + length x) (readerBuf f2) @ concat (map fst (readerSrc f2)) = rest"
      using f2(4) by (simp add: pendingBytes_def)
  qed
  let ?f = "f2\<lparr>readerBuf := drop (4 + length x) (readerBuf f2)\<rparr>"
  have "ReadFrame f = Some (Inr x, ?f)"
    using x by (simp add: ReadFrame_def four f1(1) h n f2(1) b(1) Let_def)
  moreover have "reader_ok ?f" using f2(2) by (auto simp: reader_ok_def)
  moreover have "pendingBytes ?f = rest" using b(2) by (simp add: pendingBytes_def)
  ultimately show ?thesis by blast
qed

text \<open>The serving loop: the next \<^verbatim>\<open>n\<close> frames, unless one of them is an error.\<close>

primrec readFrames :: "nat \<Rightarrow> FrameReader \<Rightarrow> (bytes list \<times> FrameReader) option" where
  "readFrames 0 f = Some ([], f)"
| "readFrames (Suc n) f = do {
     (x, f1) \<leftarrow> ReadFrame f;
     case x of Inl _ \<Rightarrow> None | Inr frame \<Rightarrow> do { (xs, f2) \<leftarrow> readFrames n f1; Some (frame # xs, f2) }
   }"

lemma readFrames_spec:
  "reader_ok f \<Longrightarrow> pendingBytes f = concat (map LengthPrefixFrame fs) @ rest \<Longrightarrow>
   \<forall>x\<in>set fs. 0 < length x \<and> length x \<le> maxFrameSize \<Longrightarrow>
   \<exists>f'. readFrames (length fs) f = Some (fs, f') \<and> reader_ok f' \<and> pendingBytes f' = rest"
proof (induction fs arbitrary: f)
  case (Cons x fs)
  then obtain f1 where "ReadFrame f = Some (Inr x, f1)" "reader_ok f1" "pendingBytes f1 = concat (map LengthPrefixFrame fs) @ rest"
    using ReadFrame_spec [of f x "concat (map LengthPrefixFrame fs) @ rest"] by auto
  then show ?case using Cons.IH [of f1] Cons.prems(3) by auto
qed simp

text \<open>
  C30. Frames survive the byte stream. However the connection cuts the stream into reads, the reader
  returns exactly the frames that were length-prefixed and sent, in order and without looping, keeps the
  bytes of the next frame, and never grows its buffer beyond the largest frame and its prefix.
\<close>

theorem ReadFrame_reassembles:
  assumes "\<forall>x\<in>set fs. 0 < length x \<and> length x \<le> maxFrameSize"
    and "\<forall>(c, err)\<in>set src. err = None"
    and "concat (map fst src) = concat (map LengthPrefixFrame fs) @ rest"
  shows "\<exists>f'. readFrames (length fs) (NewFrameReader src) = Some (fs, f') \<and>
    readerBuf f' @ concat (map fst (readerSrc f')) = rest \<and> readerCap f' \<le> maxFrameSize + frameLenPrefixSize"
  using readFrames_spec [of "NewFrameReader src" fs rest] assms
  by (auto simp: NewFrameReader_def reader_ok_def pendingBytes_def)

theorem ReadFrame_reassembles_witness:
  "\<exists>f'. readFrames (length [[1, 2, 3], [4]]) (NewFrameReader [([0, 0], None), ([0, 3, 1], None), ([], None), ([2, 3, 0, 0, 0, 1, 4, 9], None)]) =
     Some ([[1, 2, 3], [4]], f') \<and> readerBuf f' @ concat (map fst (readerSrc f')) = [9]"
proof -
  have p: "LengthPrefixFrame [1, 2, 3] = [0, 0, 0, 3, 1, 2, 3]" "LengthPrefixFrame [4] = [0, 0, 0, 1, 4]"
    by (simp_all add: LengthPrefixFrame_def frameLenPrefixSize_def be_bytes_def le_bytes_def upt_rec drop_bit_eq_div)
  show ?thesis
    using ReadFrame_reassembles [of "[[1, 2, 3], [4]]"
        "[([0, 0], None), ([0, 3, 1], None), ([], None), ([2, 3, 0, 0, 0, 1, 4, 9], None)]" "[9]"]
    by (auto simp: p maxFrameSize_def)
qed

section \<open>Every frame reaches its parser\<close>

lemmas frame_magics = WireV1Magic_def WireDigestMagic_def WireHybridPQMagic_def
lemmas frame_sizes = envelope_sizes BatchEnvelopeHeaderLen_def HybridEnvelopeHeaderLen_def PQSignatureSize_def
  digestFrameHeaderLen_def digestFrameSELenOff_def

lemma gslice_magic: "gslice 0 4 (be_bytes 4 (m :: u32) @ xs) = be_bytes 4 m"
  by (simp add: gslice_def)

lemma Batch_roundtrip:
  fixes seq :: u64 and cnt :: u16 and body :: bytes
  assumes "length nodeID = 16" "length sig = 64" "sig \<noteq> replicate 64 0"
  defines "w \<equiv> MarshalBatchEnvelope nodeID sig seq cnt body"
  shows "IsBatchFrame w"
    and "UnmarshalBatchEnvelope w = Inr \<lparr>batchOriginNodeID = nodeID, batchOriginSig = sig, batchOriginSeq = seq,
          batchBatchCount = cnt, batchEnvWire = w\<rparr>"
    and "drop BatchEnvelopeHeaderLen w = body"
proof -
  let ?m = "be_bytes 4 WireV1Magic" and ?v = "[WireV1Version]" and ?s = "be_bytes 8 seq" and ?c = "be_bytes 2 cnt"
  have w: "w = ?m @ ?v @ ?s @ ?c @ nodeID @ sig @ body" by (simp add: w_def MarshalBatchEnvelope_def)
  have g: "gslice 0 4 w = ?m" "w ! 4 = WireV1Version" "gslice 5 13 w = ?s" "gslice 13 15 w = ?c"
    "gslice 15 31 w = nodeID" "gslice 31 95 w = sig" "95 \<le> length w"
    unfolding w using assms by (simp_all add: gslice_def nth_append)
  show "IsBatchFrame w" using g by (simp add: IsBatchFrame_def of_be_be_bytes)
  show "drop BatchEnvelopeHeaderLen w = body" unfolding w using assms by (simp add: frame_sizes)
  show "UnmarshalBatchEnvelope w = Inr \<lparr>batchOriginNodeID = nodeID, batchOriginSig = sig, batchOriginSeq = seq,
          batchBatchCount = cnt, batchEnvWire = w\<rparr>"
    using g assms(3) by (simp add: UnmarshalBatchEnvelope_def frame_sizes of_be_be_bytes)
qed

lemma Hybrid_roundtrip:
  fixes seq :: u64 and cnt :: u16 and body :: bytes
  assumes "length nodeID = 16" "length ed = 64" "length pq = 3309" "ed \<noteq> replicate 64 0" "pq \<noteq> replicate 3309 0"
  defines "w \<equiv> MarshalHybridFrame nodeID ed pq seq cnt body"
  shows "\<not> IsBatchFrame w" "\<not> IsDigestFrame w" "IsHybridFrame w"
    and "UnmarshalHybridFrame w = Inr \<lparr>hybridOriginNodeID = nodeID, hybridEdSig = ed, hybridPQSig = pq,
          hybridOriginSeq = seq, hybridBatchCount = cnt, hybridEnvWire = w\<rparr>"
    and "drop HybridEnvelopeHeaderLen w = body"
proof -
  let ?m = "be_bytes 4 WireHybridPQMagic" and ?v = "[WireHybridPQVersion]" and ?s = "be_bytes 8 seq" and ?c = "be_bytes 2 cnt"
  have w: "w = ?m @ ?v @ ?s @ ?c @ nodeID @ ed @ pq @ body" by (simp add: w_def MarshalHybridFrame_def)
  have g: "gslice 0 4 w = ?m" "w ! 4 = WireHybridPQVersion" "gslice 5 13 w = ?s" "gslice 13 15 w = ?c"
    "gslice 15 31 w = nodeID" "gslice 31 95 w = ed" "gslice 95 3404 w = pq" "3404 \<le> length w"
    unfolding w using assms(1-3) by (simp_all add: gslice_def nth_append)
  show "\<not> IsBatchFrame w" "\<not> IsDigestFrame w" "IsHybridFrame w"
    using g by (simp_all add: IsBatchFrame_def IsDigestFrame_def IsHybridFrame_def of_be_be_bytes frame_magics)
  show "drop HybridEnvelopeHeaderLen w = body" unfolding w using assms by (simp add: frame_sizes)
  show "UnmarshalHybridFrame w = Inr \<lparr>hybridOriginNodeID = nodeID, hybridEdSig = ed, hybridPQSig = pq,
          hybridOriginSeq = seq, hybridBatchCount = cnt, hybridEnvWire = w\<rparr>"
    using g assms(4,5) by (simp add: UnmarshalHybridFrame_def frame_sizes of_be_be_bytes Let_def)
qed

lemma Digest_roundtrip:
  fixes tbl :: bytes
  assumes "length sender = 16" "length se < 2 ^ 32"
  defines "w \<equiv> buildDigestFrame sender se tbl"
  shows "\<not> IsBatchFrame w" "IsDigestFrame w" "digestFrameSender w = sender" "digestFrameSplit w = Some (se, tbl)"
proof -
  let ?m = "be_bytes 4 WireDigestMagic" and ?l = "be_bytes 4 (of_nat (length se) :: u32)"
  have w: "w = ?m @ sender @ ?l @ se @ tbl"
    by (simp add: w_def buildDigestFrame_def PutDigestFrame_def put_at_def)
  have g: "gslice 0 4 w = ?m" "gslice 4 20 w = sender" "gslice 20 24 w = ?l" "gslice 24 (24 + length se) w = se"
    "drop (24 + length se) w = tbl" "24 + length se \<le> length w"
    unfolding w using assms(1) by (simp_all add: gslice_def)
  have n: "unat (of_be ?l :: u32) = length se" using assms(2) by (simp add: of_be_be_bytes unat_of_nat)
  show "\<not> IsBatchFrame w" "IsDigestFrame w"
    using g by (simp_all add: IsBatchFrame_def IsDigestFrame_def of_be_be_bytes frame_magics)
  show "digestFrameSender w = sender" using g by (simp add: digestFrameSender_def frame_sizes)
  show "digestFrameSplit w = Some (se, tbl)" using g n by (simp add: digestFrameSplit_def frame_sizes Let_def)
qed

lemma be4_first: "of_be (gslice 0 4 w) = m \<Longrightarrow> 4 \<le> length w \<Longrightarrow> w ! 0 = ucast (drop_bit 24 (m :: u32))"
proof -
  assume a: "of_be (gslice 0 4 w) = m" "4 \<le> length w"
  have "be_bytes 4 m = gslice 0 4 w" using a by (auto intro: be_bytes_of_be)
  then have "be_bytes 4 m ! 0 = w ! 0" by (simp add: gslice_def)
  then show ?thesis by (simp add: be_bytes_def le_bytes_def rev_nth)
qed

lemma Relay_not_tagged:
  assumes "UnmarshalRelayEnvelope w = Inr e"
  shows "\<not> IsBatchFrame w" "\<not> IsDigestFrame w" "\<not> IsHybridFrame w"
proof -
  have v: "of_le (gslice 0 2 w) = envelopeVersion \<or> of_le (gslice 0 2 w) = envelopeVersionV2" "2 \<le> length w"
    using assms by (auto simp: UnmarshalRelayEnvelope_def Let_def headerLenForVersion_def split: if_splits option.splits)
  have "le_bytes 2 (of_le (gslice 0 2 w) :: u16) = gslice 0 2 w" using v(2) by (intro le_bytes_of_le) simp_all
  then have "le_bytes 2 (of_le (gslice 0 2 w) :: u16) ! 0 = w ! 0" by (simp add: gslice_def)
  then have "w ! 0 = 3 \<or> w ! 0 = 2" using v(1) by (auto simp: le_bytes_def envelopeVersion_def envelopeVersionV2_def)
  then show "\<not> IsBatchFrame w" "\<not> IsDigestFrame w" "\<not> IsHybridFrame w"
    using be4_first [of w] by (auto simp: IsBatchFrame_def IsDigestFrame_def IsHybridFrame_def frame_magics drop_bit_eq_div)
qed

text \<open>
  C31. Every frame reaches the handler that it was built for, with everything that was put into it: a
  signed batch, a digest and a hybrid batch are routed by their tags and decode to the fields that they
  were built from, and no byte string that decodes as a relay envelope carries one of the tags.
\<close>

theorem DispatchFrame_routes:
  fixes seq :: u64 and cnt :: u16 and body tbl :: bytes
  assumes "length nodeID = 16" "length sig = 64" "sig \<noteq> replicate 64 0" "length pq = 3309" "pq \<noteq> replicate 3309 0"
    and "length se < 2 ^ 32" "UnmarshalRelayEnvelope relay = Inr e"
  defines "batch \<equiv> MarshalBatchEnvelope nodeID sig seq cnt body"
    and "hybrid \<equiv> MarshalHybridFrame nodeID sig pq seq cnt body"
    and "digest \<equiv> buildDigestFrame nodeID se tbl"
  shows "DispatchFrame hb hh hf dg ok batch peer s = hb batch s \<and>
    (\<exists>env. UnmarshalBatchEnvelope batch = Inr env \<and> batchOriginNodeID env = nodeID \<and> batchOriginSig env = sig \<and>
       batchOriginSeq env = seq \<and> batchBatchCount env = cnt \<and> BatchWire env = body) \<and>
    DispatchFrame hb hh hf (Some d) ok digest peer s = (ok, d peer digest s) \<and>
    digestFrameSender digest = nodeID \<and> digestFrameSplit digest = Some (se, tbl) \<and>
    DispatchFrame hb hh hf dg ok hybrid peer s = hh hybrid s \<and>
    (\<exists>env. UnmarshalHybridFrame hybrid = Inr env \<and> hybridOriginNodeID env = nodeID \<and> hybridEdSig env = sig \<and>
       hybridPQSig env = pq \<and> hybridOriginSeq env = seq \<and> hybridBatchCount env = cnt \<and> HybridBatchWire env = body) \<and>
    DispatchFrame hb hh hf dg ok relay peer s = hf relay s"
  using Batch_roundtrip [OF assms(1-3), of seq cnt body] Hybrid_roundtrip [OF assms(1,2,4,3,5), of seq cnt body]
    Digest_roundtrip [OF assms(1,6), of tbl] Relay_not_tagged [OF assms(7)]
  unfolding batch_def hybrid_def digest_def DispatchFrame_def BatchWire_def HybridBatchWire_def
  by simp

theorem DispatchFrame_routes_witness:
  "DispatchFrame (\<lambda>_ _. (1, 0)) (\<lambda>_ _. (2, 0)) (\<lambda>_ _. (3, 0)) None (0 :: nat)
     (MarshalHybridFrame (replicate 16 1) (replicate 64 2) (replicate 3309 3) 4 5 [6]) (replicate 16 7) (0 :: nat) = (2, 0) \<and>
   DispatchFrame (\<lambda>_ _. (1, 0)) (\<lambda>_ _. (2, 0)) (\<lambda>_ _. (3, 0)) None (0 :: nat) (Marshal ex_env) (replicate 16 7) (0 :: nat) = (3, 0)"
proof -
  have r: "UnmarshalRelayEnvelope (Marshal ex_env) = Inr (ex_env\<lparr>envVersion := envelopeVersion\<rparr>)"
    using Unmarshal_Marshal [OF ex_env_ok, of "[]"] by simp
  have n: "x \<noteq> y \<Longrightarrow> 0 < k \<Longrightarrow> replicate k x \<noteq> replicate k y" for x y :: byte and k by (auto simp: replicate_eq_replicate)
  show ?thesis
    using DispatchFrame_routes [OF length_replicate [of 16 "1::byte"] length_replicate [of 64 "2::byte"] n length_replicate [of 3309 "3::byte"] n _ r,
        of "[]" "\<lambda>_ _. (1::nat, 0::nat)" "\<lambda>_ _. (2, 0)" "\<lambda>_ _. (3, 0)" None 0 4 5 "[6]"]
    by simp
qed

end
