(* ===== verification/Identity.thy ===== *)
theory Identity
  imports Sov_Prelude
begin

text \<open>
  The identity layer of \<^verbatim>\<open>pkg/identity\<close>: the registry of public keys, the classical and the hybrid
  signature check, and signing. The elliptic curve, the Ed25519 check of circl, ML-DSA and SHAKE256 are
  the fields of a record of library functions; \<^verbatim>\<open>'p\<close> are curve points, \<^verbatim>\<open>'q\<close> ML-DSA public keys and
  \<^verbatim>\<open>'s\<close> ML-DSA private keys.
\<close>

record ('p, 'q, 's) CryptoLib =
  SetBytes :: "bytes \<Rightarrow> 'p option"
  MultByCofactor :: "'p \<Rightarrow> 'p"
  IdentityPoint :: 'p
  ed25519Verify :: "bytes \<Rightarrow> bytes \<Rightarrow> bytes \<Rightarrow> bool"
  mldsaVerify :: "'q \<Rightarrow> bytes \<Rightarrow> bytes \<Rightarrow> string \<Rightarrow> bool"
  mldsaSign :: "'s \<Rightarrow> bytes \<Rightarrow> string \<Rightarrow> bytes option"
  shake256 :: "bytes \<Rightarrow> nat \<Rightarrow> bytes"

section \<open>Verification\<close>

definition RejectSmallOrderKey :: "('p, 'q, 's) CryptoLib \<Rightarrow> bytes \<Rightarrow> bool" where
  "RejectSmallOrderKey lib pub =
     (if length pub \<noteq> 32 then False
      else case SetBytes lib pub of
        None \<Rightarrow> False
      | Some P \<Rightarrow> if MultByCofactor lib P = IdentityPoint lib then False else True)"

definition VerifyCRDTFrame :: "('p, 'q, 's) CryptoLib \<Rightarrow> bytes \<Rightarrow> bytes \<Rightarrow> bytes \<Rightarrow> bool" where
  "VerifyCRDTFrame lib pub msg sig =
     (if \<not> RejectSmallOrderKey lib pub then False else ed25519Verify lib pub msg sig)"

definition hybridFrameSize :: nat where "hybridFrameSize = 120"

definition VerifyCRDTFrame_PostQuantum :: "('p, 'q, 's) CryptoLib \<Rightarrow> 'q option \<Rightarrow> bytes \<Rightarrow> bytes \<Rightarrow> string \<Rightarrow> bool" where
  "VerifyCRDTFrame_PostQuantum lib pk frame sig ctx =
     (case pk of None \<Rightarrow> False | Some k \<Rightarrow> mldsaVerify lib k frame sig ctx)"

definition VerifyCRDTFrame_Hybrid ::
  "('p, 'q, 's) CryptoLib \<Rightarrow> bytes \<Rightarrow> 'q option \<Rightarrow> bytes \<Rightarrow> bytes \<Rightarrow> bytes \<Rightarrow> string \<Rightarrow> bool" where
  "VerifyCRDTFrame_Hybrid lib edPub pqPub msg edSig pqSig ctx =
     (if \<not> VerifyCRDTFrame lib edPub msg edSig then False
      else if pqPub = None then False
      else if length msg \<noteq> hybridFrameSize then False
      else VerifyCRDTFrame_PostQuantum lib pqPub msg pqSig ctx)"

definition HashBatchWireToFrame120 :: "('p, 'q, 's) CryptoLib \<Rightarrow> bytes \<Rightarrow> bytes" where
  "HashBatchWireToFrame120 lib batchWire = shake256 lib batchWire hybridFrameSize"

definition VerifyBatchHybrid ::
  "('p, 'q, 's) CryptoLib \<Rightarrow> bytes \<Rightarrow> 'q option \<Rightarrow> bytes \<Rightarrow> bytes \<Rightarrow> bytes \<Rightarrow> string \<Rightarrow> bool" where
  "VerifyBatchHybrid lib edPub pqPub batchWire edSig pqSig ctx =
     (if length batchWire = 0 then False
      else VerifyCRDTFrame_Hybrid lib edPub pqPub (HashBatchWireToFrame120 lib batchWire) edSig pqSig ctx)"

section \<open>Signing\<close>

datatype HybridSignError =
    ErrHybridSignBadSeed | ErrHybridSignNilPQSk | ErrHybridSignNilBatchWire | HybridSignEd25519 | HybridSignMLDSA

definition SignCRDTFrame_PostQuantum :: "('p, 'q, 's) CryptoLib \<Rightarrow> 's option \<Rightarrow> bytes \<Rightarrow> string \<Rightarrow> bytes option" where
  "SignCRDTFrame_PostQuantum lib sk frame ctx =
     (case sk of None \<Rightarrow> None | Some k \<Rightarrow>
        (case mldsaSign lib k frame ctx of None \<Rightarrow> None
         | Some sig \<Rightarrow> if length sig \<noteq> 3309 then None else Some sig))"

text \<open>
  The randomized signer on the scalar and point arithmetic of the edwards25519 library. \<^verbatim>\<open>rnd\<close> is what
  \<^verbatim>\<open>rand.Read\<close> delivered, \<^verbatim>\<open>None\<close> on its error.
\<close>

record 'p CurveLib =
  publicOfSeed :: "bytes \<Rightarrow> bytes"
  pointSetBytes :: "bytes \<Rightarrow> 'p option"
  pointBytes :: "'p \<Rightarrow> bytes"
  ScalarBaseMult :: "int \<Rightarrow> 'p"
  SetUniformBytes :: "bytes \<Rightarrow> int option"
  SetBytesWithClamping :: "bytes \<Rightarrow> int option"
  scalarBytes :: "int \<Rightarrow> bytes"
  MultiplyAdd :: "int \<Rightarrow> int \<Rightarrow> int \<Rightarrow> int"

definition SignCRDTFrame :: "'p CurveLib \<Rightarrow> (bytes \<Rightarrow> bytes) \<Rightarrow> bytes option \<Rightarrow> bytes \<Rightarrow> bytes \<Rightarrow> bytes option" where
  "SignCRDTFrame cl sha512 rnd seed msg =
     (if length seed \<noteq> 32 then None
      else let pub = publicOfSeed cl seed in
      case pointSetBytes cl pub of None \<Rightarrow> None | Some _ \<Rightarrow>
      (case rnd of None \<Rightarrow> None | Some nonce \<Rightarrow>
      (case SetUniformBytes cl (sha512 (nonce @ msg)) of None \<Rightarrow> None | Some r \<Rightarrow>
      let RBytes = pointBytes cl (ScalarBaseMult cl r) in
      (case SetUniformBytes cl (sha512 (RBytes @ pub @ msg)) of None \<Rightarrow> None | Some k \<Rightarrow>
      (case SetBytesWithClamping cl (take 32 (sha512 seed)) of None \<Rightarrow> None | Some a \<Rightarrow>
      let s = MultiplyAdd cl k a r
      in Some (copyArray 32 RBytes @ copyArray 32 (scalarBytes cl s)))))))"

text \<open>\<^verbatim>\<open>signFrame seed msg\<close> is one run of \<^verbatim>\<open>SignCRDTFrame\<close> with the randomness that it drew.\<close>

definition SignCRDTFrame_Hybrid ::
  "('p, 'q, 's) CryptoLib \<Rightarrow> (bytes \<Rightarrow> bytes \<Rightarrow> bytes option) \<Rightarrow> bytes \<Rightarrow> 's option \<Rightarrow> bytes \<Rightarrow> string \<Rightarrow>
   HybridSignError + bytes \<times> bytes" where
  "SignCRDTFrame_Hybrid lib signFrame edSeed pqSk batchWire ctx =
     (if length edSeed \<noteq> 32 then Inl ErrHybridSignBadSeed
      else if pqSk = None then Inl ErrHybridSignNilPQSk
      else if length batchWire = 0 then Inl ErrHybridSignNilBatchWire
      else let pad = HashBatchWireToFrame120 lib batchWire in
        (case signFrame edSeed pad of
           None \<Rightarrow> Inl HybridSignEd25519
         | Some edSig \<Rightarrow>
             (case SignCRDTFrame_PostQuantum lib pqSk pad ctx of
                None \<Rightarrow> Inl HybridSignMLDSA
              | Some pqSig \<Rightarrow> Inr (edSig, pqSig))))"

section \<open>The directory\<close>

record 'q Directory =
  dirKeys :: "bytes \<rightharpoonup> bytes"
  dirPQ :: "bytes \<rightharpoonup> 'q"

datatype DirectoryError = ErrDirectoryBadPubKey | ErrDirectoryBadPQPubKey

definition NewDirectory :: "'q Directory" where
  "NewDirectory = \<lparr>dirKeys = Map.empty, dirPQ = Map.empty\<rparr>"

definition Register :: "bytes \<Rightarrow> bytes \<Rightarrow> 'q Directory \<Rightarrow> DirectoryError option \<times> 'q Directory" where
  "Register nodeID pub d =
     (if length pub \<noteq> 32 then (Some ErrDirectoryBadPubKey, d)
      else (None, d\<lparr>dirKeys := (dirKeys d)(nodeID \<mapsto> pub)\<rparr>))"

definition Lookup :: "bytes \<Rightarrow> 'q Directory \<Rightarrow> bytes option" where
  "Lookup nodeID d = dirKeys d nodeID"

definition RegisterPQ :: "bytes \<Rightarrow> 'q option \<Rightarrow> 'q Directory \<Rightarrow> DirectoryError option \<times> 'q Directory" where
  "RegisterPQ nodeID pqPub d =
     (case pqPub of None \<Rightarrow> (Some ErrDirectoryBadPQPubKey, d)
      | Some k \<Rightarrow> (None, d\<lparr>dirPQ := (dirPQ d)(nodeID \<mapsto> k)\<rparr>))"

text \<open>\<^verbatim>\<open>None\<close> is the result with \<^verbatim>\<open>ok\<close> false, which comes from the classical map alone.\<close>

definition LookupBoth :: "bytes \<Rightarrow> 'q Directory \<Rightarrow> (bytes \<times> 'q option) option" where
  "LookupBoth nodeID d = (case dirKeys d nodeID of None \<Rightarrow> None | Some pub \<Rightarrow> Some (pub, dirPQ d nodeID))"

section \<open>Laws\<close>

lemma hybrid_requires_both:
  "VerifyBatchHybrid lib edPub pqPub w edSig pqSig ctx \<Longrightarrow>
   VerifyCRDTFrame lib edPub (HashBatchWireToFrame120 lib w) edSig \<and>
   (\<exists>k. pqPub = Some k \<and> mldsaVerify lib k (HashBatchWireToFrame120 lib w) pqSig ctx)"
  by (cases pqPub)
    (auto simp: VerifyBatchHybrid_def VerifyCRDTFrame_Hybrid_def VerifyCRDTFrame_PostQuantum_def split: if_splits)

text \<open>A hybrid check without a second key accepts nothing: the strict mode of a classical frame.\<close>

lemma hybrid_strict: "\<not> VerifyCRDTFrame_Hybrid lib edPub None msg edSig pqSig ctx"
  by (simp add: VerifyCRDTFrame_Hybrid_def)

lemma Register_Lookup:
  "Register nodeID pub d = (None, d') \<Longrightarrow> Lookup q d' = (if q = nodeID then Some pub else Lookup q d)"
  by (auto simp: Register_def Lookup_def split: if_splits)

text \<open>What a hybrid signer produces, its peers accept, provided that each half signs and checks consistently.\<close>

lemma Hybrid_sign_verify:
  assumes "SignCRDTFrame_Hybrid lib signFrame seed (Some sk) w ctx = Inr (edSig, pqSig)"
    and "\<And>m sig. signFrame seed m = Some sig \<Longrightarrow> VerifyCRDTFrame lib edPub m sig"
    and "\<And>m sig. mldsaSign lib sk m ctx = Some sig \<Longrightarrow> mldsaVerify lib pk m sig ctx"
    and "\<And>m n. length (shake256 lib m n) = n"
  shows "VerifyBatchHybrid lib edPub (Some pk) w edSig pqSig ctx"
  using assms
  by (auto simp: SignCRDTFrame_Hybrid_def SignCRDTFrame_PostQuantum_def VerifyBatchHybrid_def VerifyCRDTFrame_Hybrid_def
      VerifyCRDTFrame_PostQuantum_def HashBatchWireToFrame120_def Let_def split: if_splits option.splits)

section \<open>The randomized signer\<close>

text \<open>
  What the library documents: scalars are integers modulo the group order \<^verbatim>\<open>l\<close>, base point
  multiplication is a homomorphism, encodings have 32 bytes and decode, and the public key of a seed
  is the base point times its clamped scalar. \<^verbatim>\<open>add\<close>, \<^verbatim>\<open>mul\<close> and \<^verbatim>\<open>scalarOf\<close> are the operations of the
  verifier.
\<close>

definition curve_laws ::
  "int \<Rightarrow> ('p \<Rightarrow> 'p \<Rightarrow> 'p) \<Rightarrow> (int \<Rightarrow> 'p \<Rightarrow> 'p) \<Rightarrow> (bytes \<Rightarrow> int) \<Rightarrow> (bytes \<Rightarrow> bytes) \<Rightarrow> 'p CurveLib \<Rightarrow> bool" where
  "curve_laws l add mul scalarOf sha512 cl \<longleftrightarrow> 0 < l \<and>
     (\<forall>k a r. MultiplyAdd cl k a r = (k * a + r) mod l) \<and>
     (\<forall>x. ScalarBaseMult cl (x mod l) = ScalarBaseMult cl x) \<and>
     (\<forall>x y. ScalarBaseMult cl (x + y) = add (ScalarBaseMult cl y) (ScalarBaseMult cl x)) \<and>
     (\<forall>k x. ScalarBaseMult cl (k * x) = mul k (ScalarBaseMult cl x)) \<and>
     (\<forall>x. pointSetBytes cl (pointBytes cl (ScalarBaseMult cl x)) = Some (ScalarBaseMult cl x)) \<and>
     (\<forall>x. length (pointBytes cl (ScalarBaseMult cl x)) = 32) \<and>
     (\<forall>x. length (scalarBytes cl (x mod l)) = 32 \<and> scalarOf (scalarBytes cl (x mod l)) = x mod l) \<and>
     (\<forall>seed a. SetBytesWithClamping cl (take 32 (sha512 seed)) = Some a \<longrightarrow>
        publicOfSeed cl seed = pointBytes cl (ScalarBaseMult cl a))"

text \<open>The equation of RFC 8032 that the Ed25519 check decides.\<close>

definition ed25519_equation ::
  "('p \<Rightarrow> 'p \<Rightarrow> 'p) \<Rightarrow> (int \<Rightarrow> 'p \<Rightarrow> 'p) \<Rightarrow> (bytes \<Rightarrow> int) \<Rightarrow> (bytes \<Rightarrow> bytes) \<Rightarrow> 'p CurveLib \<Rightarrow> bytes \<Rightarrow> bytes \<Rightarrow> bytes \<Rightarrow> bool" where
  "ed25519_equation add mul scalarOf sha512 cl pub msg sig \<longleftrightarrow> length sig = 64 \<and>
     (\<exists>A R k. pointSetBytes cl pub = Some A \<and> pointSetBytes cl (take 32 sig) = Some R \<and>
        SetUniformBytes cl (sha512 (take 32 sig @ pub @ msg)) = Some k \<and>
        ScalarBaseMult cl (scalarOf (drop 32 sig)) = add R (mul k A))"

lemma SignCRDTFrame_shape:
  assumes "curve_laws l add mul scalarOf sha512 cl" "SignCRDTFrame cl sha512 (Some nonce) seed msg = Some sig"
  obtains r k a where "SetUniformBytes cl (sha512 (nonce @ msg)) = Some r"
    "SetBytesWithClamping cl (take 32 (sha512 seed)) = Some a"
    "publicOfSeed cl seed = pointBytes cl (ScalarBaseMult cl a)"
    "take 32 sig = pointBytes cl (ScalarBaseMult cl r)" "scalarOf (drop 32 sig) = (k * a + r) mod l" "length sig = 64"
    "SetUniformBytes cl (sha512 (take 32 sig @ publicOfSeed cl seed @ msg)) = Some k"
proof -
  obtain r k a where st: "SetUniformBytes cl (sha512 (nonce @ msg)) = Some r"
    "SetBytesWithClamping cl (take 32 (sha512 seed)) = Some a"
    "SetUniformBytes cl (sha512 (pointBytes cl (ScalarBaseMult cl r) @ publicOfSeed cl seed @ msg)) = Some k"
    "sig = copyArray 32 (pointBytes cl (ScalarBaseMult cl r)) @ copyArray 32 (scalarBytes cl (MultiplyAdd cl k a r))"
    using assms(2) by (auto simp: SignCRDTFrame_def Let_def split: if_splits option.splits)
  then show ?thesis using assms(1) that [of r a k] by (simp add: curve_laws_def)
qed

text \<open>
  C38. The signer and the verifier agree, and the nonce is all that protects the key. Every signature that
  the signer produces satisfies the verification equation under the public key of its seed. Whoever
  knows the random bytes of one signature can compute the secret scalar from the message, the signature
  and the public key: the nonce is a hash of these bytes and the message only, without a secret part.
\<close>

theorem SignCRDTFrame_verifies_and_leaks:
  assumes "curve_laws l add mul scalarOf sha512 cl" "SignCRDTFrame cl sha512 (Some nonce) seed msg = Some sig"
  shows "ed25519_equation add mul scalarOf sha512 cl (publicOfSeed cl seed) msg sig \<and>
    (\<exists>r k a. SetUniformBytes cl (sha512 (nonce @ msg)) = Some r \<and>
       SetUniformBytes cl (sha512 (take 32 sig @ publicOfSeed cl seed @ msg)) = Some k \<and>
       SetBytesWithClamping cl (take 32 (sha512 seed)) = Some a \<and>
       (\<forall>k'. (k' * k) mod l = 1 mod l \<longrightarrow> a mod l = (k' * (scalarOf (drop 32 sig) - r)) mod l))"
proof -
  obtain r k a where st: "SetUniformBytes cl (sha512 (nonce @ msg)) = Some r"
    "SetBytesWithClamping cl (take 32 (sha512 seed)) = Some a"
    "publicOfSeed cl seed = pointBytes cl (ScalarBaseMult cl a)"
    "take 32 sig = pointBytes cl (ScalarBaseMult cl r)" "scalarOf (drop 32 sig) = (k * a + r) mod l" "length sig = 64"
    "SetUniformBytes cl (sha512 (take 32 sig @ publicOfSeed cl seed @ msg)) = Some k"
    using SignCRDTFrame_shape [OF assms] by blast
  have "ScalarBaseMult cl ((k * a + r) mod l) = add (ScalarBaseMult cl r) (mul k (ScalarBaseMult cl a))"
    "pointSetBytes cl (publicOfSeed cl seed) = Some (ScalarBaseMult cl a)" "pointSetBytes cl (take 32 sig) = Some (ScalarBaseMult cl r)"
    using assms(1) st(3,4) by (simp_all add: curve_laws_def)
  then have "ed25519_equation add mul scalarOf sha512 cl (publicOfSeed cl seed) msg sig"
    using st(5-7) unfolding ed25519_equation_def by auto
  moreover have "a mod l = (k' * (scalarOf (drop 32 sig) - r)) mod l" if "(k' * k) mod l = 1 mod l" for k'
  proof -
    have "(k' * ((k * a + r) mod l - r)) mod l = (k' * ((k * a + r) - r)) mod l"
      by (metis mod_diff_left_eq mod_mult_right_eq)
    also have "\<dots> = ((k' * k) * a) mod l" by (simp add: mult.assoc)
    also have "\<dots> = (((k' * k) mod l) * a) mod l" by (simp add: mod_mult_left_eq)
    also have "\<dots> = a mod l" by (simp add: that mod_mult_left_eq)
    finally show ?thesis by (simp add: st(5))
  qed
  ultimately show ?thesis using st by blast
qed

text \<open>An instance: the integers modulo 11.\<close>

definition ex_code :: "int \<Rightarrow> bytes" where "ex_code x = le_bytes 32 (word_of_int x :: 256 word)"
definition ex_decode :: "bytes \<Rightarrow> int" where "ex_decode b = uint (of_le b :: 256 word)"
definition ex_hash512 :: "bytes \<Rightarrow> bytes" where "ex_hash512 m = replicate 64 (of_nat (length m))"

definition ex_curve :: "int CurveLib" where
  "ex_curve = \<lparr>publicOfSeed = (\<lambda>seed. ex_code (uint (hd (ex_hash512 seed)) mod 11)),
     pointSetBytes = (\<lambda>b. Some (ex_decode b)), pointBytes = ex_code, ScalarBaseMult = (\<lambda>x. x mod 11),
     SetUniformBytes = (\<lambda>b. Some (uint (hd b) mod 11)), SetBytesWithClamping = (\<lambda>b. Some (uint (hd b))),
     scalarBytes = ex_code, MultiplyAdd = (\<lambda>k a r. (k * a + r) mod 11)\<rparr>"

lemma ex_decode_code: "0 \<le> x \<Longrightarrow> x < 11 \<Longrightarrow> ex_decode (ex_code x) = x"
  by (simp add: ex_decode_def ex_code_def of_le_le_bytes uint_word_of_int mod_pos_pos_trivial)

lemma ex_curve_laws: "curve_laws 11 (\<lambda>P Q. (P + Q) mod 11) (\<lambda>k P. (k * P) mod 11) ex_decode ex_hash512 ex_curve"
proof -
  have d: "ex_decode (ex_code (x mod 11)) = x mod 11" "length (ex_code x) = 32" for x
    by (simp_all add: ex_decode_code) (simp add: ex_code_def)
  have h: "hd (take 32 (ex_hash512 m)) = hd (ex_hash512 m)" for m
    by (simp add: ex_hash512_def)
  show ?thesis
    by (simp add: curve_laws_def ex_curve_def d h mod_add_left_eq mod_add_right_eq mod_mult_right_eq add.commute)
qed

theorem SignCRDTFrame_verifies_and_leaks_witness:
  "\<exists>sig. SignCRDTFrame ex_curve ex_hash512 (Some (replicate 64 3)) (replicate 32 1) [5] = Some sig \<and>
     ed25519_equation (\<lambda>P Q. (P + Q) mod 11) (\<lambda>k P. (k * P) mod 11) ex_decode ex_hash512 ex_curve
       (publicOfSeed ex_curve (replicate 32 1)) [5] sig"
proof -
  obtain sig where s: "SignCRDTFrame ex_curve ex_hash512 (Some (replicate 64 3)) (replicate 32 1) [5] = Some sig"
    by (simp add: SignCRDTFrame_def ex_curve_def Let_def)
  then show ?thesis using SignCRDTFrame_verifies_and_leaks [OF ex_curve_laws s] by blast
qed

end
