(* ===== verification/Receiver.thy ===== *)
theory Receiver
  imports Apply Admission Frames Identity
begin

text \<open>
  The receive path of \<^verbatim>\<open>pkg/receive/receiver.go\<close>: the three frame handlers that run the gates (rate,
  clock, depth, signatures) in order and hand a frame that passed to the engine. The record of
  dependencies holds what the handlers call outside the repository and of the runtime; the hooks that
  the node may install are flags, and a call to one is logged with its arguments. A handler returns
  \<^verbatim>\<open>None\<close> when the engine panics because it is closed.
\<close>

section \<open>State\<close>

record ('p, 'q, 's) ReceiveDeps =
  depLib :: "('p, 'q, 's) CryptoLib"
  depSha256 :: "bytes \<Rightarrow> bytes"
  depHash :: hasher
  depSort :: "(incomingEntry \<Rightarrow> incomingEntry \<Rightarrow> int) \<Rightarrow> incomingEntry list \<Rightarrow> incomingEntry list"
  depF64 :: "real \<Rightarrow> real"
  depDecodeEvent :: "bytes \<Rightarrow> string + CRDTDeltaEvent"
  depDecodeBatch :: "bytes \<Rightarrow> string + CRDTDeltaEvent list"

datatype Verdict = AcceptFrame | DropMalformed | DropRate | DropClock | DropDepth | DropVerify

datatype Reason =
    EnvelopeReason EnvelopeError
  | BatchReason BatchError
  | HybridReason HybridError
  | ApplyReason ApplyError
  | GateFieldsReason string
  | LastHopReason string
  | RateReason
  | BatchRateReason string bytes u64 u64 u64
  | BatchRateSuppressed string bytes u64
  | ClockReason
  | DirectoryMiss bytes
  | SignatureReason
  | DesyncReason string
  | HybridOffReason

record AcceptVerdict =
  verdict :: Verdict
  reason :: "Reason option"

datatype HookCall =
    ClockAdvance u64
  | RetainRelay bytes u64 bytes
  | RetainBatch bytes u64 "u64 list" bytes
  | HybridAccepted

record 'q Receiver =
  bucket :: PeerBucket
  dir :: "'q Directory"
  engine :: DeltaCRDTEngine
  maxHops :: int
  rateDropSeen :: "bytes \<rightharpoonup> u64"
  hybridVerify :: bool
  onClockAdvance :: bool
  onAcceptRelay :: bool
  onAcceptRelayBatch :: bool
  onHybridAccept :: bool
  hookCalls :: "HookCall list"

definition NewReceiver :: "PeerBucket \<Rightarrow> 'q Directory \<Rightarrow> DeltaCRDTEngine \<Rightarrow> int \<Rightarrow> 'q Receiver" where
  "NewReceiver b d e budget =
     \<lparr>bucket = b, dir = d, engine = e, maxHops = MaxHopsForBudget budget, rateDropSeen = Map.empty,
      hybridVerify = False, onClockAdvance = False, onAcceptRelay = False, onAcceptRelayBatch = False,
      onHybridAccept = False, hookCalls = []\<rparr>"

definition SetHybridVerify :: "bool \<Rightarrow> 'q Receiver \<Rightarrow> 'q Receiver" where
  "SetHybridVerify enable r = r\<lparr>hybridVerify := enable\<rparr>"

definition dropped :: "Verdict \<Rightarrow> Reason \<Rightarrow> 'q Receiver \<Rightarrow> (AcceptVerdict \<times> 'q Receiver) option" where
  "dropped v why r = Some (\<lparr>verdict = v, reason = Some why\<rparr>, r)"

definition callHook :: "bool \<Rightarrow> HookCall \<Rightarrow> 'q Receiver \<Rightarrow> 'q Receiver" where
  "callHook installed c r = (if installed then r\<lparr>hookCalls := hookCalls r @ [c]\<rparr> else r)"

definition recordAdvance :: "u64 \<Rightarrow> 'q Receiver \<Rightarrow> 'q Receiver" where
  "recordAdvance preAdvance r =
     (let post = lamportCounter (engine r) in callHook (onClockAdvance r \<and> post > preAdvance) (ClockAdvance post) r)"

section \<open>Gate fields\<close>

definition readGateFieldsFromCapnp :: "(bytes \<Rightarrow> string + CRDTDeltaEvent) \<Rightarrow> bytes \<Rightarrow> string + u64 \<times> bytes" where
  "readGateFieldsFromCapnp decodeEvent inner =
     (case decodeEvent inner of Inl t \<Rightarrow> Inl t | Inr ev \<Rightarrow>
        (case evOriginNodeID ev of Inl t \<Rightarrow> Inl t | Inr originBytes \<Rightarrow>
           if length originBytes \<noteq> 16 then Inl ''originNodeID length'' else Inr (evDotCounter ev, originBytes)))"

definition readGateFields :: "(bytes \<Rightarrow> string + CRDTDeltaEvent) \<Rightarrow> RelayEnvelope \<Rightarrow> string + u64 \<times> bytes" where
  "readGateFields decodeEvent env =
     (if envVersion env = envelopeVersion then Inr (envDotCounter env, envOriginNodeID env)
      else readGateFieldsFromCapnp decodeEvent (innerWire env))"

definition crossCheckGateFields :: "(bytes \<Rightarrow> string + CRDTDeltaEvent) \<Rightarrow> RelayEnvelope \<Rightarrow> bytes \<Rightarrow> string option" where
  "crossCheckGateFields decodeEvent env verifiedInner =
     (case readGateFieldsFromCapnp decodeEvent verifiedInner of
        Inl t \<Rightarrow> Some t
      | Inr (innerDotCounter, innerOriginNodeID) \<Rightarrow>
          if envDotCounter env \<noteq> innerDotCounter then Some ''desync dotCounter''
          else if envOriginNodeID env \<noteq> innerOriginNodeID then Some ''desync originNodeID''
          else None)"

definition readLastHop :: "bytes \<Rightarrow> nat \<Rightarrow> string + bytes \<times> i64" where
  "readLastHop frame hops =
     (if hops \<le> 0 then Inl ''no hops''
      else if length frame < 8 then Inl ''short header''
      else let ver = of_le (gslice 0 2 frame);
               innerLen = unat (of_le (gslice 4 8 frame) :: u32)
        in case headerLenForVersion ver of
             None \<Rightarrow> Inl ''unsupported version''
           | Some hdrLen \<Rightarrow>
               let lastBase = hdrLen + innerLen + (hops - 1) * HopSize
               in if lastBase + HopSize > length frame then Inl ''short frame''
                  else Inr (gslice lastBase (lastBase + PubSize) frame,
                            of_le (gslice (lastBase + PubSize + SigSize) (lastBase + HopSize) frame)))"

section \<open>Relay frames\<close>

text \<open>
  \<^verbatim>\<open>now1\<close> and \<^verbatim>\<open>now2\<close> are the two readings of the wall clock: by the handler, for a frame without hops,
  and by the clock gate.
\<close>

definition HandleFrame ::
  "('p, 'q, 's) ReceiveDeps \<Rightarrow> i64 \<Rightarrow> i64 \<Rightarrow> bytes \<Rightarrow> 'q Receiver \<Rightarrow> (AcceptVerdict \<times> 'q Receiver) option" where
  "HandleFrame deps now1 now2 frameBytes r =
     (let preAdvance = LamportCounter (engine r) in
      case UnmarshalRelayEnvelope frameBytes of
        Inl err \<Rightarrow> dropped DropMalformed (EnvelopeReason err) r
      | Inr env \<Rightarrow>
      let hops = HopCount env in
      (case (if hops > 0 then readLastHop frameBytes hops else Inr (replicate 32 0, 0)) of
        Inl t \<Rightarrow> dropped DropMalformed (LastHopReason t) r
      | Inr (lastHopPub, lastHopWall) \<Rightarrow>
      (case readGateFields (depDecodeEvent deps) env of
        Inl t \<Rightarrow> dropped DropMalformed (GateFieldsReason t) r
      | Inr (dotCounter, originNodeID) \<Rightarrow>
      (case (if hops > 0 then Accept (depF64 deps) lastHopPub dotCounter (bucket r) else (Keep, bucket r)) of
        (decision, b) \<Rightarrow>
      let r1 = r\<lparr>bucket := b\<rparr> in
      if decision = Drop then dropped DropRate RateReason r1
      else
      let physUSec = (if hops > 0 then lastHopWall else now1) in
      (case Admit (depF64 deps) now2 physUSec dotCounter (engine r1) of
        (admitted, e) \<Rightarrow>
      let r2 = r1\<lparr>engine := e\<rparr> in
      if \<not> admitted then dropped DropClock ClockReason r2
      else
      (case Open (VerifyCRDTFrame (depLib deps)) (maxHops r2) env of
        Inl err \<Rightarrow> dropped (if err = ErrHopBoundExceeded then DropDepth else DropVerify) (EnvelopeReason err) r2
      | Inr (verifiedInner, _) \<Rightarrow>
      (case Lookup originNodeID (dir r2) of
        None \<Rightarrow> dropped DropVerify (DirectoryMiss originNodeID) r2
      | Some originPub \<Rightarrow>
      if \<not> (if hybridVerify r2
             then VerifyCRDTFrame_Hybrid (depLib deps) originPub None verifiedInner (envOriginSig env) [] ''''
             else VerifyCRDTFrame (depLib deps) originPub verifiedInner (envOriginSig env))
      then dropped DropVerify SignatureReason r2
      else
      (case (if envVersion env = envelopeVersion then crossCheckGateFields (depDecodeEvent deps) env verifiedInner else None) of
        Some t \<Rightarrow> dropped DropVerify (DesyncReason t) r2
      | None \<Rightarrow>
      (case ApplyCRDTDeltaEvent (depSha256 deps) (depHash deps) (depSort deps) (depF64 deps) (depDecodeEvent deps)
              verifiedInner (engine r2) of
        None \<Rightarrow> None
      | Some (Some err, e') \<Rightarrow> dropped DropVerify (ApplyReason err) (r2\<lparr>engine := e'\<rparr>)
      | Some (None, e') \<Rightarrow>
          let r3 = recordAdvance preAdvance (r2\<lparr>engine := e'\<rparr>);
              r4 = callHook (onAcceptRelay r3) (RetainRelay originNodeID dotCounter frameBytes) r3
          in Some (\<lparr>verdict = AcceptFrame, reason = None\<rparr>, r4))))))))))"

section \<open>Batches\<close>

definition rateDropLogCap :: u64 where "rateDropLogCap = 8"
definition rateDropLogEvery :: u64 where "rateDropLogEvery = 1000"

definition rateDropReason :: "string \<Rightarrow> bytes \<Rightarrow> u64 \<Rightarrow> bytes \<Rightarrow> 'q Receiver \<Rightarrow> Reason \<times> 'q Receiver" where
  "rateDropReason kind originNodeID offendingSeq rateKey r =
     (let remaining = Budget rateKey (bucket r);
          n = (case rateDropSeen r originNodeID of None \<Rightarrow> 0 | Some n \<Rightarrow> n) + 1;
          r' = r\<lparr>rateDropSeen := (rateDropSeen r)(originNodeID \<mapsto> n)\<rparr>
      in if n \<le> rateDropLogCap \<or> n mod rateDropLogEvery = 0
         then (BatchRateReason kind (take 4 originNodeID) offendingSeq remaining n, r')
         else (BatchRateSuppressed kind (take 4 originNodeID) n, r'))"

definition rateKeyOf :: "bytes \<Rightarrow> bytes" where
  "rateKeyOf originNodeID = originNodeID @ replicate 16 0"

text \<open>From the apply on, the two batch handlers agree but for the counter of accepted hybrid frames.\<close>

definition retainBatch :: "('p, 'q, 's) ReceiveDeps \<Rightarrow> bytes \<Rightarrow> u64 \<Rightarrow> bytes \<Rightarrow> 'q Receiver \<Rightarrow> 'q Receiver" where
  "retainBatch deps batchWire originSeq frameBytes r =
     (if \<not> onAcceptRelayBatch r then r
      else case InspectBatchDots (depSha256 deps) (depDecodeBatch deps) batchWire of
        Inl _ \<Rightarrow> r
      | Inr (batchOrigin, dotCounters) \<Rightarrow> callHook True (RetainBatch batchOrigin originSeq dotCounters frameBytes) r)"

definition HandleBatchFrame ::
  "('p, 'q, 's) ReceiveDeps \<Rightarrow> bytes \<Rightarrow> 'q Receiver \<Rightarrow> (AcceptVerdict \<times> 'q Receiver) option" where
  "HandleBatchFrame deps frameBytes r =
     (let preAdvance = LamportCounter (engine r) in
      case UnmarshalBatchEnvelope frameBytes of
        Inl err \<Rightarrow> dropped (if err = ErrBatchUnsigned then DropVerify else DropMalformed) (BatchReason err) r
      | Inr env \<Rightarrow>
      let originNodeID = batchOriginNodeID env; rateKey = rateKeyOf originNodeID in
      (case Accept (depF64 deps) rateKey (batchOriginSeq env) (bucket r) of
        (decision, b) \<Rightarrow>
      let r1 = r\<lparr>bucket := b\<rparr> in
      if decision = Drop
      then (case rateDropReason ''batch'' originNodeID (batchOriginSeq env) rateKey r1 of (why, r2) \<Rightarrow> dropped DropRate why r2)
      else
      (case Lookup originNodeID (dir r1) of
        None \<Rightarrow> dropped DropVerify (DirectoryMiss originNodeID) r1
      | Some originPub \<Rightarrow>
      let batchWire = BatchWire env in
      if \<not> (if hybridVerify r1
             then VerifyCRDTFrame_Hybrid (depLib deps) originPub None batchWire (batchOriginSig env) [] ''''
             else VerifyCRDTFrame (depLib deps) originPub batchWire (batchOriginSig env))
      then dropped DropVerify SignatureReason r1
      else
      (case ApplyCRDTDeltaBatch (depSha256 deps) (depHash deps) (depSort deps) (depF64 deps) (depDecodeBatch deps)
              batchWire (engine r1) of
        None \<Rightarrow> None
      | Some (Some err, e') \<Rightarrow> dropped DropVerify (ApplyReason err) (r1\<lparr>engine := e'\<rparr>)
      | Some (None, e') \<Rightarrow>
          let r2 = retainBatch deps batchWire (batchOriginSeq env) frameBytes (r1\<lparr>engine := e'\<rparr>)
          in Some (\<lparr>verdict = AcceptFrame, reason = None\<rparr>, recordAdvance preAdvance r2)))))"

definition HandleHybridFrame ::
  "('p, 'q, 's) ReceiveDeps \<Rightarrow> bytes \<Rightarrow> 'q Receiver \<Rightarrow> (AcceptVerdict \<times> 'q Receiver) option" where
  "HandleHybridFrame deps frameBytes r =
     (if \<not> hybridVerify r then dropped DropVerify HybridOffReason r
      else
      let preAdvance = LamportCounter (engine r) in
      case UnmarshalHybridFrame frameBytes of
        Inl err \<Rightarrow> dropped (if err = ErrHybridUnsigned then DropVerify else DropMalformed) (HybridReason err) r
      | Inr env \<Rightarrow>
      let originNodeID = hybridOriginNodeID env; rateKey = rateKeyOf originNodeID in
      (case Accept (depF64 deps) rateKey (hybridOriginSeq env) (bucket r) of
        (decision, b) \<Rightarrow>
      let r1 = r\<lparr>bucket := b\<rparr> in
      if decision = Drop
      then (case rateDropReason ''hybrid batch'' originNodeID (hybridOriginSeq env) rateKey r1 of (why, r2) \<Rightarrow> dropped DropRate why r2)
      else
      (case LookupBoth originNodeID (dir r1) of
        None \<Rightarrow> dropped DropVerify (DirectoryMiss originNodeID) r1
      | Some (originPub, pqPub) \<Rightarrow>
      let batchWire = HybridBatchWire env in
      if \<not> VerifyBatchHybrid (depLib deps) originPub pqPub batchWire (hybridEdSig env) (hybridPQSig env) ''''
      then dropped DropVerify SignatureReason r1
      else
      (case ApplyCRDTDeltaBatch (depSha256 deps) (depHash deps) (depSort deps) (depF64 deps) (depDecodeBatch deps)
              batchWire (engine r1) of
        None \<Rightarrow> None
      | Some (Some err, e') \<Rightarrow> dropped DropVerify (ApplyReason err) (r1\<lparr>engine := e'\<rparr>)
      | Some (None, e') \<Rightarrow>
          let r2 = retainBatch deps batchWire (hybridOriginSeq env) frameBytes (r1\<lparr>engine := e'\<rparr>);
              r3 = callHook (onHybridAccept r2) HybridAccepted r2
          in Some (\<lparr>verdict = AcceptFrame, reason = None\<rparr>, recordAdvance preAdvance r3)))))"

section \<open>What the handlers do\<close>

lemma ApplyEvent_error: "ApplyCRDTDeltaEvent sh mh so f dec w e = Some (Some err, e') \<Longrightarrow> e' = e"
  by (auto simp: ApplyCRDTDeltaEvent_def Let_def split: sum.splits if_splits)

lemma ApplyBatch_error: "ApplyCRDTDeltaBatch sh mh so f dec w e = Some (Some err, e') \<Longrightarrow> e' = e"
  by (auto simp: ApplyCRDTDeltaBatch_def Let_def split: sum.splits)

lemma dropped_Some [simp]: "dropped v why r = Some x \<longleftrightarrow> x = (\<lparr>verdict = v, reason = Some why\<rparr>, r)"
  by (auto simp: dropped_def)

lemma callHook_frame [simp]: "engine (callHook b c r) = engine r" "bucket (callHook b c r) = bucket r" "dir (callHook b c r) = dir r"
  by (simp_all add: callHook_def)

lemma recordAdvance_frame [simp]: "engine (recordAdvance p r) = engine r"
  by (simp add: recordAdvance_def Let_def)

lemma retainBatch_frame [simp]: "engine (retainBatch deps w s f r) = engine r"
  by (auto simp: retainBatch_def split: sum.splits)

lemma rateDropReason_frame: "rateDropReason k i s rk r = (why, r') \<Longrightarrow> engine r' = engine r"
  by (auto simp: rateDropReason_def Let_def split: if_splits)

definition admittedEngine :: "('p, 'q, 's) ReceiveDeps \<Rightarrow> RelayEnvelope \<Rightarrow> 'q Receiver \<Rightarrow> DeltaCRDTEngine" where
  "admittedEngine deps env r =
     (case readGateFields (depDecodeEvent deps) env of
        Inl _ \<Rightarrow> engine r
      | Inr (c, _) \<Rightarrow> AdvanceLamportTo (depF64 deps) c (engine r))"

definition passedGates :: "('p, 'q, 's) ReceiveDeps \<Rightarrow> RelayEnvelope \<Rightarrow> bytes \<Rightarrow> 'q Receiver \<Rightarrow> bool" where
  "passedGates deps env originPub r \<longleftrightarrow>
     int (HopCount env) \<le> maxHops r \<and> hops_valid (VerifyCRDTFrame (depLib deps)) (innerWire env) (envHops env) \<and>
     \<not> hybridVerify r \<and> VerifyCRDTFrame (depLib deps) originPub (innerWire env) (envOriginSig env) \<and>
     (\<exists>c org. readGateFields (depDecodeEvent deps) env = Inr (c, org) \<and> Lookup org (dir r) = Some originPub) \<and>
     (envVersion env = envelopeVersion \<longrightarrow> crossCheckGateFields (depDecodeEvent deps) env (innerWire env) = None)"

lemma HandleFrame_cases:
  assumes "HandleFrame deps now1 now2 frame r = Some (v, r')"
  obtains
    (malformed) "verdict v \<noteq> AcceptFrame" "engine r' = engine r"
  | (rejected) env where "UnmarshalRelayEnvelope frame = Inr env" "verdict v \<noteq> AcceptFrame" "engine r' = admittedEngine deps env r"
  | (accepted) env originPub where "UnmarshalRelayEnvelope frame = Inr env" "verdict v = AcceptFrame" "passedGates deps env originPub r"
      "ApplyCRDTDeltaEvent (depSha256 deps) (depHash deps) (depSort deps) (depF64 deps) (depDecodeEvent deps)
         (innerWire env) (admittedEngine deps env r) = Some (None, engine r')"
proof (cases "UnmarshalRelayEnvelope frame")
  case (Inl err)
  then show ?thesis using assms malformed by (auto simp: HandleFrame_def Let_def)
next
  case env: (Inr env)
  show ?thesis
  proof (cases "readGateFields (depDecodeEvent deps) env")
    case (Inl t)
    then show ?thesis using assms env malformed by (auto simp: HandleFrame_def Let_def split: sum.splits if_splits)
  next
    case g: (Inr a)
    obtain c org where a: "a = (c, org)" by fastforce
    have adv: "snd (Admit f now2 p c (engine r)) = (if fst (Admit f now2 p c (engine r)) then AdvanceLamportTo f c (engine r) else engine r)" for f p
      by (simp add: Admit_def)
    show ?thesis
    proof (cases "verdict v = AcceptFrame")
      case True
      then obtain e1 b lp lw inner n pub e2 where st:
        "Admit (depF64 deps) now2 (if HopCount env > 0 then lw else now1) c (engine r) = (True, e1)"
        "Open (VerifyCRDTFrame (depLib deps)) (maxHops r) env = Inr (inner, n)"
        "Lookup org (dir r) = Some pub"
        "if hybridVerify r then VerifyCRDTFrame_Hybrid (depLib deps) pub None inner (envOriginSig env) [] ''''
         else VerifyCRDTFrame (depLib deps) pub inner (envOriginSig env)"
        "envVersion env = envelopeVersion \<longrightarrow> crossCheckGateFields (depDecodeEvent deps) env inner = None"
        "ApplyCRDTDeltaEvent (depSha256 deps) (depHash deps) (depSort deps) (depF64 deps) (depDecodeEvent deps) inner e1 = Some (None, e2)"
        "engine r' = e2"
        using assms env g a
        by (auto simp: HandleFrame_def Let_def split: sum.splits prod.splits if_splits option.splits)
      have "e1 = admittedEngine deps env r" using st(1) adv [of "depF64 deps"] by (auto simp: admittedEngine_def g a Admit_def split: if_splits)
      moreover have "passedGates deps env pub r"
        using st hybrid_strict [of "depLib deps" pub inner] g a unfolding Open_Inr
        by (auto simp: passedGates_def HopCount_def split: if_splits)
      ultimately show ?thesis using accepted [OF env True] st unfolding Open_Inr by auto
    next
      case False
      have "engine r' = engine r \<or> engine r' = admittedEngine deps env r"
        using assms env g a False
        by (auto simp: HandleFrame_def Let_def admittedEngine_def Admit_def dest!: ApplyEvent_error
            split: sum.splits prod.splits if_splits option.splits)
      then show ?thesis using malformed rejected env False by blast
    qed
  qed
qed

section \<open>Relay frames\<close>

lemma Advance_keeps:
  "eng_ok mh (AdvanceLamportTo f c e) = eng_ok mh e" "eng_map mh (AdvanceLamportTo f c e) = eng_map mh e"
  "lamport_ok e \<Longrightarrow> lamport_ok (AdvanceLamportTo f c e)"
proof -
  have r: "routeShard mh (AdvanceLamportTo f c e) k = routeShard mh e k" for k by (simp add: routeShard_def)
  show "eng_ok mh (AdvanceLamportTo f c e) = eng_ok mh e" by (simp add: eng_ok_def r)
  show "eng_map mh (AdvanceLamportTo f c e) = eng_map mh e" by (intro ext) (simp add: eng_map_def PointGet_def r)
  show "lamport_ok e \<Longrightarrow> lamport_ok (AdvanceLamportTo f c e)" by (fastforce simp: lamport_ok_def le_max_iff_disj)
qed

lemma admitted_keeps:
  "eng_ok mh (admittedEngine deps env r) = eng_ok mh (engine r)" "eng_map mh (admittedEngine deps env r) = eng_map mh (engine r)"
  "lamport_ok (engine r) \<Longrightarrow> lamport_ok (admittedEngine deps env r)"
  by (auto simp: admittedEngine_def Advance_keeps split: sum.splits)

lemma vouched_mono: "vouched sh b k v ev \<Longrightarrow> vouched sh MaxUint64 k v ev"
  by (auto simp: vouched_def)

text \<open>The key was looked up for the origin that the inner frame names, whichever version the envelope has.\<close>

lemma passedGates_origin:
  assumes "passedGates deps env pub r" "depDecodeEvent deps (innerWire env) = Inr ev" "evOriginNodeID ev = Inr org"
  shows "Lookup org (dir r) = Some pub"
  using assms
  by (auto simp: passedGates_def readGateFields_def crossCheckGateFields_def readGateFieldsFromCapnp_def split: if_splits)

text \<open>
  C8. A relay frame reaches the state only with a valid origin signature. A frame that is accepted
  has at most the permitted number of hops, each with a valid relay signature, and its inner bytes carry a
  valid signature under the key that the directory holds for the origin that these bytes name; the
  engine keeps all it knew and gains entries of that one event only. A frame that is not accepted leaves
  the content of the engine as it was.
\<close>

theorem HandleFrame_sound:
  assumes "eng_ok (depHash deps) (engine r)" "lamport_ok (engine r)" "sort_ok (depSort deps)"
    and "HandleFrame deps now1 now2 frame r = Some (v, r')"
  shows "(verdict v \<noteq> AcceptFrame \<longrightarrow> eng_map (depHash deps) (engine r') = eng_map (depHash deps) (engine r)) \<and>
    (verdict v = AcceptFrame \<longrightarrow> (\<exists>env ev k en pub.
       UnmarshalRelayEnvelope frame = Inr env \<and> int (HopCount env) \<le> maxHops r \<and>
       hops_valid (VerifyCRDTFrame (depLib deps)) (innerWire env) (envHops env) \<and>
       depDecodeEvent deps (innerWire env) = Inr ev \<and> vouched (depSha256 deps) MaxUint64 k en ev \<and>
       Lookup (OriginNodeID en) (dir r) = Some pub \<and>
       VerifyCRDTFrame (depLib deps) pub (innerWire env) (envOriginSig env) \<and>
       eng_map (depHash deps) (engine r') k (Dot en) \<noteq> None \<and>
       (\<forall>k d w. eng_map (depHash deps) (engine r) k d = Some w \<longrightarrow> eng_map (depHash deps) (engine r') k d = Some w) \<and>
       (\<forall>k d w. eng_map (depHash deps) (engine r') k d = Some w \<longrightarrow>
          eng_map (depHash deps) (engine r) k d = Some w \<or> vouched (depSha256 deps) MaxUint64 k w ev)))"
  using assms(4)
proof (cases rule: HandleFrame_cases)
  case (rejected env)
  then show ?thesis by (simp add: admitted_keeps)
next
  case (accepted env pub)
  let ?e = "admittedEngine deps env r"
  have ok: "eng_ok (depHash deps) ?e" "lamport_ok ?e" using assms by (simp_all add: admitted_keeps)
  let ?b = "MaxAcceptableDotCounter (depF64 deps) (takeLamportSnapshot ?e)"
  note sp = ApplyEvent_spec [OF ok assms(3) accepted(4), unfolded admitted_keeps]
  then obtain ev k en where ev: "depDecodeEvent deps (innerWire env) = Inr ev" "vouched (depSha256 deps) ?b k en ev"
    and st: "eng_map (depHash deps) (engine r') k (Dot en) \<noteq> None"
      "\<forall>k d w. eng_map (depHash deps) (engine r) k d = Some w \<longrightarrow> eng_map (depHash deps) (engine r') k d = Some w"
      "\<forall>k d w. eng_map (depHash deps) (engine r') k d = Some w \<longrightarrow>
          eng_map (depHash deps) (engine r) k d = Some w \<or> vouched (depSha256 deps) ?b k w ev"
    by blast
  note ev = ev(1) vouched_mono [OF ev(2)]
  have st3: "\<forall>k d w. eng_map (depHash deps) (engine r') k d = Some w \<longrightarrow>
      eng_map (depHash deps) (engine r) k d = Some w \<or> vouched (depSha256 deps) MaxUint64 k w ev"
    using st(3) vouched_mono by blast
  have "Lookup (OriginNodeID en) (dir r) = Some pub"
    using passedGates_origin [OF accepted(3) ev(1)] ev(2) by (simp add: vouched_def)
  then show ?thesis using accepted(1-3) ev st(1,2) st3 unfolding passedGates_def by blast
qed simp

text \<open>
  C10. A frame without hops moves the Lamport clock before anything about it is verified. Whoever can
  send a well-formed envelope of version 3 without hops, from an origin that the receiver does not even
  know, is refused, but the engine's clock is then at the counter written in the header: the bound on
  clock skew is not consulted. With the largest counter the clock is exhausted, and the next local write
  gets counter 0, as if no write had happened before.
\<close>

theorem HandleFrame_unverified_clock:
  assumes "UnmarshalRelayEnvelope frame = Inr env" "envVersion env = envelopeVersion" "envHops env = []"
    and "sint (now1 - now2) \<le> 2000" "0 \<le> maxHops r" "Lookup (envOriginNodeID env) (dir r) = None"
  shows "\<exists>v r'. HandleFrame deps now1 now2 frame r = Some (v, r') \<and> verdict v = DropVerify \<and>
    lamportCounter (engine r') = max (lamportCounter (engine r)) (envDotCounter env) \<and>
    (envDotCounter env = MaxUint64 \<longrightarrow> fst (NextDot (engine r')) = CausalDot (localNodeID (engine r)) 0)"
proof -
  have o: "Open ver (maxHops r) env = Inr (innerWire env, 0)" for ver
    unfolding Open_Inr using assms(3,5) by (simp add: hops_valid_def)
  have a: "Admit f now2 now1 c e = (True, AdvanceLamportTo f c e)" for f c e
    using assms(4) by (simp add: Admit_def maxDriftEpsilon_def)
  have h: "HandleFrame deps now1 now2 frame r =
      Some (\<lparr>verdict = DropVerify, reason = Some (DirectoryMiss (envOriginNodeID env))\<rparr>,
            r\<lparr>bucket := bucket r, engine := AdvanceLamportTo (depF64 deps) (envDotCounter env) (engine r)\<rparr>)"
    using assms(1-3,6) by (simp add: HandleFrame_def HopCount_def readGateFields_def o a Let_def)
  have "fst (NextDot e) = CausalDot (localNodeID e) (lamportCounter e + 1)" for e
    by (simp add: NextDot_def raiseLimit_def Let_def)
  moreover have "max l MaxUint64 = MaxUint64" for l :: u64 by (simp add: max_def)
  ultimately show ?thesis using h by simp
qed

section \<open>Batches\<close>

text \<open>The effect of a batch: nothing known is lost, and exactly vouched entries of its events are gained.\<close>

definition batch_merged :: "('p, 'q, 's) ReceiveDeps \<Rightarrow> bytes \<Rightarrow> DeltaCRDTEngine \<Rightarrow> DeltaCRDTEngine \<Rightarrow> bool" where
  "batch_merged deps wire e e' \<longleftrightarrow>
     (\<exists>evs. depDecodeBatch deps wire = Inr evs \<and>
       (let bound = MaxAcceptableDotCounter (depF64 deps) (takeLamportSnapshot e); mh = depHash deps in
        (\<forall>k d w. eng_map mh e k d = Some w \<longrightarrow> eng_map mh e' k d = Some w) \<and>
        (\<forall>k d w. eng_map mh e' k d = Some w \<longrightarrow>
           eng_map mh e k d = Some w \<or> (\<exists>ev\<in>set evs. vouched (depSha256 deps) bound k w ev)) \<and>
        (\<forall>ev\<in>set evs. \<exists>k w. vouched (depSha256 deps) bound k w ev \<and> eng_map mh e' k (Dot w) \<noteq> None) \<and>
        lamportCounter e' \<le> bound))"

lemma HandleBatch_cases:
  assumes "HandleBatchFrame deps frame r = Some (v, r')"
  obtains (refused) "verdict v \<noteq> AcceptFrame" "engine r' = engine r"
  | (accepted) env pub where "UnmarshalBatchEnvelope frame = Inr env" "verdict v = AcceptFrame" "\<not> hybridVerify r"
      "Lookup (batchOriginNodeID env) (dir r) = Some pub"
      "VerifyCRDTFrame (depLib deps) pub (BatchWire env) (batchOriginSig env)"
      "ApplyCRDTDeltaBatch (depSha256 deps) (depHash deps) (depSort deps) (depF64 deps) (depDecodeBatch deps)
         (BatchWire env) (engine r) = Some (None, engine r')"
proof (cases "UnmarshalBatchEnvelope frame")
  case (Inl err)
  then show ?thesis using assms refused by (auto simp: HandleBatchFrame_def Let_def)
next
  case (Inr env)
  show ?thesis
  proof (cases "verdict v = AcceptFrame")
    case True
    then obtain pub where st: "Lookup (batchOriginNodeID env) (dir r) = Some pub"
      "if hybridVerify r then VerifyCRDTFrame_Hybrid (depLib deps) pub None (BatchWire env) (batchOriginSig env) [] ''''
       else VerifyCRDTFrame (depLib deps) pub (BatchWire env) (batchOriginSig env)"
      "ApplyCRDTDeltaBatch (depSha256 deps) (depHash deps) (depSort deps) (depF64 deps) (depDecodeBatch deps)
         (BatchWire env) (engine r) = Some (None, engine r')"
      using assms Inr by (auto simp: HandleBatchFrame_def Let_def split: prod.splits if_splits option.splits)
    then have "\<not> hybridVerify r" using hybrid_strict [of "depLib deps" pub] by (auto split: if_splits)
    then show ?thesis using accepted [OF Inr True _ st(1) _ st(3)] st(2) by simp
  next
    case False
    then have "engine r' = engine r"
      using assms Inr
      by (auto simp: HandleBatchFrame_def Let_def dest!: ApplyBatch_error rateDropReason_frame
          split: prod.splits if_splits option.splits)
    then show ?thesis by (rule refused [OF False])
  qed
qed

lemma HandleHybrid_cases:
  assumes "HandleHybridFrame deps frame r = Some (v, r')"
  obtains (refused) "verdict v \<noteq> AcceptFrame" "engine r' = engine r"
  | (accepted) env pub pq where "UnmarshalHybridFrame frame = Inr env" "verdict v = AcceptFrame" "hybridVerify r"
      "LookupBoth (hybridOriginNodeID env) (dir r) = Some (pub, pq)"
      "VerifyBatchHybrid (depLib deps) pub pq (HybridBatchWire env) (hybridEdSig env) (hybridPQSig env) ''''"
      "ApplyCRDTDeltaBatch (depSha256 deps) (depHash deps) (depSort deps) (depF64 deps) (depDecodeBatch deps)
         (HybridBatchWire env) (engine r) = Some (None, engine r')"
proof (cases "UnmarshalHybridFrame frame")
  case (Inl err)
  then show ?thesis using assms refused by (auto simp: HandleHybridFrame_def Let_def split: if_splits)
next
  case (Inr env)
  show ?thesis
  proof (cases "verdict v = AcceptFrame")
    case True
    then obtain pub pq where st: "hybridVerify r" "LookupBoth (hybridOriginNodeID env) (dir r) = Some (pub, pq)"
      "VerifyBatchHybrid (depLib deps) pub pq (HybridBatchWire env) (hybridEdSig env) (hybridPQSig env) ''''"
      "ApplyCRDTDeltaBatch (depSha256 deps) (depHash deps) (depSort deps) (depF64 deps) (depDecodeBatch deps)
         (HybridBatchWire env) (engine r) = Some (None, engine r')"
      using assms Inr by (auto simp: HandleHybridFrame_def Let_def split: prod.splits if_splits option.splits)
    then show ?thesis by (rule accepted [OF Inr True])
  next
    case False
    then have "engine r' = engine r"
      using assms Inr
      by (auto simp: HandleHybridFrame_def Let_def dest!: ApplyBatch_error rateDropReason_frame
          split: prod.splits if_splits option.splits)
    then show ?thesis by (rule refused [OF False])
  qed
qed

lemma ApplyBatch_merged:
  assumes "eng_ok (depHash deps) e" "lamport_ok e" "sort_ok (depSort deps)"
    and "ApplyCRDTDeltaBatch (depSha256 deps) (depHash deps) (depSort deps) (depF64 deps) (depDecodeBatch deps) wire e = Some (None, e')"
  shows "batch_merged deps wire e e'"
  using ApplyBatch_spec [OF assms] unfolding batch_merged_def Let_def by blast

text \<open>
  C9. Batches are applied only under the signature that the frame carries, and as a whole. A batch or hybrid frame that is
  not accepted leaves the engine exactly as it was. An accepted batch frame, which exists only while strict
  hybrid verification is off, decodes to an envelope whose own signature verifies over its own batch bytes under the directory's key of
  the sender it names. An accepted hybrid frame, which exists only while it is on, carries over the digest of its own batch bytes both a
  classical signature under the classical key and a post-quantum signature under the post-quantum key that the directory holds for the sender it
  names. In both cases nothing known is lost, every event of that batch passed the integrity checks and the bound on clock skew
  and is in the state, and every new entry comes from such an event.
\<close>

theorem batch_frames_sound:
  assumes "eng_ok (depHash deps) (engine r)" "lamport_ok (engine r)" "sort_ok (depSort deps)"
  shows "(\<forall>v r'. HandleBatchFrame deps frame r = Some (v, r') \<longrightarrow>
      (if verdict v = AcceptFrame
       then \<exists>env pub. UnmarshalBatchEnvelope frame = Inr env \<and> \<not> hybridVerify r \<and>
         Lookup (batchOriginNodeID env) (dir r) = Some pub \<and>
         VerifyCRDTFrame (depLib deps) pub (BatchWire env) (batchOriginSig env) \<and>
         batch_merged deps (BatchWire env) (engine r) (engine r')
       else engine r' = engine r)) \<and>
    (\<forall>v r'. HandleHybridFrame deps frame r = Some (v, r') \<longrightarrow>
      (if verdict v = AcceptFrame
       then \<exists>env pub pk. UnmarshalHybridFrame frame = Inr env \<and> hybridVerify r \<and>
         LookupBoth (hybridOriginNodeID env) (dir r) = Some (pub, Some pk) \<and>
         VerifyCRDTFrame (depLib deps) pub (HashBatchWireToFrame120 (depLib deps) (HybridBatchWire env)) (hybridEdSig env) \<and>
         mldsaVerify (depLib deps) pk (HashBatchWireToFrame120 (depLib deps) (HybridBatchWire env)) (hybridPQSig env) '''' \<and>
         batch_merged deps (HybridBatchWire env) (engine r) (engine r')
       else engine r' = engine r))"
proof (intro conjI allI impI)
  fix v r' assume "HandleBatchFrame deps frame r = Some (v, r')"
  then show "if verdict v = AcceptFrame
     then \<exists>env pub. UnmarshalBatchEnvelope frame = Inr env \<and> \<not> hybridVerify r \<and>
       Lookup (batchOriginNodeID env) (dir r) = Some pub \<and>
       VerifyCRDTFrame (depLib deps) pub (BatchWire env) (batchOriginSig env) \<and>
       batch_merged deps (BatchWire env) (engine r) (engine r')
     else engine r' = engine r"
  proof (cases rule: HandleBatch_cases)
    case (accepted env pub)
    then show ?thesis using ApplyBatch_merged [OF assms accepted(6)] by auto
  qed simp
next
  fix v r' assume "HandleHybridFrame deps frame r = Some (v, r')"
  then show "if verdict v = AcceptFrame
     then \<exists>env pub pk. UnmarshalHybridFrame frame = Inr env \<and> hybridVerify r \<and>
       LookupBoth (hybridOriginNodeID env) (dir r) = Some (pub, Some pk) \<and>
       VerifyCRDTFrame (depLib deps) pub (HashBatchWireToFrame120 (depLib deps) (HybridBatchWire env)) (hybridEdSig env) \<and>
       mldsaVerify (depLib deps) pk (HashBatchWireToFrame120 (depLib deps) (HybridBatchWire env)) (hybridPQSig env) '''' \<and>
       batch_merged deps (HybridBatchWire env) (engine r) (engine r')
     else engine r' = engine r"
  proof (cases rule: HandleHybrid_cases)
    case (accepted env pub pq)
    then show ?thesis using ApplyBatch_merged [OF assms accepted(6)] hybrid_requires_both [OF accepted(5)] by auto
  qed simp
qed

lemma signed_batch_accepted:
  assumes "eng_ok (depHash deps) (engine r)" "sort_ok (depSort deps)" "\<not> closing (engine r)" "\<not> hybridVerify r"
    and "length sender = 16" "length sig = 64" "sig \<noteq> replicate 64 0" "fst (Accept (depF64 deps) (rateKeyOf sender) seq (bucket r)) = Keep"
    and "Lookup sender (dir r) = Some pub" "VerifyCRDTFrame (depLib deps) pub wire sig"
    and "depDecodeBatch deps wire = Inr [eventOf k p en]"
    and "length (OriginNodeID en) = 16" "length (PayloadDigest en) = 32" "DotNodeID en = OriginNodeID en"
    and "PayloadDigest en = depSha256 deps p" "DotCounter en \<le> MaxAcceptableDotCounter (depF64 deps) (takeLamportSnapshot (engine r))"
  shows "\<exists>r'. HandleBatchFrame deps (MarshalBatchEnvelope sender sig seq cnt wire) r = Some (\<lparr>verdict = AcceptFrame, reason = None\<rparr>, r') \<and>
    eng_map (depHash deps) (engine r') k (Dot en) \<noteq> None"
proof -
  let ?f = "MarshalBatchEnvelope sender sig seq cnt wire"
  note b = Batch_roundtrip [OF assms(5-7), of seq cnt wire]
  have rec: "ReconstructEntryWithSkewBound (depSha256 deps) (depF64 deps) (eventOf k p en) (takeLamportSnapshot (engine r)) =
      Inr \<lparr>recEntityID = k, recPayload = p, recEntry = en\<rparr>"
    using Reconstruct_eventOf [of en "depSha256 deps" p k] assms(12-16) by (simp add: Reconstruct_skew_Inr)
  have ver: "evVersion (eventOf k p en) = CRDTDeltaEventWireVersion" by (simp add: eventOf_def)
  let ?d = "\<lparr>Entries = Some [(k, en)], DeltaOriginNodeID = OriginNodeID en\<rparr>"
  obtain e' where j: "Join (depHash deps) (depSort deps) (depF64 deps) ?d (engine r) = Some e'"
    using Join_Some [OF assms(3)] by blast
  have ap: "ApplyCRDTDeltaBatch (depSha256 deps) (depHash deps) (depSort deps) (depF64 deps) (depDecodeBatch deps) wire (engine r) = Some (None, e')"
    using assms(11) rec ver j by (simp add: ApplyCRDTDeltaBatch_def makeBatchEntrySeq_def batchOriginOf_def Let_def)
  obtain bk where acc: "Accept (depF64 deps) (rateKeyOf sender) seq (bucket r) = (Keep, bk)" using assms(8) by (metis prod.collapse)
  obtain r' where h: "HandleBatchFrame deps ?f r = Some (\<lparr>verdict = AcceptFrame, reason = None\<rparr>, r')" "engine r' = e'"
    using b(2,3) acc assms(4,9,10) ap by (simp add: HandleBatchFrame_def BatchWire_def Let_def)
  have "delta_entries ?d = [(k, en)]" by (simp add: delta_entries_def)
  then have "eng_map (depHash deps) e' k (Dot en) \<noteq> None" using Join_cases(3) [OF assms(1,2) j] by simp
  then show ?thesis using h by blast
qed

text \<open>
  C11. A batch speaks for any origin. A sender with a registered key can have entries of every other
  origin accepted: the signature is checked under the key of the node named in the header, and nothing
  compares that node with the origins of the events in the batch.
\<close>

theorem HandleBatchFrame_foreign_origin:
  assumes "eng_ok (depHash deps) (engine r)" "sort_ok (depSort deps)" "\<not> closing (engine r)" "\<not> hybridVerify r"
    and "length sender = 16" "length sig = 64" "sig \<noteq> replicate 64 0" "fst (Accept (depF64 deps) (rateKeyOf sender) seq (bucket r)) = Keep"
    and "Lookup sender (dir r) = Some pub" "VerifyCRDTFrame (depLib deps) pub wire sig"
    and "depDecodeBatch deps wire = Inr [eventOf k p en]"
    and "length (OriginNodeID en) = 16" "length (PayloadDigest en) = 32" "DotNodeID en = OriginNodeID en"
    and "PayloadDigest en = depSha256 deps p" "DotCounter en \<le> MaxAcceptableDotCounter (depF64 deps) (takeLamportSnapshot (engine r))"
  shows "\<exists>r'. HandleBatchFrame deps (MarshalBatchEnvelope sender sig seq cnt wire) r = Some (\<lparr>verdict = AcceptFrame, reason = None\<rparr>, r') \<and>
    eng_map (depHash deps) (engine r') k (Dot en) \<noteq> None"
  using signed_batch_accepted [OF assms] .

section \<open>Examples\<close>

definition ex_lib :: "(bool, unit, unit) CryptoLib" where
  "ex_lib = \<lparr>SetBytes = (\<lambda>_. Some True), MultByCofactor = (\<lambda>P. P), IdentityPoint = False, ed25519Verify = ex_verify,
     mldsaVerify = (\<lambda>_ _ _ _. False), mldsaSign = (\<lambda>_ _ _. None), shake256 = (\<lambda>_ n. replicate n 0)\<rparr>"

definition ex_deps :: "(bool, unit, unit) ReceiveDeps" where
  "ex_deps = \<lparr>depLib = ex_lib, depSha256 = ex_sha, depHash = (\<lambda>_ _. 0), depSort = isortCmp, depF64 = (\<lambda>x. x),
     depDecodeEvent = ex_dec, depDecodeBatch = (\<lambda>w. Inr [eventOf [97] [1, 2, 3] ex_frame])\<rparr>"

definition ex_dir :: "unit Directory" where
  "ex_dir = snd (Register (replicate 16 9) (replicate 32 8) (snd (Register (replicate 16 1) (replicate 32 7) NewDirectory)))"

definition ex_receiver :: "unit Receiver" where
  "ex_receiver = NewReceiver NewPeerBucket ex_dir (ex_replica 5 1) 1000000"

definition ex_wireEnv :: "u64 \<Rightarrow> bytes \<Rightarrow> RelayEnvelope" where
  "ex_wireEnv c org = NewSignedRelayEnvelopeV3 [1] (ex_sign (replicate 32 8) [1]) c org []"

lemma ex_wireEnv_unmarshal:
  "length org = 16 \<Longrightarrow> UnmarshalRelayEnvelope (Marshal (ex_wireEnv c org)) = Inr ((ex_wireEnv c org)\<lparr>envVersion := envelopeVersion\<rparr>)"
  using Unmarshal_Marshal [of "ex_wireEnv c org" "[]"]
  by (simp add: env_ok_def ex_wireEnv_def NewSignedRelayEnvelopeV3_def NewRelayEnvelope_def envelope_sizes)

lemma ex_receiver_ok:
  "eng_ok (depHash ex_deps) (engine ex_receiver)" "lamport_ok (engine ex_receiver)" "sort_ok (depSort ex_deps)"
  "\<not> closing (engine ex_receiver)" "maxHops ex_receiver = 15" "\<not> hybridVerify ex_receiver" "bucket ex_receiver = NewPeerBucket"
  by (simp_all add: ex_deps_def ex_receiver_def NewReceiver_def ex_replica_facts isortCmp_sort_ok MaxHopsForBudget_def
      verifyCostPerHop32c_def Let_def)

lemma ex_verifies: "length pub = 32 \<Longrightarrow> VerifyCRDTFrame ex_lib pub msg (ex_sign pub msg)"
  by (simp add: VerifyCRDTFrame_def RejectSmallOrderKey_def ex_lib_def ex_verify_def)

lemma ex_lookup: "Lookup (replicate 16 9) ex_dir = Some (replicate 32 8)" "Lookup (replicate 16 1) ex_dir = Some (replicate 32 7)"
  by (simp_all add: Lookup_def ex_dir_def Register_def)

lemma ex_frame_facts:
  "length (OriginNodeID ex_frame) = 16" "length (PayloadDigest ex_frame) = 32" "DotNodeID ex_frame = OriginNodeID ex_frame"
  "PayloadDigest ex_frame = ex_sha [1, 2, 3]" "DotCounter ex_frame = 5" "OriginNodeID ex_frame = replicate 16 9"
  by (simp_all add: ex_frame_def ex_sha_def)

lemma ex_relay_accepted:
  "\<exists>r'. HandleFrame ex_deps 0 0 (Marshal (ex_wireEnv 5 (replicate 16 9))) ex_receiver = Some (\<lparr>verdict = AcceptFrame, reason = None\<rparr>, r')"
proof -
  let ?env = "(ex_wireEnv 5 (replicate 16 9))\<lparr>envVersion := envelopeVersion\<rparr>"
  let ?e = "AdvanceLamportTo (\<lambda>x. x) 5 (ex_replica 5 1)"
  have u: "UnmarshalRelayEnvelope (Marshal (ex_wireEnv 5 (replicate 16 9))) = Inr ?env" by (rule ex_wireEnv_unmarshal) simp
  have f: "envHops ?env = []" "innerWire ?env = [1]" "envDotCounter ?env = 5" "envOriginNodeID ?env = replicate 16 9"
    "envOriginSig ?env = ex_sign (replicate 32 8) [1]" "envVersion ?env = envelopeVersion"
    by (simp_all add: ex_wireEnv_def NewSignedRelayEnvelopeV3_def NewRelayEnvelope_def)
  have o: "Open ver 15 ?env = Inr ([1], 0)" for ver unfolding Open_Inr using f by (simp add: hops_valid_def)
  have x: "crossCheckGateFields ex_dec ?env [1] = None"
    using f ex_frame_facts by (simp add: crossCheckGateFields_def readGateFieldsFromCapnp_def ex_dec_def eventOf_def)
  have "snapLamport (takeLamportSnapshot ?e) = 5" by (simp add: takeLamportSnapshot_def ex_replica_facts)
  then have b: "5 \<le> MaxAcceptableDotCounter (\<lambda>x. x) (takeLamportSnapshot ?e)" by (metis MaxAcceptable_ge)
  have rec: "ReconstructEntryWithSkewBound ex_sha (\<lambda>x. x) (eventOf [97] [1, 2, 3] ex_frame) (takeLamportSnapshot ?e) =
      Inr \<lparr>recEntityID = [97], recPayload = [1, 2, 3], recEntry = ex_frame\<rparr>"
    using Reconstruct_eventOf [of ex_frame ex_sha "[1, 2, 3]" "[97]"] b ex_frame_facts(1-5) by (simp add: Reconstruct_skew_Inr)
  obtain e' where j: "Join (\<lambda>_ _. 0) isortCmp (\<lambda>x. x) \<lparr>Entries = Some [([97], ex_frame)], DeltaOriginNodeID = OriginNodeID ex_frame\<rparr> ?e = Some e'"
  proof -
    have "\<not> closing ?e" by (simp add: ex_replica_facts)
    then show ?thesis using Join_Some that by blast
  qed
  have ap: "ApplyCRDTDeltaEvent ex_sha (\<lambda>_ _. 0) isortCmp (\<lambda>x. x) ex_dec [1] ?e = Some (None, e')"
    using rec j by (simp add: ApplyCRDTDeltaEvent_def ex_dec_def makeSingleEntrySeq_def Let_def) (simp add: eventOf_def)
  have a: "Admit (\<lambda>x. x) 0 0 5 (ex_replica 5 1) = (True, ?e)" by (simp add: Admit_def maxDriftEpsilon_def)
  show ?thesis
    using u f o x ap a ex_lookup(1) ex_verifies [of "replicate 32 8" "[1]"] ex_receiver_ok
    by (simp add: HandleFrame_def HopCount_def readGateFields_def Let_def ex_deps_def ex_receiver_def NewReceiver_def)
qed

theorem HandleFrame_sound_witness:
  "\<exists>v r' k en. HandleFrame ex_deps 0 0 (Marshal (ex_wireEnv 5 (replicate 16 9))) ex_receiver = Some (v, r') \<and>
     verdict v = AcceptFrame \<and> eng_map (depHash ex_deps) (engine r') k (Dot en) \<noteq> None"
proof -
  obtain r' where h: "HandleFrame ex_deps 0 0 (Marshal (ex_wireEnv 5 (replicate 16 9))) ex_receiver =
      Some (\<lparr>verdict = AcceptFrame, reason = None\<rparr>, r')" using ex_relay_accepted by blast
  have "\<exists>k en. eng_map (depHash ex_deps) (engine r') k (Dot en) \<noteq> None"
    using HandleFrame_sound [OF ex_receiver_ok(1-3) h] by fastforce
  then show ?thesis using h by fastforce
qed

theorem HandleFrame_unverified_clock_witness:
  "\<exists>v r'. HandleFrame ex_deps 0 0 (Marshal (ex_wireEnv MaxUint64 (replicate 16 4))) ex_receiver = Some (v, r') \<and>
     verdict v = DropVerify \<and> fst (NextDot (engine r')) = CausalDot (localNodeID (engine ex_receiver)) 0"
proof -
  let ?env = "(ex_wireEnv MaxUint64 (replicate 16 4))\<lparr>envVersion := envelopeVersion\<rparr>"
  have u: "UnmarshalRelayEnvelope (Marshal (ex_wireEnv MaxUint64 (replicate 16 4))) = Inr ?env" by (rule ex_wireEnv_unmarshal) simp
  have f: "envHops ?env = []" "envVersion ?env = envelopeVersion" "envDotCounter ?env = MaxUint64" "envOriginNodeID ?env = replicate 16 4"
    by (simp_all add: ex_wireEnv_def NewSignedRelayEnvelopeV3_def NewRelayEnvelope_def)
  have l: "Lookup (envOriginNodeID ?env) (dir ex_receiver) = None"
    unfolding f by (simp add: Lookup_def ex_receiver_def NewReceiver_def ex_dir_def Register_def NewDirectory_def)
  have "\<exists>v r'. HandleFrame ex_deps 0 0 (Marshal (ex_wireEnv MaxUint64 (replicate 16 4))) ex_receiver = Some (v, r') \<and> verdict v = DropVerify \<and>
    lamportCounter (engine r') = max (lamportCounter (engine ex_receiver)) (envDotCounter ?env) \<and>
    (envDotCounter ?env = MaxUint64 \<longrightarrow> fst (NextDot (engine r')) = CausalDot (localNodeID (engine ex_receiver)) 0)"
    by (rule HandleFrame_unverified_clock [OF u f(2,1) _ _ l]) (simp_all add: ex_receiver_ok)
  then show ?thesis using f(3) by blast
qed

lemma ex_batch_hyps:
  "length (replicate 16 1 :: bytes) = 16" "length (ex_sign (replicate 32 7) [1]) = 64" "ex_sign (replicate 32 7) [1] \<noteq> replicate 64 0"
  "fst (Accept (depF64 ex_deps) (rateKeyOf (replicate 16 1)) 1 (bucket ex_receiver)) = Keep"
  "Lookup (replicate 16 1) (dir ex_receiver) = Some (replicate 32 7)"
  "VerifyCRDTFrame (depLib ex_deps) (replicate 32 7) [1] (ex_sign (replicate 32 7) [1])"
  "depDecodeBatch ex_deps [1] = Inr [eventOf [97] [1, 2, 3] ex_frame]"
  "PayloadDigest ex_frame = depSha256 ex_deps [1, 2, 3]"
  "DotCounter ex_frame \<le> MaxAcceptableDotCounter (depF64 ex_deps) (takeLamportSnapshot (engine ex_receiver))"
proof -
  show "fst (Accept (depF64 ex_deps) (rateKeyOf (replicate 16 1)) 1 (bucket ex_receiver)) = Keep"
  proof -
    obtain v b where ac: "Accept (depF64 ex_deps) (rateKeyOf (replicate 16 1)) 1 NewPeerBucket = (v, b)" by fastforce
    then have "v = Keep" using Accept_verdict [OF NewPeerBucket_ok ac] by (simp add: rateKeyOf_def)
    then show ?thesis using ac by (simp add: ex_receiver_ok)
  qed
  have "ex_sign (replicate 32 7) [1] ! 0 \<noteq> replicate 64 0 ! 0" by (simp add: ex_sign_def nth_append)
  then show "ex_sign (replicate 32 7) [1] \<noteq> replicate 64 0" by metis
  show "Lookup (replicate 16 1) (dir ex_receiver) = Some (replicate 32 7)" using ex_lookup(2) by (simp add: ex_receiver_def NewReceiver_def)
  show "VerifyCRDTFrame (depLib ex_deps) (replicate 32 7) [1] (ex_sign (replicate 32 7) [1])" using ex_verifies by (simp add: ex_deps_def)
  show "DotCounter ex_frame \<le> MaxAcceptableDotCounter (depF64 ex_deps) (takeLamportSnapshot (engine ex_receiver))"
    using ex_bound ex_frame_facts(5) by (simp add: ex_receiver_def NewReceiver_def ex_deps_def)
qed (simp_all add: ex_deps_def ex_frame_facts)

theorem HandleBatchFrame_foreign_origin_witness:
  "\<exists>r'. HandleBatchFrame ex_deps (MarshalBatchEnvelope (replicate 16 1) (ex_sign (replicate 32 7) [1]) 1 1 [1]) ex_receiver =
       Some (\<lparr>verdict = AcceptFrame, reason = None\<rparr>, r') \<and>
     eng_map (depHash ex_deps) (engine r') [97] (Dot ex_frame) \<noteq> None \<and> OriginNodeID ex_frame \<noteq> replicate 16 1"
  using HandleBatchFrame_foreign_origin [OF ex_receiver_ok(1,3,4,6) ex_batch_hyps(1-7) ex_frame_facts(1-3) ex_batch_hyps(8,9), of 1]
  by (simp add: ex_frame_facts)

theorem batch_frames_sound_witness:
  "\<exists>v r' env. HandleBatchFrame ex_deps (MarshalBatchEnvelope (replicate 16 1) (ex_sign (replicate 32 7) [1]) 1 1 [1]) ex_receiver = Some (v, r') \<and>
     verdict v = AcceptFrame \<and> UnmarshalBatchEnvelope (MarshalBatchEnvelope (replicate 16 1) (ex_sign (replicate 32 7) [1]) 1 1 [1]) = Inr env \<and>
     batch_merged ex_deps (BatchWire env) (engine ex_receiver) (engine r')"
proof -
  obtain v r' where h: "HandleBatchFrame ex_deps (MarshalBatchEnvelope (replicate 16 1) (ex_sign (replicate 32 7) [1]) 1 1 [1]) ex_receiver = Some (v, r')"
    "verdict v = AcceptFrame"
    using signed_batch_accepted [OF ex_receiver_ok(1,3,4,6) ex_batch_hyps(1-7) ex_frame_facts(1-3) ex_batch_hyps(8,9), of 1] by fastforce
  show ?thesis
    using batch_frames_sound [OF ex_receiver_ok(1-3), of "MarshalBatchEnvelope (replicate 16 1) (ex_sign (replicate 32 7) [1]) 1 1 [1]"] h
    by (metis (no_types, lifting))
qed

end
