(* ===== verification/Crc32c.thy ===== *)
theory Crc32c
  imports Sov_Prelude
begin

text \<open>
  The CRC-32C checksum of \<^verbatim>\<open>hash/crc32\<close> with the Castagnoli polynomial, as the write-ahead log and the
  snapshot image use it: the table of the reflected polynomial and the byte loop over it. Shown here:
  the checksum detects every change that is confined to four consecutive bytes.
\<close>

definition castagnoli :: u32 where "castagnoli = 0x82F63B78"

definition crcBit :: "u32 \<Rightarrow> u32" where
  "crcBit c = (if c AND 1 = 1 then drop_bit 1 c XOR castagnoli else drop_bit 1 c)"

text \<open>One entry of the table that \<^verbatim>\<open>crc32.MakeTable\<close> fills.\<close>

definition castagnoliTable :: "byte \<Rightarrow> u32" where
  "castagnoliTable b = (crcBit ^^ 8) (ucast b)"

definition crcByte :: "u32 \<Rightarrow> byte \<Rightarrow> u32" where
  "crcByte c v = castagnoliTable (ucast c XOR v) XOR drop_bit 8 c"

definition crcState :: "u32 \<Rightarrow> bytes \<Rightarrow> u32" where
  "crcState c data = foldl crcByte c data"

text \<open>\<^verbatim>\<open>crc32.Checksum(data, castagnoliTable)\<close>.\<close>

definition crc32Checksum :: "bytes \<Rightarrow> u32" where
  "crc32Checksum data = NOT (crcState (NOT 0) data)"

section \<open>Exclusive or\<close>

lemma word_xor_zero_iff: "a XOR b = 0 \<longleftrightarrow> a = (b :: 'a::len word)"
  by (auto simp: bit_eq_iff bit_xor_iff)

lemma word_xor_left_cancel: "a XOR b = a XOR c \<longleftrightarrow> b = (c :: 'a::len word)"
  by (auto simp: bit_eq_iff bit_xor_iff)

lemma word_xor_right_cancel: "b XOR a = c XOR a \<longleftrightarrow> b = (c :: 'a::len word)"
  by (simp add: xor.commute [of _ a] word_xor_left_cancel)

section \<open>The bit step is linear and injective\<close>

lemma and_one_word: "(c :: u32) AND 1 = 1 \<longleftrightarrow> odd c"
  by (simp add: and_one_eq odd_iff_mod_2_eq_one)

lemma crcBit_xor: "crcBit (a XOR b) = crcBit a XOR crcBit b"
  unfolding crcBit_def and_one_word
  by (auto simp: drop_bit_xor even_xor_iff xor.assoc xor.left_commute xor.commute)

lemma castagnoli_top: "bit castagnoli 31"
  by (simp add: castagnoli_def bit_simps)

lemma crcBit_zero: "crcBit c = 0 \<longleftrightarrow> c = 0"
proof
  assume z: "crcBit c = 0"
  have e: "even c"
  proof (rule ccontr)
    assume "odd c"
    then have "drop_bit 1 c XOR castagnoli = 0" using z by (simp add: crcBit_def and_one_word)
    then have "drop_bit 1 c = castagnoli" by (simp add: word_xor_zero_iff)
    then have "bit (drop_bit 1 c) 31" using castagnoli_top by simp
    then show False by (auto simp: bit_drop_bit_eq dest: bit_imp_le_length)
  qed
  then have d: "drop_bit 1 c = 0" using z by (simp add: crcBit_def and_one_word)
  show "c = 0"
  proof (rule bit_word_eqI)
    fix n assume "n < LENGTH(32)"
    show "bit c n = bit (0 :: u32) n"
    proof (cases n)
      case 0
      then show ?thesis using e by (simp add: bit_0)
    next
      case (Suc m)
      then have "bit c n = bit (drop_bit 1 c) m" by (simp add: bit_drop_bit_eq)
      then show ?thesis using d by simp
    qed
  qed
qed (simp add: crcBit_def)

lemma crcBits_xor: "(crcBit ^^ n) (a XOR b) = (crcBit ^^ n) a XOR (crcBit ^^ n) b"
  by (induction n) (simp_all add: crcBit_xor)

lemma crcBits_zero: "(crcBit ^^ n) c = 0 \<longleftrightarrow> c = 0"
  by (induction n) (simp_all add: crcBit_zero)

lemma crcBits_inj: "(crcBit ^^ n) a = (crcBit ^^ n) b \<longleftrightarrow> a = b"
  using crcBits_zero [of n "a XOR b"] by (simp add: crcBits_xor word_xor_zero_iff)

text \<open>A word whose low bits are clear is only shifted.\<close>

lemma crcBit_push: "n < 32 \<Longrightarrow> crcBit (push_bit (Suc n) w) = push_bit n (take_bit (31 - n) w)"
proof -
  assume n: "n < 32"
  have "even (push_bit (Suc n) w)" by simp
  then have "crcBit (push_bit (Suc n) w) = drop_bit 1 (push_bit (Suc n) w)"
    by (simp add: crcBit_def and_one_word)
  also have "\<dots> = push_bit n (take_bit (31 - n) w)"
    using n by (intro bit_word_eqI)
      (auto simp: bit_drop_bit_eq bit_push_bit_iff bit_take_bit_iff simp del: push_bit_Suc)
  finally show ?thesis .
qed

lemma crcBits_push:
  "k + m \<le> 32 \<Longrightarrow> w = take_bit m w \<Longrightarrow> (crcBit ^^ k) (push_bit k w) = w"
proof (induction k)
  case (Suc k)
  have "take_bit (31 - k) (take_bit m w) = take_bit m w" using Suc.prems(1) by simp
  then have "take_bit (31 - k) w = w" using Suc.prems(2) by metis
  then have "crcBit (push_bit (Suc k) w) = push_bit k w"
    using Suc.prems(1) crcBit_push [of k w] by simp
  then show ?case using Suc by (simp add: funpow_Suc_right del: funpow.simps(2))
qed simp

section \<open>The byte step\<close>

lemma ucast_byte_take: "(ucast (v :: byte) :: u32) = take_bit 8 (ucast v)"
  by (rule bit_word_eqI) (auto simp: bit_take_bit_iff bit_ucast_iff dest: bit_imp_le_length)

lemma split_low_byte: "c = ucast (ucast c :: byte) XOR push_bit 8 (drop_bit 8 (c :: u32))"
  by (rule bit_word_eqI) (auto simp: bit_xor_iff bit_ucast_iff bit_push_bit_iff bit_drop_bit_eq)

lemma ucast_byte_xor: "(ucast ((a :: byte) XOR b) :: u32) = ucast a XOR ucast b"
  by (rule bit_word_eqI) (auto simp: bit_xor_iff bit_ucast_iff)

lemma drop_bit_take: "drop_bit 8 (c :: u32) = take_bit 24 (drop_bit 8 c)"
  by (rule bit_word_eqI) (auto simp: bit_drop_bit_eq bit_take_bit_iff dest: bit_imp_le_length)

lemma crcByte_bits: "crcByte c v = (crcBit ^^ 8) (c XOR ucast v)"
proof -
  have "c XOR ucast v = ucast (ucast c XOR v) XOR push_bit 8 (drop_bit 8 c)"
    unfolding ucast_byte_xor by (subst split_low_byte [of c]) (simp only: xor.assoc xor.commute xor.left_commute)
  moreover have "(crcBit ^^ 8) (push_bit 8 (drop_bit 8 c)) = drop_bit 8 c"
    by (rule crcBits_push [OF _ drop_bit_take]) simp
  ultimately show ?thesis by (simp add: crcByte_def castagnoliTable_def crcBits_xor)
qed

lemma crcByte_inj: "crcByte c v = crcByte d v \<longleftrightarrow> c = d"
  by (simp only: crcByte_bits crcBits_inj word_xor_right_cancel)

lemma crcState_append: "crcState c (xs @ ys) = crcState (crcState c xs) ys"
  by (simp add: crcState_def)

lemma crcState_inj: "crcState c xs = crcState d xs \<longleftrightarrow> c = d"
  by (induction xs arbitrary: c d) (simp_all add: crcState_def crcByte_inj)

text \<open>Up to four bytes enter the state as one word.\<close>

lemma of_le_snoc:
  "of_le (bs @ [v]) = (of_le bs :: u32) XOR push_bit (8 * length bs) (ucast v)"
proof (rule bit_word_eqI)
  fix n assume n: "n < LENGTH(32)"
  show "bit (of_le (bs @ [v]) :: u32) n =
    bit ((of_le bs :: u32) XOR push_bit (8 * length bs) (ucast v)) n"
  proof (cases "n < 8 * length bs")
    case True
    then have "n div 8 < length bs" by auto
    then show ?thesis using True n
      by (auto simp: bit_of_le bit_xor_iff bit_push_bit_iff nth_append)
  next
    case False
    then have d: "\<not> n div 8 < length bs" by auto
    show ?thesis
    proof (cases "n div 8 = length bs")
      case True
      then have "n - 8 * length bs = n mod 8" by (simp add: minus_div_mult_eq_mod [symmetric] mult.commute)
      then show ?thesis using True False d n
        by (auto simp: bit_of_le bit_xor_iff bit_push_bit_iff bit_ucast_iff nth_append)
    next
      case ne: False
      then have "Suc (length bs) \<le> n div 8" using d by simp
      then have "8 \<le> n - 8 * length bs" by linarith
      then have "\<not> bit v (n - 8 * length bs)" by (auto dest: bit_imp_le_length)
      then show ?thesis using d ne n
        by (auto simp: bit_of_le bit_xor_iff bit_push_bit_iff bit_ucast_iff)
    qed
  qed
qed

lemma crcState_word:
  "length bs \<le> 4 \<Longrightarrow> crcState c bs = (crcBit ^^ (8 * length bs)) (c XOR of_le bs)"
proof (induction bs rule: rev_induct)
  case (snoc v bs)
  have v: "(crcBit ^^ (8 * length bs)) (push_bit (8 * length bs) (ucast v)) = (ucast v :: u32)"
    by (rule crcBits_push [OF _ ucast_byte_take]) (use snoc.prems in simp)
  have "crcState c (bs @ [v]) = (crcBit ^^ 8) (crcState c bs XOR ucast v)"
    by (simp add: crcState_append) (simp add: crcState_def crcByte_bits)
  also have "\<dots> = (crcBit ^^ 8) ((crcBit ^^ (8 * length bs))
      (c XOR of_le bs XOR push_bit (8 * length bs) (ucast v)))"
    using snoc v by (simp add: crcBits_xor xor.assoc)
  also have "\<dots> = (crcBit ^^ (8 * length (bs @ [v]))) (c XOR of_le (bs @ [v]))"
    by (simp add: of_le_snoc funpow_add xor.assoc)
  finally show ?case .
qed (simp add: crcState_def)

lemma of_le_inj:
  assumes "length xs = length ys" "length xs \<le> 4" "(of_le xs :: u32) = of_le ys"
  shows "xs = ys"
  using le_bytes_of_le [of xs "length xs", where ?'a = 32] le_bytes_of_le [of ys "length xs", where ?'a = 32]
    assms by simp

text \<open>A change of at most four consecutive bytes changes the checksum.\<close>

theorem crc32_burst:
  assumes "length a = length b" "length a \<le> 4"
  shows "crc32Checksum (xs @ a @ ys) = crc32Checksum (xs @ b @ ys) \<longleftrightarrow> a = b"
proof
  assume "crc32Checksum (xs @ a @ ys) = crc32Checksum (xs @ b @ ys)"
  then have "crcState (crcState (NOT 0) xs) a = crcState (crcState (NOT 0) xs) b"
    by (simp add: crc32Checksum_def crcState_append crcState_inj)
  then have "crcState (NOT 0) xs XOR of_le a = crcState (NOT 0) xs XOR of_le b"
    using assms by (simp add: crcState_word crcBits_inj)
  then have "(of_le a :: u32) = of_le b" by (simp only: word_xor_left_cancel)
  then show "a = b" using assms of_le_inj by blast
qed simp

end
