(* ===== verification/Wal.thy ===== *)
theory Wal
  imports Crc32c Engine
begin

text \<open>
  The write-ahead log of \<^verbatim>\<open>internal/chaos/wal.go\<close> with the entry codec of \<^verbatim>\<open>codec.go\<close>, re-exported by
  \<^verbatim>\<open>pkg/durability/wal.go\<close>: the record formats, the append paths, the scan and truncation on open, and
  the replay with all its checks. The lemmas about it are in \<^verbatim>\<open>Wal_Props\<close>.

  A file is its bytes together with the number of bytes that the last successful \<^verbatim>\<open>fsync\<close> covered. What
  the operating system decides is an argument: \<^verbatim>\<open>wr\<close> says whether a write completes (\<^verbatim>\<open>None\<close>) or fails
  after some bytes, \<^verbatim>\<open>ok\<close> whether an \<^verbatim>\<open>fsync\<close> succeeds. The descriptor always stands at the end of the
  file: it is opened without \<^verbatim>\<open>O_APPEND\<close>, and \<^verbatim>\<open>OpenWAL\<close> seeks to the end of what it keeps. The test seams
  (\<^verbatim>\<open>syncHook\<close>, \<^verbatim>\<open>walCRC32Skip\<close>) are off.
\<close>

section \<open>Files\<close>

record File =
  fbytes :: bytes
  fsynced :: nat

definition fileWrite :: "nat option \<Rightarrow> bytes \<Rightarrow> File \<Rightarrow> bool \<times> File" where
  "fileWrite wr data f =
     (case wr of None \<Rightarrow> (True, f\<lparr>fbytes := fbytes f @ data\<rparr>)
      | Some n \<Rightarrow> (False, f\<lparr>fbytes := fbytes f @ take n data\<rparr>))"

definition fileSync :: "bool \<Rightarrow> File \<Rightarrow> bool \<times> File" where
  "fileSync ok f = (if ok then (True, f\<lparr>fsynced := length (fbytes f)\<rparr>) else (False, f))"

section \<open>Records\<close>

definition walMagic :: u32 where "walMagic = 0x57414C00"
definition walVersion :: u16 where "walVersion = 1"
definition maxRecordPayloadLen :: u32 where "maxRecordPayloadLen = 4194304"
definition MaxCredibleClockHigh :: u64 where "MaxCredibleClockHigh = 1152921504606846976"

type_synonym WALRecordType = byte

definition WALRecMutation :: WALRecordType where "WALRecMutation = 1"
definition WALRecCheckpoint :: WALRecordType where "WALRecCheckpoint = 2"
definition WALRecClockAdvance :: WALRecordType where "WALRecClockAdvance = 3"
definition WALRecMutationV2 :: WALRecordType where "WALRecMutationV2 = 4"
definition WALRecCheckpointV2 :: WALRecordType where "WALRecCheckpointV2 = 5"
definition WALRecChecksummed :: WALRecordType where "WALRecChecksummed = 6"

lemmas WALRec_defs = WALRecMutation_def WALRecCheckpoint_def WALRecClockAdvance_def
  WALRecMutationV2_def WALRecCheckpointV2_def WALRecChecksummed_def

record WALEntry =
  walPayloadDigest :: bytes
  walOriginNodeID :: bytes
  walDotNodeID :: bytes
  walDotCounter :: u64
  walSystemTime :: i64

record WALMutation =
  mEntityID :: gostring
  mFull :: CRDTEntry
  mNodeID :: bytes
  mCounter :: u64
  mEntry :: WALEntry
  mLegacy :: bool

record WALCheckpoint =
  cMerkleRoot :: bytes
  cFingerprint :: bytes
  cLamportHigh :: u64
  cCutSeq :: u64
  cClockHigh :: u64
  cHasCutSeq :: bool
  cHasFingerprint :: bool

text \<open>The subset of an entry that the old format keeps, as both constructors of it derive it.\<close>

definition walEntryOf :: "CRDTEntry \<Rightarrow> WALEntry" where
  "walEntryOf e =
     \<lparr>walPayloadDigest = PayloadDigest e, walOriginNodeID = OriginNodeID e,
      walDotNodeID = DotNodeID e, walDotCounter = DotCounter e, walSystemTime = SystemTime e\<rparr>"

definition NewWALMutation :: "gostring \<Rightarrow> CausalDot \<Rightarrow> CRDTEntry \<Rightarrow> WALMutation" where
  "NewWALMutation eid dot entry =
     (let entry1 = entry\<lparr>DotNodeID := NodeID dot, DotCounter := Counter dot, OriginNodeID := NodeID dot\<rparr>
      in \<lparr>mEntityID = eid, mFull = entry1, mNodeID = NodeID dot, mCounter = Counter dot,
          mEntry = walEntryOf entry1, mLegacy = False\<rparr>)"

datatype walError =
    ErrEmptyEntityID | ErrLegacyAppend | ErrDotMismatch | ErrZeroOrigin
  | ErrWrite | ErrFsync | ErrClosed
  | ErrNotExist | ErrHeaderRead | ErrBadMagic | ErrBadVersion
  | ErrPayloadLen | ErrWALSeqGap | ErrWALCorrupt
  | ErrDecodeMutation | ErrShortClockAdvance | ErrShortCheckpoint | ErrUnknownType

definition validateV2 :: "WALMutation \<Rightarrow> walError option" where
  "validateV2 m =
     (if mEntityID m = [] then Some ErrEmptyEntityID
      else if mLegacy m then Some ErrLegacyAppend
      else if DotNodeID (mFull m) \<noteq> mNodeID m \<or> DotCounter (mFull m) \<noteq> mCounter m then Some ErrDotMismatch
      else if OriginNodeID (mFull m) = replicate 16 0 then Some ErrZeroOrigin
      else None)"

section \<open>Entry codecs\<close>

definition crdtEntryWireLen :: nat where "crdtEntryWireLen = 120"
definition walEntryLen :: nat where "walEntryLen = 80"

definition encodeCRDTEntry :: "CRDTEntry \<Rightarrow> bytes" where
  "encodeCRDTEntry e =
     PayloadDigest e @ OriginNodeID e @ DotNodeID e @ be_bytes 8 (DotCounter e) @
     be_bytes 8 (SystemTime e) @ be_bytes 8 (ValidTimeStart e) @ be_bytes 8 (ValidTimeEnd e) @
     be_bytes 8 (AssertionTime e) @ be_bytes 8 (DecisionTime e) @ be_bytes 8 (H3Index e)"

definition decodeCRDTEntry :: "bytes \<Rightarrow> CRDTEntry" where
  "decodeCRDTEntry src =
     \<lparr>PayloadDigest = gslice 0 32 src, OriginNodeID = gslice 32 48 src, DotNodeID = gslice 48 64 src,
      DotCounter = of_be (gslice 64 72 src), SystemTime = of_be (gslice 72 80 src),
      ValidTimeStart = of_be (gslice 80 88 src), ValidTimeEnd = of_be (gslice 88 96 src),
      AssertionTime = of_be (gslice 96 104 src), DecisionTime = of_be (gslice 104 112 src),
      H3Index = of_be (gslice 112 120 src)\<rparr>"

definition encodeWALEntry :: "WALEntry \<Rightarrow> bytes" where
  "encodeWALEntry e =
     walPayloadDigest e @ walOriginNodeID e @ walDotNodeID e @ be_bytes 8 (walDotCounter e) @
     be_bytes 8 (walSystemTime e)"

definition decodeWALEntry :: "bytes \<Rightarrow> WALEntry" where
  "decodeWALEntry src =
     \<lparr>walPayloadDigest = gslice 0 32 src, walOriginNodeID = gslice 32 48 src,
      walDotNodeID = gslice 48 64 src, walDotCounter = of_be (gslice 64 72 src),
      walSystemTime = of_be (gslice 72 80 src)\<rparr>"

section \<open>Record encoding\<close>

text \<open>The header of every record: sequence number, type and payload length.\<close>

definition recordHeader :: "u64 \<Rightarrow> WALRecordType \<Rightarrow> nat \<Rightarrow> bytes" where
  "recordHeader seq ty payloadLen = be_bytes 8 seq @ [ty] @ be_bytes 4 (of_nat payloadLen :: u32)"

definition putMutationV2Payload :: "WALMutation \<Rightarrow> bytes" where
  "putMutationV2Payload m =
     be_bytes 4 (of_nat (length (mEntityID m)) :: u32) @ mEntityID m @ mNodeID m @
     be_bytes 8 (mCounter m) @ encodeCRDTEntry (mFull m)"

definition putCheckpointV2Payload :: "WALCheckpoint \<Rightarrow> bytes" where
  "putCheckpointV2Payload c =
     cMerkleRoot c @ be_bytes 8 (cLamportHigh c) @ be_bytes 8 (cCutSeq c) @ be_bytes 8 (cClockHigh c) @
     (if cHasFingerprint c then cFingerprint c else [])"

definition putClockAdvancePayload :: "u64 \<Rightarrow> bytes" where
  "putClockAdvancePayload advancedTo = be_bytes 8 advancedTo"

definition encodeMutationRecord :: "u64 \<Rightarrow> WALMutation \<Rightarrow> bytes" where
  "encodeMutationRecord seq m =
     recordHeader seq WALRecMutation (4 + length (mEntityID m) + 16 + 8 + walEntryLen) @
     be_bytes 4 (of_nat (length (mEntityID m)) :: u32) @ mEntityID m @ mNodeID m @
     be_bytes 8 (mCounter m) @ encodeWALEntry (mEntry m)"

definition encodeMutationV2Record :: "u64 \<Rightarrow> WALMutation \<Rightarrow> bytes" where
  "encodeMutationV2Record seq m =
     recordHeader seq WALRecMutationV2 (4 + length (mEntityID m) + 16 + 8 + crdtEntryWireLen) @
     putMutationV2Payload m"

definition encodeCheckpointRecord :: "u64 \<Rightarrow> WALCheckpoint \<Rightarrow> bytes" where
  "encodeCheckpointRecord seq c =
     (if cHasCutSeq c
      then recordHeader seq WALRecCheckpointV2 (32 + 8 + 8 + 8 + (if cHasFingerprint c then 32 else 0)) @
           putCheckpointV2Payload c
      else recordHeader seq WALRecCheckpoint (32 + 8) @ cMerkleRoot c @ be_bytes 8 (cLamportHigh c))"

definition encodeClockAdvanceRecord :: "u64 \<Rightarrow> u64 \<Rightarrow> bytes" where
  "encodeClockAdvanceRecord seq advancedTo =
     recordHeader seq WALRecClockAdvance 8 @ putClockAdvancePayload advancedTo"

definition frameChecksummed :: "u64 \<Rightarrow> WALRecordType \<Rightarrow> nat \<Rightarrow> bytes \<Rightarrow> bytes" where
  "frameChecksummed seq innerType innerLen inner =
     recordHeader seq WALRecChecksummed (1 + innerLen + 4) @
     (innerType # inner) @ be_bytes 4 (crc32Checksum (innerType # inner))"

definition encodeMutationV2Checksummed :: "u64 \<Rightarrow> WALMutation \<Rightarrow> bytes" where
  "encodeMutationV2Checksummed seq m =
     frameChecksummed seq WALRecMutationV2 (4 + length (mEntityID m) + 16 + 8 + crdtEntryWireLen)
       (putMutationV2Payload m)"

definition encodeCheckpointChecksummed :: "u64 \<Rightarrow> WALCheckpoint \<Rightarrow> bytes" where
  "encodeCheckpointChecksummed seq c =
     (if cHasCutSeq c
      then frameChecksummed seq WALRecCheckpointV2 (32 + 8 + 8 + 8 + (if cHasFingerprint c then 32 else 0))
             (putCheckpointV2Payload c)
      else frameChecksummed seq WALRecCheckpoint (32 + 8) (cMerkleRoot c @ be_bytes 8 (cLamportHigh c)))"

definition encodeClockAdvanceChecksummed :: "u64 \<Rightarrow> u64 \<Rightarrow> bytes" where
  "encodeClockAdvanceChecksummed seq advancedTo =
     frameChecksummed seq WALRecClockAdvance 8 (putClockAdvancePayload advancedTo)"

definition unwrapChecksummed :: "bytes \<Rightarrow> walError + WALRecordType \<times> bytes" where
  "unwrapChecksummed payload =
     (if length payload < 5 then Inl ErrWALCorrupt
      else
        let body = take (length payload - 4) payload;
            want = of_be (drop (length payload - 4) payload)
        in if want \<noteq> crc32Checksum body then Inl ErrWALCorrupt
           else Inr (body ! 0, drop 1 body))"

section \<open>Appending\<close>

text \<open>The log: its open file, \<^verbatim>\<open>None\<close> after \<^verbatim>\<open>Close\<close>, and the sequence number of the next record.\<close>

record WAL =
  walFile :: "File option"
  nextSeq :: u64

text \<open>
  The part of an append that runs under the mutex: the record is written and its number consumed.
  A write to a closed log fails.
\<close>

definition writeRecord :: "nat option \<Rightarrow> bytes \<Rightarrow> WAL \<Rightarrow> walError option \<times> WAL" where
  "writeRecord wr rec w =
     (case walFile w of
        None \<Rightarrow> (Some ErrWrite, w)
      | Some f \<Rightarrow>
          (case fileWrite wr rec f of
             (True, f') \<Rightarrow> (None, w\<lparr>walFile := Some f', nextSeq := nextSeq w + 1\<rparr>)
           | (False, f') \<Rightarrow> (Some ErrWrite, w\<lparr>walFile := Some f'\<rparr>)))"

text \<open>The part after the mutex is released.\<close>

definition syncFile :: "bool \<Rightarrow> WAL \<Rightarrow> walError option \<times> WAL" where
  "syncFile ok w =
     (case walFile w of
        None \<Rightarrow> (Some ErrClosed, w)
      | Some f \<Rightarrow>
          (case fileSync ok f of
             (True, f') \<Rightarrow> (None, w\<lparr>walFile := Some f'\<rparr>)
           | (False, f') \<Rightarrow> (Some ErrFsync, w\<lparr>walFile := Some f'\<rparr>)))"

definition AppendMutation :: "nat option \<Rightarrow> bool \<Rightarrow> WALMutation \<Rightarrow> WAL \<Rightarrow> walError option \<times> WAL" where
  "AppendMutation wr ok m w =
     (case validateV2 m of
        Some err \<Rightarrow> (Some err, w)
      | None \<Rightarrow>
          (case writeRecord wr (encodeMutationV2Checksummed (nextSeq w) m) w of
             (Some err, w1) \<Rightarrow> (Some err, w1)
           | (None, w1) \<Rightarrow> syncFile ok w1))"

text \<open>The write loop of a batch; the number is the index at which it stops.\<close>

fun writeMutations ::
  "(nat \<Rightarrow> nat option) \<Rightarrow> nat \<Rightarrow> WALMutation list \<Rightarrow> WAL \<Rightarrow> (nat \<times> walError) option \<times> WAL" where
  "writeMutations wr i [] w = (None, w)"
| "writeMutations wr i (m # ms) w =
     (case validateV2 m of
        Some err \<Rightarrow> (Some (i, err), w)
      | None \<Rightarrow>
          (case writeRecord (wr i) (encodeMutationV2Checksummed (nextSeq w) m) w of
             (Some err, w1) \<Rightarrow> (Some (i, err), w1)
           | (None, w1) \<Rightarrow> writeMutations wr (Suc i) ms w1))"

definition AppendMutations ::
  "(nat \<Rightarrow> nat option) \<Rightarrow> bool \<Rightarrow> WALMutation list \<Rightarrow> WAL \<Rightarrow> (int \<times> walError option) \<times> WAL" where
  "AppendMutations wr ok ms w =
     (case writeMutations wr 0 ms w of
        (Some (i, err), w1) \<Rightarrow> ((int i, Some err), w1)
      | (None, w1) \<Rightarrow> (case syncFile ok w1 of (err, w2) \<Rightarrow> ((-1, err), w2)))"

definition AppendCheckpoint_wal :: "nat option \<Rightarrow> bool \<Rightarrow> WALCheckpoint \<Rightarrow> WAL \<Rightarrow> walError option \<times> WAL" where
  "AppendCheckpoint_wal wr ok c w =
     (case writeRecord wr (encodeCheckpointChecksummed (nextSeq w) c) w of
        (Some err, w1) \<Rightarrow> (Some err, w1)
      | (None, w1) \<Rightarrow> syncFile ok w1)"

definition AppendClockAdvance :: "nat option \<Rightarrow> bool \<Rightarrow> u64 \<Rightarrow> WAL \<Rightarrow> walError option \<times> WAL" where
  "AppendClockAdvance wr ok advancedTo w =
     (case writeRecord wr (encodeClockAdvanceChecksummed (nextSeq w) advancedTo) w of
        (Some err, w1) \<Rightarrow> (Some err, w1)
      | (None, w1) \<Rightarrow> syncFile ok w1)"

definition NextSeq :: "WAL \<Rightarrow> u64" where
  "NextSeq w = nextSeq w"

text \<open>\<^verbatim>\<open>Close\<close>: a last flush whose result is ignored; the bytes stay in the file system.\<close>

definition Close_wal :: "bool \<Rightarrow> WAL \<Rightarrow> WAL \<times> File option" where
  "Close_wal ok w =
     (case walFile w of
        None \<Rightarrow> (w, None)
      | Some f \<Rightarrow> (w\<lparr>walFile := None\<rparr>, Some (snd (fileSync ok f))))"

section \<open>Opening\<close>

text \<open>The 8-byte file header.\<close>

definition walHeader :: bytes where
  "walHeader = be_bytes 4 walMagic @ be_bytes 2 walVersion @ [0, 0]"

definition verifyHeader :: "bytes \<Rightarrow> walError option" where
  "verifyHeader data =
     (if length data < 8 then Some ErrHeaderRead
      else if of_be (gslice 0 4 data) \<noteq> walMagic then Some ErrBadMagic
      else if of_be (gslice 4 6 data) \<noteq> walVersion then Some ErrBadVersion
      else None)"

text \<open>The fields of a 13-byte record header.\<close>

definition hdrSeq :: "bytes \<Rightarrow> u64" where "hdrSeq rest = of_be (gslice 0 8 rest)"
definition hdrType :: "bytes \<Rightarrow> WALRecordType" where "hdrType rest = rest ! 8"
definition hdrLen :: "bytes \<Rightarrow> u32" where "hdrLen rest = of_be (gslice 9 13 rest)"

text \<open>The scan loop over the bytes after the header, from offset \<^verbatim>\<open>lastGood\<close>.\<close>

function scanLoop :: "bytes \<Rightarrow> u64 \<Rightarrow> nat \<Rightarrow> nat \<Rightarrow> u64 \<times> nat \<times> nat" where
  "scanLoop rest next cnt lastGood =
     (if length rest < 13 \<or> length rest < 13 + unat (hdrLen rest) then (next, cnt, lastGood)
      else
        let seq = hdrSeq rest;
            n = 13 + unat (hdrLen rest)
        in scanLoop (drop n rest) (if seq \<ge> next then seq + 1 else next) (Suc cnt) (lastGood + n))"
  by pat_completeness auto
termination
  by (relation "measure (\<lambda>(rest, _). length rest)") auto

declare scanLoop.simps [simp del]

definition scanRecords :: "bytes \<Rightarrow> u64 \<times> nat \<times> nat" where
  "scanRecords data = scanLoop (drop 8 data) 0 0 8"

definition OpenWAL :: "nat option \<Rightarrow> bool \<Rightarrow> File \<Rightarrow> walError + WAL" where
  "OpenWAL wr ok f =
     (if fbytes f = []
      then (case fileWrite wr walHeader f of
              (False, _) \<Rightarrow> Inl ErrWrite
            | (True, f1) \<Rightarrow>
                (case fileSync ok f1 of
                   (False, _) \<Rightarrow> Inl ErrFsync
                 | (True, f2) \<Rightarrow> Inr \<lparr>walFile = Some f2, nextSeq = 0\<rparr>))
      else
        (case verifyHeader (fbytes f) of
           Some err \<Rightarrow> Inl err
         | None \<Rightarrow>
             (case scanRecords (fbytes f) of
                (seq, _, lastGood) \<Rightarrow>
                  Inr \<lparr>walFile = Some (f\<lparr>fbytes := take lastGood (fbytes f),
                                          fsynced := min (fsynced f) lastGood\<rparr>),
                       nextSeq = seq\<rparr>)))"

section \<open>Replay\<close>

record WALRecord =
  recType :: WALRecordType
  recMutation :: WALMutation
  recAdvance :: u64
  recSeq :: u64

record Replayed =
  Mutations :: "WALMutation list"
  Advances :: "u64 list"
  Ordered :: "WALRecord list"
  FinalCheckpt :: WALCheckpoint
  HasCheckpoint :: bool
  LamportHigh :: u64
  repNextSeq :: u64
  FinalCheckptSeq :: u64
  LegacyCheckpoint :: bool
  SeqContiguityVerified :: bool
  RecordsVerified :: nat
  ClockHighClamped :: bool
  ClockHighRaw :: u64

text \<open>Zero values of the structs.\<close>

definition zeroEntry :: CRDTEntry where
  "zeroEntry =
     \<lparr>PayloadDigest = replicate 32 0, OriginNodeID = replicate 16 0, DotNodeID = replicate 16 0,
      DotCounter = 0, SystemTime = 0, ValidTimeStart = 0, ValidTimeEnd = 0, AssertionTime = 0,
      DecisionTime = 0, H3Index = 0\<rparr>"

definition zeroMutation :: WALMutation where
  "zeroMutation =
     \<lparr>mEntityID = [], mFull = zeroEntry, mNodeID = replicate 16 0, mCounter = 0,
      mEntry = walEntryOf zeroEntry, mLegacy = False\<rparr>"

definition zeroCheckpoint :: WALCheckpoint where
  "zeroCheckpoint =
     \<lparr>cMerkleRoot = replicate 32 0, cFingerprint = replicate 32 0, cLamportHigh = 0, cCutSeq = 0,
      cClockHigh = 0, cHasCutSeq = False, cHasFingerprint = False\<rparr>"

definition zeroReplayed :: Replayed where
  "zeroReplayed =
     \<lparr>Mutations = [], Advances = [], Ordered = [], FinalCheckpt = zeroCheckpoint,
      HasCheckpoint = False, LamportHigh = 0, repNextSeq = 0, FinalCheckptSeq = 0,
      LegacyCheckpoint = False, SeqContiguityVerified = False, RecordsVerified = 0,
      ClockHighClamped = False, ClockHighRaw = 0\<rparr>"

definition decodeMutationPayload :: "bytes \<Rightarrow> WALMutation option" where
  "decodeMutationPayload p =
     (if length p < 4 then None
      else
        let n = unat (of_be (gslice 0 4 p) :: u32) in
        if length p < 4 + n + 16 + 8 + walEntryLen then None
        else
          let en = decodeWALEntry (gslice (28 + n) (28 + n + walEntryLen) p) in
          Some \<lparr>mEntityID = gslice 4 (4 + n) p,
                mFull = zeroEntry\<lparr>PayloadDigest := walPayloadDigest en, OriginNodeID := walOriginNodeID en,
                   DotNodeID := walDotNodeID en, DotCounter := walDotCounter en,
                   SystemTime := walSystemTime en\<rparr>,
                mNodeID = gslice (4 + n) (20 + n) p, mCounter = of_be (gslice (20 + n) (28 + n) p),
                mEntry = en, mLegacy = True\<rparr>)"

definition decodeMutationV2Payload :: "bytes \<Rightarrow> WALMutation option" where
  "decodeMutationV2Payload p =
     (if length p < 4 then None
      else
        let n = unat (of_be (gslice 0 4 p) :: u32) in
        if length p < 4 + n + 16 + 8 + crdtEntryWireLen then None
        else
          let full = decodeCRDTEntry (gslice (28 + n) (28 + n + crdtEntryWireLen) p) in
          Some \<lparr>mEntityID = gslice 4 (4 + n) p, mFull = full,
                mNodeID = gslice (4 + n) (20 + n) p, mCounter = of_be (gslice (20 + n) (28 + n) p),
                mEntry = walEntryOf full, mLegacy = False\<rparr>)"

definition decodeCheckpoint :: "bytes \<Rightarrow> WALCheckpoint option" where
  "decodeCheckpoint p =
     (if length p < 40 then None
      else Some (zeroCheckpoint\<lparr>cMerkleRoot := gslice 0 32 p, cLamportHigh := of_be (gslice 32 40 p)\<rparr>))"

text \<open>
  The checkpoint of the new format. The clock value is clamped to what the log itself shows when it is
  not credible; the last two components say that this happened and with which raw value.
\<close>

definition decodeCheckpointV2 :: "u64 \<Rightarrow> bytes \<Rightarrow> (WALCheckpoint \<times> bool \<times> u64) option" where
  "decodeCheckpointV2 logHigh p =
     (if length p < 48 then None
      else
        let lh = of_be (gslice 32 40 p);
            raw = (if length p \<ge> 56 then of_be (gslice 48 56 p) else 0);
            clamp = (length p \<ge> 56 \<and> raw > MaxCredibleClockHigh);
            ch = (if clamp then (if lh > logHigh then lh else logHigh) else raw);
            fp = (length p \<ge> 88)
        in Some (zeroCheckpoint\<lparr>cMerkleRoot := gslice 0 32 p, cLamportHigh := lh,
                    cCutSeq := of_be (gslice 40 48 p), cHasCutSeq := True, cClockHigh := ch,
                    cFingerprint := (if fp then gslice 56 88 p else replicate 32 0),
                    cHasFingerprint := fp\<rparr>, clamp, raw))"

definition raiseHigh :: "u64 \<Rightarrow> Replayed \<Rightarrow> Replayed" where
  "raiseHigh c out = (if c > LamportHigh out then out\<lparr>LamportHigh := c\<rparr> else out)"

text \<open>What one mutation record does to the result, and what a checkpoint record does.\<close>

definition replayMutation :: "u64 \<Rightarrow> WALRecordType \<Rightarrow> WALMutation \<Rightarrow> Replayed \<Rightarrow> Replayed" where
  "replayMutation seq ty m out =
     raiseHigh (mCounter m)
       (out\<lparr>Mutations := Mutations out @ [m],
            Ordered := Ordered out @ [\<lparr>recType = ty, recMutation = m, recAdvance = 0, recSeq = seq\<rparr>]\<rparr>)"

definition replayAdvance :: "u64 \<Rightarrow> u64 \<Rightarrow> Replayed \<Rightarrow> Replayed" where
  "replayAdvance seq a out =
     raiseHigh a
       (out\<lparr>Advances := Advances out @ [a],
            Ordered := Ordered out @ [\<lparr>recType = WALRecClockAdvance, recMutation = zeroMutation,
                                       recAdvance = a, recSeq = seq\<rparr>]\<rparr>)"

definition replayCheckpoint :: "u64 \<Rightarrow> WALCheckpoint \<Rightarrow> Replayed \<Rightarrow> Replayed" where
  "replayCheckpoint seq c out =
     raiseHigh (cLamportHigh c)
       (out\<lparr>FinalCheckpt := c, HasCheckpoint := True, FinalCheckptSeq := seq,
            LegacyCheckpoint := \<not> cHasFingerprint c\<rparr>)"

definition replayRecord :: "u64 \<Rightarrow> WALRecordType \<Rightarrow> bytes \<Rightarrow> Replayed \<Rightarrow> walError + Replayed" where
  "replayRecord seq ty p out =
     (if ty = WALRecMutation then
        (case decodeMutationPayload p of None \<Rightarrow> Inl ErrDecodeMutation
         | Some m \<Rightarrow> Inr (replayMutation seq WALRecMutation m out))
      else if ty = WALRecMutationV2 then
        (case decodeMutationV2Payload p of None \<Rightarrow> Inl ErrDecodeMutation
         | Some m \<Rightarrow> Inr (replayMutation seq WALRecMutationV2 m out))
      else if ty = WALRecClockAdvance then
        (if length p < 8 then Inl ErrShortClockAdvance
         else Inr (replayAdvance seq (of_be (gslice 0 8 p)) out))
      else if ty = WALRecCheckpoint then
        (case decodeCheckpoint p of None \<Rightarrow> Inl ErrShortCheckpoint
         | Some c \<Rightarrow> Inr (replayCheckpoint seq c out))
      else if ty = WALRecCheckpointV2 then
        (case decodeCheckpointV2 (LamportHigh out) p of None \<Rightarrow> Inl ErrShortCheckpoint
         | Some (c, clamp, raw) \<Rightarrow>
             let out1 = (if clamp then out\<lparr>ClockHighClamped := True,
                                           ClockHighRaw := max (ClockHighRaw out) raw\<rparr> else out)
             in Inr (replayCheckpoint seq c out1))
      else Inl ErrUnknownType)"

definition openPayload :: "WALRecordType \<Rightarrow> bytes \<Rightarrow> walError + WALRecordType \<times> bytes" where
  "openPayload ty p = (if ty = WALRecChecksummed then unwrapChecksummed p else Inr (ty, p))"

definition countRecord :: "u64 \<Rightarrow> Replayed \<Rightarrow> Replayed" where
  "countRecord seq out =
     out\<lparr>RecordsVerified := Suc (RecordsVerified out),
         repNextSeq := (if seq \<ge> repNextSeq out then seq + 1 else repNextSeq out)\<rparr>"

text \<open>The read loop; \<^verbatim>\<open>rest\<close> is what is left of the file. A short header or payload ends it.\<close>

function replayLoop :: "bytes \<Rightarrow> u64 \<Rightarrow> Replayed \<Rightarrow> walError + Replayed" where
  "replayLoop rest prevSeq out =
     (if length rest < 13 then Inr out
      else if hdrLen rest > maxRecordPayloadLen then Inl ErrPayloadLen
      else if RecordsVerified out = 0 \<and> hdrSeq rest \<noteq> 0 then Inl ErrWALSeqGap
      else if RecordsVerified out > 0 \<and> hdrSeq rest \<noteq> prevSeq + 1 then Inl ErrWALSeqGap
      else if length rest < 13 + unat (hdrLen rest) then Inr out
      else
        let seq = hdrSeq rest;
            n = 13 + unat (hdrLen rest);
            out1 = countRecord seq out
        in (case openPayload (hdrType rest) (gslice 13 n rest) of
              Inl err \<Rightarrow> Inl err
            | Inr (ty, p) \<Rightarrow>
                (case replayRecord seq ty p out1 of
                   Inl err \<Rightarrow> Inl err
                 | Inr out2 \<Rightarrow> replayLoop (drop n rest) seq out2)))"
  by pat_completeness auto
termination
  by (relation "measure (\<lambda>(rest, _). length rest)") auto

declare replayLoop.simps [simp del]

text \<open>\<^verbatim>\<open>ReplayWAL\<close> on the content of the file, or on a missing file.\<close>

definition ReplayWAL :: "bytes option \<Rightarrow> walError + Replayed" where
  "ReplayWAL file =
     (case file of
        None \<Rightarrow> Inl ErrNotExist
      | Some data \<Rightarrow>
          (case verifyHeader data of
             Some err \<Rightarrow> Inl err
           | None \<Rightarrow>
               (case replayLoop (drop 8 data) 0 zeroReplayed of
                  Inl err \<Rightarrow> Inl err
                | Inr out \<Rightarrow> Inr (out\<lparr>SeqContiguityVerified := True\<rparr>))))"

end
