(* ===== verification/Wal_Props.thy ===== *)
theory Wal_Props
  imports Wal
begin

text \<open>
  What the write-ahead log promises. A log is described by the list of items that were appended to it
  and a torn tail; scanning and replaying it give back exactly these items. On top of that: runs of
  concurrent appends, failures, crashes and reopens as a step relation, and the damage that the replay
  detects or misses.
\<close>

section \<open>Round trips of the record codecs\<close>

definition sized_entry :: "CRDTEntry \<Rightarrow> bool" where
  "sized_entry e \<longleftrightarrow> length (PayloadDigest e) = 32 \<and> length (OriginNodeID e) = 16 \<and> length (DotNodeID e) = 16"

lemma length_encodeCRDTEntry: "sized_entry e \<Longrightarrow> length (encodeCRDTEntry e) = 120"
  by (simp add: sized_entry_def encodeCRDTEntry_def)

lemma gslice_skip: "length xs \<le> i \<Longrightarrow> gslice i j (xs @ ys) = gslice (i - length xs) (j - length xs) ys"
  by (simp add: gslice_def)

lemma gslice_take_front: "length xs = j - i \<Longrightarrow> i = 0 \<Longrightarrow> gslice i j (xs @ ys) = xs"
  by (simp add: gslice_def)

lemma gslice_whole: "length xs = j \<Longrightarrow> gslice 0 j xs = xs"
  by (simp add: gslice_def)

lemmas gslice_walk = gslice_skip gslice_take_front gslice_whole

lemma decode_encode_CRDTEntry [codec_simps]:
  "sized_entry e \<Longrightarrow> decodeCRDTEntry (encodeCRDTEntry e) = e"
  by (simp add: sized_entry_def encodeCRDTEntry_def decodeCRDTEntry_def gslice_walk of_be_be_bytes)

lemma length_putMutationV2Payload:
  "sized_entry (mFull m) \<Longrightarrow> length (mNodeID m) = 16 \<Longrightarrow>
   length (putMutationV2Payload m) = 4 + length (mEntityID m) + 16 + 8 + crdtEntryWireLen"
  by (simp add: putMutationV2Payload_def length_encodeCRDTEntry crdtEntryWireLen_def)

lemma decode_putMutationV2Payload:
  assumes "sized_entry (mFull m)" "length (mNodeID m) = 16" "length (mEntityID m) < 2 ^ 32"
    and "mEntry m = walEntryOf (mFull m)" "\<not> mLegacy m"
  shows "decodeMutationV2Payload (putMutationV2Payload m) = Some m"
proof -
  have n: "unat (of_nat (length (mEntityID m)) :: u32) = length (mEntityID m)"
    using assms(3) by (simp add: unat_of_nat)
  show ?thesis
    using assms n length_putMutationV2Payload [OF assms(1,2)]
    by (simp add: decodeMutationV2Payload_def Let_def)
      (simp add: putMutationV2Payload_def gslice_walk of_be_be_bytes length_encodeCRDTEntry
         crdtEntryWireLen_def decode_encode_CRDTEntry)
qed

section \<open>Items and the bytes of a log\<close>

datatype WALItem = ItemMutation WALMutation | ItemAdvance u64 | ItemCheckpoint WALCheckpoint

fun encodeItem :: "u64 \<Rightarrow> WALItem \<Rightarrow> bytes" where
  "encodeItem seq (ItemMutation m) = encodeMutationV2Checksummed seq m"
| "encodeItem seq (ItemAdvance a) = encodeClockAdvanceChecksummed seq a"
| "encodeItem seq (ItemCheckpoint c) = encodeCheckpointChecksummed seq c"

text \<open>
  Items as the bridge appends them. The bound on the entity is the one that the replay enforces on the
  whole record and no append path checks.
\<close>

fun item_ok :: "WALItem \<Rightarrow> bool" where
  "item_ok (ItemMutation m) \<longleftrightarrow>
     validateV2 m = None \<and> sized_entry (mFull m) \<and> length (mNodeID m) = 16 \<and>
     mEntry m = walEntryOf (mFull m) \<and> 153 + length (mEntityID m) \<le> 4194304"
| "item_ok (ItemAdvance a) \<longleftrightarrow> True"
| "item_ok (ItemCheckpoint c) \<longleftrightarrow>
     cHasCutSeq c \<and> length (cMerkleRoot c) = 32 \<and> length (cFingerprint c) = 32 \<and>
     (cHasFingerprint c \<or> cFingerprint c = replicate 32 0)"

fun innerType :: "WALItem \<Rightarrow> WALRecordType" where
  "innerType (ItemMutation m) = WALRecMutationV2"
| "innerType (ItemAdvance a) = WALRecClockAdvance"
| "innerType (ItemCheckpoint c) = WALRecCheckpointV2"

fun innerPayload :: "WALItem \<Rightarrow> bytes" where
  "innerPayload (ItemMutation m) = putMutationV2Payload m"
| "innerPayload (ItemAdvance a) = putClockAdvancePayload a"
| "innerPayload (ItemCheckpoint c) = putCheckpointV2Payload c"

lemma encodeItem_frame:
  "item_ok it \<Longrightarrow>
   encodeItem seq it = frameChecksummed seq (innerType it) (length (innerPayload it)) (innerPayload it)"
  by (cases it)
    (auto simp: encodeMutationV2Checksummed_def encodeClockAdvanceChecksummed_def
       encodeCheckpointChecksummed_def length_putMutationV2Payload putClockAdvancePayload_def
       putCheckpointV2Payload_def)

lemma innerPayload_bound: "item_ok it \<Longrightarrow> length (innerPayload it) + 5 \<le> 4194304"
  by (cases it)
    (auto simp: length_putMutationV2Payload crdtEntryWireLen_def putClockAdvancePayload_def
       putCheckpointV2Payload_def)

text \<open>What the replay makes of an item.\<close>

definition clampCheckpoint :: "u64 \<Rightarrow> WALCheckpoint \<Rightarrow> WALCheckpoint" where
  "clampCheckpoint logHigh c =
     (if cClockHigh c > MaxCredibleClockHigh then c\<lparr>cClockHigh := max (cLamportHigh c) logHigh\<rparr> else c)"

fun replayItem :: "u64 \<Rightarrow> WALItem \<Rightarrow> Replayed \<Rightarrow> Replayed" where
  "replayItem seq (ItemMutation m) out = replayMutation seq WALRecMutationV2 m out"
| "replayItem seq (ItemAdvance a) out = replayAdvance seq a out"
| "replayItem seq (ItemCheckpoint c) out =
     replayCheckpoint seq (clampCheckpoint (LamportHigh out) c)
       (if cClockHigh c > MaxCredibleClockHigh
        then out\<lparr>ClockHighClamped := True, ClockHighRaw := max (ClockHighRaw out) (cClockHigh c)\<rparr>
        else out)"

lemma validateV2_not_legacy: "validateV2 m = None \<Longrightarrow> \<not> mLegacy m"
  by (auto simp: validateV2_def split: if_splits)

lemma decode_putCheckpointV2Payload:
  assumes "item_ok (ItemCheckpoint c)"
  shows "decodeCheckpointV2 h (putCheckpointV2Payload c) =
    Some (clampCheckpoint h c, cClockHigh c > MaxCredibleClockHigh, cClockHigh c)"
  using assms
  by (cases c)
    (auto simp: decodeCheckpointV2_def putCheckpointV2Payload_def gslice_walk of_be_be_bytes Let_def
       zeroCheckpoint_def clampCheckpoint_def max_def)

lemma replayRecord_item:
  assumes "item_ok it"
  shows "replayRecord seq (innerType it) (innerPayload it) out = Inr (replayItem seq it out)"
proof (cases it)
  case (ItemMutation m)
  then have "decodeMutationV2Payload (putMutationV2Payload m) = Some m"
    using assms by (auto intro!: decode_putMutationV2Payload simp: validateV2_not_legacy)
  then show ?thesis using ItemMutation by (simp add: replayRecord_def WALRec_defs)
next
  case (ItemAdvance a)
  then show ?thesis
    by (simp add: replayRecord_def WALRec_defs putClockAdvancePayload_def gslice_whole of_be_be_bytes)
next
  case (ItemCheckpoint c)
  then show ?thesis
    using decode_putCheckpointV2Payload [of c "LamportHigh out"] assms
    by (simp add: replayRecord_def WALRec_defs Let_def)
qed

section \<open>One record in the file\<close>

text \<open>A checksummed record with any body; the stored checksum may be wrong.\<close>

definition rawFrame :: "u64 \<Rightarrow> bytes \<Rightarrow> u32 \<Rightarrow> bytes" where
  "rawFrame seq body crc =
     recordHeader seq WALRecChecksummed (length body + 4) @ body @ be_bytes 4 crc"

lemma frame_raw:
  "n = length inner \<Longrightarrow>
   frameChecksummed seq ty n inner = rawFrame seq (ty # inner) (crc32Checksum (ty # inner))"
  by (simp add: frameChecksummed_def rawFrame_def)

lemma length_rawFrame [simp]: "length (rawFrame seq body crc) = 17 + length body"
  by (simp add: rawFrame_def recordHeader_def)

lemma rawFrame_fields:
  assumes "length body + 4 \<le> 4194304"
  shows "hdrSeq (rawFrame seq body crc @ post) = seq"
    and "hdrType (rawFrame seq body crc @ post) = WALRecChecksummed"
    and "unat (hdrLen (rawFrame seq body crc @ post)) = length body + 4"
    and "\<not> hdrLen (rawFrame seq body crc @ post) > maxRecordPayloadLen"
    and "gslice 13 (17 + length body) (rawFrame seq body crc @ post) = body @ be_bytes 4 crc"
proof -
  show "hdrSeq (rawFrame seq body crc @ post) = seq"
    by (simp add: hdrSeq_def rawFrame_def recordHeader_def gslice_walk of_be_be_bytes)
  show "hdrType (rawFrame seq body crc @ post) = WALRecChecksummed"
    by (simp add: hdrType_def rawFrame_def recordHeader_def nth_append)
  have h: "hdrLen (rawFrame seq body crc @ post) = of_nat (length body + 4)"
    by (simp add: hdrLen_def rawFrame_def recordHeader_def gslice_walk of_be_be_bytes gslice_def)
  show u: "unat (hdrLen (rawFrame seq body crc @ post)) = length body + 4"
    unfolding h using assms by (simp add: unat_of_nat del: of_nat_add)
  show "\<not> hdrLen (rawFrame seq body crc @ post) > maxRecordPayloadLen"
    using assms u by (simp add: word_less_nat_alt maxRecordPayloadLen_def)
  show "gslice 13 (17 + length body) (rawFrame seq body crc @ post) = body @ be_bytes 4 crc"
    by (simp add: rawFrame_def recordHeader_def gslice_walk gslice_def)
qed

lemma unwrap_raw:
  "unwrapChecksummed (body @ be_bytes 4 crc) =
     (if body = [] \<or> crc \<noteq> crc32Checksum body then Inl ErrWALCorrupt else Inr (body ! 0, drop 1 body))"
  by (auto simp: unwrapChecksummed_def of_be_be_bytes Let_def not_less_eq_eq Suc_le_eq)

text \<open>The sequence number that the replay expects next.\<close>

definition seq_ok :: "u64 \<Rightarrow> u64 \<Rightarrow> Replayed \<Rightarrow> bool" where
  "seq_ok seq prevSeq out \<longleftrightarrow> (if RecordsVerified out = 0 then seq = 0 else seq = prevSeq + 1)"

lemma replayLoop_raw:
  assumes "length body + 4 \<le> 4194304" "seq_ok seq prevSeq out"
  shows "replayLoop (rawFrame seq body crc @ post) prevSeq out =
    (if body = [] \<or> crc \<noteq> crc32Checksum body then Inl ErrWALCorrupt
     else case replayRecord seq (body ! 0) (drop 1 body) (countRecord seq out) of
            Inl err \<Rightarrow> Inl err | Inr out2 \<Rightarrow> replayLoop post seq out2)"
proof -
  let ?r = "rawFrame seq body crc @ post"
  note f = rawFrame_fields [OF assms(1), of seq crc post]
  have l: "\<not> length ?r < 13" "\<not> length ?r < 13 + unat (hdrLen ?r)" "13 + unat (hdrLen ?r) = 17 + length body"
    by (simp_all add: f(3))
  have s: "\<not> (RecordsVerified out = 0 \<and> seq \<noteq> 0)" "\<not> (RecordsVerified out > 0 \<and> seq \<noteq> prevSeq + 1)"
    using assms(2) by (auto simp: seq_ok_def split: if_splits)
  have d: "drop (17 + length body) ?r = post" by simp
  show ?thesis
    unfolding replayLoop.simps [of ?r] l(3) f(1,2) f(5) d Let_def openPayload_def unwrap_raw
    using l(1,2) f(4) s by (simp only: l(3) if_False simp_thms if_True sum.case prod.case split: if_split) simp
qed

lemma replayLoop_item:
  assumes "item_ok it" "seq_ok seq prevSeq out"
  shows "replayLoop (encodeItem seq it @ post) prevSeq out =
    replayLoop post seq (replayItem seq it (countRecord seq out))"
  using replayLoop_raw [of "innerType it # innerPayload it" seq prevSeq out]
    innerPayload_bound [OF assms(1)] assms replayRecord_item [OF assms(1)]
  by (simp add: encodeItem_frame frame_raw)

lemma replayLoop_short: "length rest < 13 \<Longrightarrow> replayLoop rest prevSeq out = Inr out"
  by (simp add: replayLoop.simps)

lemma gslice_take: "j \<le> k \<Longrightarrow> gslice i j (take k xs) = gslice i j xs"
  by (cases "i \<le> j") (simp_all add: gslice_def drop_take min_def)

lemma hdr_take:
  assumes "13 \<le> k" "13 \<le> length xs"
  shows "hdrSeq (take k xs) = hdrSeq xs" "hdrType (take k xs) = hdrType xs" "hdrLen (take k xs) = hdrLen xs"
  using assms by (simp_all add: hdrSeq_def hdrType_def hdrLen_def gslice_take)

text \<open>A record that the file ends in is dropped.\<close>

lemma replayLoop_cut:
  assumes "\<not> hdrLen r > maxRecordPayloadLen" "13 \<le> length r" "seq_ok (hdrSeq r) prevSeq out"
    and "length (take k r) < 13 + unat (hdrLen r)"
  shows "replayLoop (take k r) prevSeq out = Inr out"
proof (cases "k < 13")
  case True
  then show ?thesis by (simp add: replayLoop_short)
next
  case False
  then show ?thesis
    using assms hdr_take [of k r] by (subst replayLoop.simps) (auto simp: seq_ok_def split: if_splits)
qed

lemma item_fields:
  assumes "item_ok it"
  shows "hdrSeq (encodeItem seq it @ post) = seq" "\<not> hdrLen (encodeItem seq it @ post) > maxRecordPayloadLen"
    and "13 + unat (hdrLen (encodeItem seq it @ post)) = length (encodeItem seq it)"
  using rawFrame_fields [of "innerType it # innerPayload it" seq _ post] innerPayload_bound [OF assms]
  by (simp_all add: encodeItem_frame [OF assms] frame_raw)

lemma length_encodeItem: "item_ok it \<Longrightarrow> length (encodeItem seq it) = 18 + length (innerPayload it)"
  by (simp add: encodeItem_frame frame_raw)

lemma replayLoop_torn:
  assumes "item_ok it" "seq_ok seq prevSeq out" "k < length (encodeItem seq it)"
  shows "replayLoop (take k (encodeItem seq it)) prevSeq out = Inr out"
  using item_fields [OF assms(1), of seq "[]"] assms(2,3) length_encodeItem [OF assms(1)]
  by (intro replayLoop_cut) auto

section \<open>The whole log\<close>

primrec logBytes :: "nat \<Rightarrow> WALItem list \<Rightarrow> bytes" where
  "logBytes i [] = []"
| "logBytes i (x # xs) = encodeItem (of_nat i) x @ logBytes (Suc i) xs"

primrec replayItems :: "nat \<Rightarrow> WALItem list \<Rightarrow> Replayed \<Rightarrow> Replayed" where
  "replayItems i [] out = out"
| "replayItems i (x # xs) out =
     replayItems (Suc i) xs (replayItem (of_nat i) x (countRecord (of_nat i) out))"

definition torn_ok :: "nat \<Rightarrow> bytes \<Rightarrow> bool" where
  "torn_ok n torn \<longleftrightarrow> torn = [] \<or>
     (\<exists>it k. item_ok it \<and> k < length (encodeItem (of_nat n) it) \<and> torn = take k (encodeItem (of_nat n) it))"

definition items_ok :: "WALItem list \<Rightarrow> bool" where
  "items_ok items \<longleftrightarrow> (\<forall>it\<in>set items. item_ok it)"

lemma items_ok_simps [simp]:
  "items_ok []" "items_ok (it # items) \<longleftrightarrow> item_ok it \<and> items_ok items"
  "items_ok (xs @ ys) \<longleftrightarrow> items_ok xs \<and> items_ok ys"
  by (auto simp: items_ok_def)

lemma items_ok_take: "items_ok items \<Longrightarrow> items_ok (take j items)"
  by (auto simp: items_ok_def dest: in_set_takeD)

lemma logBytes_append: "logBytes i (xs @ ys) = logBytes i xs @ logBytes (i + length xs) ys"
  by (induction xs arbitrary: i) simp_all

lemma replayItems_append:
  "replayItems i (xs @ ys) out = replayItems (i + length xs) ys (replayItems i xs out)"
  by (induction xs arbitrary: i out) simp_all

lemma raiseHigh_frame [simp]:
  "RecordsVerified (raiseHigh c out) = RecordsVerified out"
  "Mutations (raiseHigh c out) = Mutations out" "Advances (raiseHigh c out) = Advances out"
  "Ordered (raiseHigh c out) = Ordered out" "FinalCheckpt (raiseHigh c out) = FinalCheckpt out"
  "HasCheckpoint (raiseHigh c out) = HasCheckpoint out"
  "FinalCheckptSeq (raiseHigh c out) = FinalCheckptSeq out"
  "LamportHigh (raiseHigh c out) = max (LamportHigh out) c"
  by (auto simp: raiseHigh_def max_def)

lemma RecordsVerified_replayItem [simp]: "RecordsVerified (replayItem seq it out) = RecordsVerified out"
  by (cases it) (simp_all add: replayMutation_def replayAdvance_def replayCheckpoint_def)

lemma replayLoop_log:
  assumes "items_ok items" "torn_ok (i + length items) torn" "RecordsVerified out = i"
    and "i > 0 \<Longrightarrow> of_nat i = prevSeq + 1"
  shows "replayLoop (logBytes i items @ torn) prevSeq out = Inr (replayItems i items out)"
  using assms
proof (induction items arbitrary: i prevSeq out)
  case Nil
  have "seq_ok (of_nat i) prevSeq out" using Nil.prems(3,4) by (cases i) (simp_all add: seq_ok_def)
  then show ?case
    using Nil.prems(2) replayLoop_torn [of _ "of_nat i" prevSeq out]
    by (auto simp: torn_ok_def replayLoop_short)
next
  case (Cons x xs)
  let ?out = "replayItem (of_nat i) x (countRecord (of_nat i) out)"
  have s: "seq_ok (of_nat i) prevSeq out" using Cons.prems(3,4) by (cases i) (simp_all add: seq_ok_def)
  have "RecordsVerified ?out = Suc i" using Cons.prems(3) by (simp add: countRecord_def)
  then have "replayLoop (logBytes (Suc i) xs @ torn) (of_nat i) ?out = Inr (replayItems (Suc i) xs ?out)"
    using Cons.prems(1,2) by (intro Cons.IH) simp_all
  then show ?case using Cons.prems(1) replayLoop_item [OF _ s, of x] by simp
qed

lemma scanLoop_short: "length rest < 13 \<Longrightarrow> scanLoop rest n c g = (n, c, g)"
  by (simp add: scanLoop.simps)

lemma scanLoop_item:
  assumes "item_ok it"
  shows "scanLoop (encodeItem seq it @ post) seq c g =
    scanLoop post (seq + 1) (Suc c) (g + length (encodeItem seq it))"
proof -
  let ?r = "encodeItem seq it @ post"
  note f = item_fields [OF assms, of seq post]
  have "\<not> (length ?r < 13 \<or> length ?r < 13 + unat (hdrLen ?r))"
    using f(3) length_encodeItem [OF assms] by simp
  then show ?thesis using f(1,3) by (subst scanLoop.simps) (simp add: Let_def)
qed

lemma scanLoop_torn:
  assumes "item_ok it" "k < length (encodeItem seq it)"
  shows "scanLoop (take k (encodeItem seq it)) n c g = (n, c, g)"
proof (cases "k < 13")
  case True
  then show ?thesis by (simp add: scanLoop_short)
next
  case False
  then show ?thesis
    using assms(2) item_fields [OF assms(1), of seq "[]"] length_encodeItem [OF assms(1)] hdr_take [of k "encodeItem seq it"]
    by (subst scanLoop.simps) simp
qed

lemma scanLoop_log:
  assumes "items_ok items" "torn_ok (i + length items) torn"
  shows "scanLoop (logBytes i items @ torn) (of_nat i) c g =
    (of_nat (i + length items), c + length items, g + length (logBytes i items))"
  using assms
proof (induction items arbitrary: i c g)
  case Nil
  then show ?case by (auto simp: torn_ok_def scanLoop_torn scanLoop_short)
next
  case (Cons x xs)
  then show ?case using Cons.IH [of "Suc i" "Suc c" "g + length (encodeItem (of_nat i) x)"]
    by (simp add: scanLoop_item add.commute [of 1])
qed

text \<open>Cutting a log anywhere leaves the log of its first items with a torn tail.\<close>

lemma logBytes_take_mono: "s \<le> t \<Longrightarrow> length (logBytes i (take s items)) \<le> length (logBytes i (take t items))"
proof -
  assume "s \<le> t"
  then have "take t items = take s items @ take (t - s) (drop s items)" by (simp add: take_add [symmetric])
  then show ?thesis by (simp add: logBytes_append)
qed

lemma logBytes_cut:
  assumes "items_ok items" "torn_ok (i + length items) torn"
  shows "\<exists>j torn'. j \<le> length items \<and> take k (logBytes i items @ torn) = logBytes i (take j items) @ torn' \<and>
    torn_ok (i + j) torn' \<and> (\<forall>s \<le> length items. length (logBytes i (take s items)) \<le> k \<longrightarrow> s \<le> j)"
  using assms
proof (induction items arbitrary: i k)
  case Nil
  then have "torn_ok i (take k torn)" by (auto simp: torn_ok_def) (metis le_less_trans min.cobounded2 take_take)
  then show ?case by (intro exI [of _ 0]) auto
next
  case (Cons x xs)
  let ?e = "encodeItem (of_nat i) x"
  show ?case
  proof (cases "k < length ?e")
    case True
    have "s = 0" if "length (logBytes i (take s (x # xs))) \<le> k" for s
      using that True by (cases s) auto
    then show ?thesis using True Cons.prems(1)
      by (intro exI [of _ 0] exI [of _ "take k ?e"]) (auto simp: torn_ok_def)
  next
    case False
    obtain j torn' where j: "j \<le> length xs"
      "take (k - length ?e) (logBytes (Suc i) xs @ torn) = logBytes (Suc i) (take j xs) @ torn'"
      "torn_ok (Suc i + j) torn'"
      "\<forall>s \<le> length xs. length (logBytes (Suc i) (take s xs)) \<le> k - length ?e \<longrightarrow> s \<le> j"
      using Cons.IH [of "Suc i" "k - length ?e"] Cons.prems by auto
    have "s \<le> Suc j" if "s \<le> length (x # xs)" "length (logBytes i (take s (x # xs))) \<le> k" for s
      using that j(4) False by (cases s) auto
    then show ?thesis using j False
      by (intro exI [of _ "Suc j"] exI [of _ torn']) auto
  qed
qed

lemma verifyHeader_walHeader: "verifyHeader (walHeader @ rest) = None"
  by (simp add: verifyHeader_def walHeader_def gslice_walk of_be_be_bytes)

lemma length_walHeader [simp]: "length walHeader = 8"
  by (simp add: walHeader_def)

lemma walHeader_nonempty [simp]: "walHeader \<noteq> []"
  by (simp add: walHeader_def)

definition replayed :: "WALItem list \<Rightarrow> Replayed" where
  "replayed items = (replayItems 0 items zeroReplayed)\<lparr>SeqContiguityVerified := True\<rparr>"

lemma ReplayWAL_log:
  assumes "items_ok items" "torn_ok (length items) torn"
  shows "ReplayWAL (Some (walHeader @ logBytes 0 items @ torn)) = Inr (replayed items)"
proof -
  have "replayLoop (logBytes 0 items @ torn) 0 zeroReplayed = Inr (replayItems 0 items zeroReplayed)"
    using assms by (intro replayLoop_log) (simp_all add: zeroReplayed_def)
  then show ?thesis by (simp add: ReplayWAL_def verifyHeader_walHeader replayed_def)
qed

lemma scanRecords_log:
  assumes "items_ok items" "torn_ok (length items) torn"
  shows "scanRecords (walHeader @ logBytes 0 items @ torn) =
    (of_nat (length items), length items, 8 + length (logBytes 0 items))"
  using scanLoop_log [of items 0 torn 0 8] assms by (simp add: scanRecords_def)

lemma OpenWAL_log:
  assumes "items_ok items" "torn_ok (length items) torn"
    and "fbytes f = walHeader @ logBytes 0 items @ torn"
  shows "OpenWAL wr ok f =
    Inr \<lparr>walFile = Some \<lparr>fbytes = walHeader @ logBytes 0 items,
                         fsynced = min (fsynced f) (8 + length (logBytes 0 items))\<rparr>,
         nextSeq = of_nat (length items)\<rparr>"
proof -
  have "f\<lparr>fbytes := walHeader @ logBytes 0 items, fsynced := n\<rparr> =
      \<lparr>fbytes = walHeader @ logBytes 0 items, fsynced = n\<rparr>" for n by (cases f) simp
  then show ?thesis
    using assms(3) scanRecords_log [OF assms(1,2)] by (simp add: OpenWAL_def verifyHeader_walHeader)
qed

lemma OpenWAL_fresh:
  "OpenWAL None True \<lparr>fbytes = [], fsynced = 0\<rparr> =
     Inr \<lparr>walFile = Some \<lparr>fbytes = walHeader, fsynced = 8\<rparr>, nextSeq = 0\<rparr>"
  by (simp add: OpenWAL_def fileWrite_def fileSync_def)

section \<open>What a replay returns\<close>

fun itemMutation :: "WALItem \<Rightarrow> WALMutation list" where
  "itemMutation (ItemMutation m) = [m]"
| "itemMutation (ItemAdvance a) = []"
| "itemMutation (ItemCheckpoint c) = []"

fun itemAdvance :: "WALItem \<Rightarrow> u64 list" where
  "itemAdvance (ItemMutation m) = []"
| "itemAdvance (ItemAdvance a) = [a]"
| "itemAdvance (ItemCheckpoint c) = []"

fun itemHigh :: "WALItem \<Rightarrow> u64" where
  "itemHigh (ItemMutation m) = mCounter m"
| "itemHigh (ItemAdvance a) = a"
| "itemHigh (ItemCheckpoint c) = cLamportHigh c"

definition itemMutations :: "WALItem list \<Rightarrow> WALMutation list" where
  "itemMutations items = concat (map itemMutation items)"

definition itemAdvances :: "WALItem list \<Rightarrow> u64 list" where
  "itemAdvances items = concat (map itemAdvance items)"

definition itemsHigh :: "WALItem list \<Rightarrow> u64" where
  "itemsHigh items = fold (\<lambda>it. max (itemHigh it)) items 0"

lemma countRecord_frame [simp]:
  "Mutations (countRecord s out) = Mutations out" "Advances (countRecord s out) = Advances out"
  "LamportHigh (countRecord s out) = LamportHigh out" "Ordered (countRecord s out) = Ordered out"
  "RecordsVerified (countRecord s out) = Suc (RecordsVerified out)"
  "HasCheckpoint (countRecord s out) = HasCheckpoint out"
  "FinalCheckpt (countRecord s out) = FinalCheckpt out"
  "FinalCheckptSeq (countRecord s out) = FinalCheckptSeq out"
  by (simp_all add: countRecord_def)

lemma replayItem_frame [simp]:
  "Mutations (replayItem s it out) = Mutations out @ itemMutation it"
  "Advances (replayItem s it out) = Advances out @ itemAdvance it"
  "LamportHigh (replayItem s it out) = max (itemHigh it) (LamportHigh out)"
  by (cases it; simp add: replayMutation_def replayAdvance_def replayCheckpoint_def clampCheckpoint_def
        max.commute)+

lemma replayItems_frame:
  "Mutations (replayItems i items out) = Mutations out @ itemMutations items"
  "Advances (replayItems i items out) = Advances out @ itemAdvances items"
  "LamportHigh (replayItems i items out) = fold (\<lambda>it. max (itemHigh it)) items (LamportHigh out)"
  "RecordsVerified (replayItems i items out) = RecordsVerified out + length items"
  by (induction items arbitrary: i out) (simp_all add: itemMutations_def itemAdvances_def)

lemma replayed_simps [simp]:
  "Mutations (replayed items) = itemMutations items"
  "Advances (replayed items) = itemAdvances items"
  "LamportHigh (replayed items) = itemsHigh items"
  "RecordsVerified (replayed items) = length items"
  "SeqContiguityVerified (replayed items)"
  by (simp_all add: replayed_def replayItems_frame zeroReplayed_def itemsHigh_def)

section \<open>Runs of the log\<close>

text \<open>
  Concurrent appenders, interleaved at the points at which the code releases the mutex: a record is
  written under the mutex, its \<^verbatim>\<open>fsync\<close> follows some time later, and the append returns without error only
  then. A write may stop after any number of bytes. The log does not look at what a failed write left
  behind: the next append follows it. A crash keeps the flushed bytes and any number of the bytes
  after them; the log is then opened again.

  \<^verbatim>\<open>sysItems\<close> is what was written, \<^verbatim>\<open>sysFlight\<close> the records whose flush is outstanding, \<^verbatim>\<open>sysAcked\<close> the
  records whose append has returned. Two flags record the history and restrict no step: \<^verbatim>\<open>sysTorn\<close>, that
  the file ends in a part of a record, and \<^verbatim>\<open>sysClean\<close>, that so far nothing was written behind such a
  part and every record was one that the reader accepts.
\<close>

record LogSys =
  sysWal :: WAL
  sysItems :: "WALItem list"
  sysFlight :: "nat set"
  sysAcked :: "(nat \<times> WALItem) set"
  sysTorn :: bool
  sysClean :: bool

definition crashImage :: "nat \<Rightarrow> File \<Rightarrow> File" where
  "crashImage k f = \<lparr>fbytes = take k (fbytes f), fsynced = length (take k (fbytes f))\<rparr>"

text \<open>The write half of an append, which holds the mutex of the log, and the flush after it.\<close>

definition logWrite :: "WALItem \<Rightarrow> LogSys \<Rightarrow> LogSys \<Rightarrow> bool" where
  "logWrite it l l' \<longleftrightarrow>
     (\<exists>w'. writeRecord None (encodeItem (nextSeq (sysWal l)) it) (sysWal l) = (None, w') \<and>
           l' = l\<lparr>sysWal := w', sysItems := sysItems l @ [it],
                  sysFlight := insert (length (sysItems l)) (sysFlight l),
                  sysClean := sysClean l \<and> \<not> sysTorn l \<and> item_ok it\<rparr>)"

definition logWriteFails :: "WALItem \<Rightarrow> LogSys \<Rightarrow> LogSys \<Rightarrow> bool" where
  "logWriteFails it l l' \<longleftrightarrow>
     (\<exists>n err w'. writeRecord (Some n) (encodeItem (nextSeq (sysWal l)) it) (sysWal l) = (Some err, w') \<and>
        l' = l\<lparr>sysWal := w', sysTorn := sysTorn l \<or> 0 < n,
               sysClean := sysClean l \<and>
                 (n = 0 \<or> \<not> sysTorn l \<and> item_ok it \<and> n < length (encodeItem (nextSeq (sysWal l)) it))\<rparr>)"

definition logFlush :: "LogSys \<Rightarrow> LogSys \<Rightarrow> bool" where
  "logFlush l l' \<longleftrightarrow>
     (\<exists>i w'. i \<in> sysFlight l \<and> syncFile True (sysWal l) = (None, w') \<and>
        l' = l\<lparr>sysWal := w', sysFlight := sysFlight l - {i},
               sysAcked := insert (i, sysItems l ! i) (sysAcked l)\<rparr>)"

definition logFlushFails :: "LogSys \<Rightarrow> LogSys \<Rightarrow> bool" where
  "logFlushFails l l' \<longleftrightarrow>
     (\<exists>i err w'. i \<in> sysFlight l \<and> syncFile False (sysWal l) = (Some err, w') \<and>
        l' = l\<lparr>sysWal := w', sysFlight := sysFlight l - {i}\<rparr>)"

inductive log_step :: "LogSys \<Rightarrow> LogSys \<Rightarrow> bool" where
  log_write: "logWrite it s s' \<Longrightarrow> log_step s s'"
| log_write_fails: "logWriteFails it s s' \<Longrightarrow> log_step s s'"
| log_sync: "logFlush s s' \<Longrightarrow> log_step s s'"
| log_sync_fails: "logFlushFails s s' \<Longrightarrow> log_step s s'"
| log_crash:
    "walFile (sysWal s) = Some f \<Longrightarrow> fsynced f \<le> k \<Longrightarrow>
     OpenWAL None True (crashImage k f) = Inr w' \<Longrightarrow>
     log_step s (s\<lparr>sysWal := w', sysItems := take (fst (snd (scanRecords (take k (fbytes f))))) (sysItems s),
                   sysFlight := {}, sysTorn := False\<rparr>)"

definition log_start :: LogSys where
  "log_start =
     \<lparr>sysWal = \<lparr>walFile = Some \<lparr>fbytes = walHeader, fsynced = 8\<rparr>, nextSeq = 0\<rparr>,
      sysItems = [], sysFlight = {}, sysAcked = {}, sysTorn = False, sysClean = True\<rparr>"

lemma log_step_clean: "log_step s s' \<Longrightarrow> sysClean s' \<Longrightarrow> sysClean s"
  by (induction rule: log_step.induct) (auto simp: logWrite_def logWriteFails_def logFlush_def logFlushFails_def)

definition log_inv :: "LogSys \<Rightarrow> bool" where
  "log_inv s \<longleftrightarrow>
     (\<exists>f torn. walFile (sysWal s) = Some f \<and> fbytes f = walHeader @ logBytes 0 (sysItems s) @ torn \<and>
        torn_ok (length (sysItems s)) torn \<and> (sysTorn s \<or> torn = []) \<and>
        8 \<le> fsynced f \<and> fsynced f \<le> length (fbytes f) \<and>
        (\<forall>(i, it)\<in>sysAcked s. 8 + length (logBytes 0 (take (Suc i) (sysItems s))) \<le> fsynced f)) \<and>
     items_ok (sysItems s) \<and> nextSeq (sysWal s) = of_nat (length (sysItems s)) \<and>
     sysFlight s \<subseteq> {..<length (sysItems s)} \<and>
     (\<forall>(i, it)\<in>sysAcked s. i < length (sysItems s) \<and> sysItems s ! i = it)"

lemma log_start_inv: "log_inv log_start"
  by (simp add: log_inv_def log_start_def torn_ok_def)

text \<open>A crash image of a log that satisfies the invariant: the first \<^verbatim>\<open>j\<close> items, among them all acknowledged.\<close>

lemma log_inv_crash:
  assumes "log_inv s" "walFile (sysWal s) = Some f" "fsynced f \<le> k"
  obtains j torn where "j \<le> length (sysItems s)"
    and "take k (fbytes f) = walHeader @ logBytes 0 (take j (sysItems s)) @ torn"
    and "torn_ok (length (take j (sysItems s))) torn" "items_ok (take j (sysItems s))"
    and "\<forall>(i, it)\<in>sysAcked s. i < j \<and> sysItems s ! i = it"
proof -
  obtain torn where f: "fbytes f = walHeader @ logBytes 0 (sysItems s) @ torn"
    "torn_ok (length (sysItems s)) torn" "8 \<le> fsynced f" "items_ok (sysItems s)"
    and ack: "\<forall>(i, it)\<in>sysAcked s. 8 + length (logBytes 0 (take (Suc i) (sysItems s))) \<le> fsynced f"
    "\<forall>(i, it)\<in>sysAcked s. i < length (sysItems s) \<and> sysItems s ! i = it"
    using assms(1,2) by (auto simp: log_inv_def)
  obtain j torn' where j: "j \<le> length (sysItems s)"
    "take (k - 8) (logBytes 0 (sysItems s) @ torn) = logBytes 0 (take j (sysItems s)) @ torn'"
    "torn_ok j torn'"
    "\<forall>n \<le> length (sysItems s). length (logBytes 0 (take n (sysItems s))) \<le> k - 8 \<longrightarrow> n \<le> j"
    using logBytes_cut [OF f(4), of 0 torn "k - 8"] f(2) by auto
  have "take k (fbytes f) = walHeader @ logBytes 0 (take j (sysItems s)) @ torn'"
    using f(1,3) assms(3) j(2) by simp
  moreover have "\<forall>(i, it)\<in>sysAcked s. i < j \<and> sysItems s ! i = it"
  proof (clarify)
    fix i it assume "(i, it) \<in> sysAcked s"
    then have "i < length (sysItems s)" "sysItems s ! i = it"
      "8 + length (logBytes 0 (take (Suc i) (sysItems s))) \<le> fsynced f" using ack by auto
    moreover from this have "Suc i \<le> length (sysItems s)"
      "length (logBytes 0 (take (Suc i) (sysItems s))) \<le> k - 8" using assms(3) by linarith+
    then have "Suc i \<le> j" using j(4) by blast
    ultimately show "i < j \<and> sysItems s ! i = it" by simp
  qed
  ultimately show thesis
    by (intro that [of j torn']) (use j(1,3) items_ok_take [OF f(4)] in simp_all)
qed

lemma writeRecord_Some:
  "writeRecord wr rec w = (r, w') \<Longrightarrow> walFile w = Some f \<Longrightarrow>
   w' = (case wr of None \<Rightarrow> w\<lparr>walFile := Some (f\<lparr>fbytes := fbytes f @ rec\<rparr>), nextSeq := nextSeq w + 1\<rparr>
         | Some n \<Rightarrow> w\<lparr>walFile := Some (f\<lparr>fbytes := fbytes f @ take n rec\<rparr>)\<rparr>)"
  by (auto simp: writeRecord_def fileWrite_def split: option.splits)

lemma syncFile_Some:
  "syncFile ok w = (r, w') \<Longrightarrow> walFile w = Some f \<Longrightarrow>
   w' = w\<lparr>walFile := Some (if ok then f\<lparr>fsynced := length (fbytes f)\<rparr> else f)\<rparr>"
  by (auto simp: syncFile_def fileSync_def split: if_splits)

lemma log_inv_write:
  assumes "log_inv s" "logWrite it s s'" "sysClean s'"
  shows "log_inv s'"
proof -
  obtain w' where w': "writeRecord None (encodeItem (nextSeq (sysWal s)) it) (sysWal s) = (None, w')"
    and s': "s' = s\<lparr>sysWal := w', sysItems := sysItems s @ [it],
                  sysFlight := insert (length (sysItems s)) (sysFlight s),
                  sysClean := sysClean s \<and> \<not> sysTorn s \<and> item_ok it\<rparr>"
    using assms(2) by (auto simp: logWrite_def)
  have clean: "\<not> sysTorn s" "item_ok it" using assms(3) s' by simp_all
  obtain f where f: "walFile (sysWal s) = Some f" "fbytes f = walHeader @ logBytes 0 (sysItems s)"
    "8 \<le> fsynced f" "fsynced f \<le> length (fbytes f)"
    "\<forall>(i, it)\<in>sysAcked s. 8 + length (logBytes 0 (take (Suc i) (sysItems s))) \<le> fsynced f"
    and r: "items_ok (sysItems s)" "nextSeq (sysWal s) = of_nat (length (sysItems s))"
    "sysFlight s \<subseteq> {..<length (sysItems s)}"
    "\<forall>(i, it)\<in>sysAcked s. i < length (sysItems s) \<and> sysItems s ! i = it"
    using assms(1) clean(1) by (auto simp: log_inv_def)
  note w = writeRecord_Some [OF w' f(1)]
  have "8 + length (logBytes 0 (take (Suc i) (sysItems s @ [it]))) \<le> fsynced f"
    if a: "(i, x) \<in> sysAcked s" for i x
  proof -
    have "i < length (sysItems s)" using r(4) a by blast
    then have "take (Suc i) (sysItems s @ [it]) = take (Suc i) (sysItems s)" by simp
    then show ?thesis using f(5) a by fastforce
  qed
  then show ?thesis
    using w f r clean(2) unfolding s'
    by (auto simp: log_inv_def logBytes_append torn_ok_def nth_append add.commute [of 1])
qed

lemma log_inv_write_fails:
  assumes "log_inv s" "logWriteFails it s s'" "sysClean s'"
  shows "log_inv s'"
proof -
  obtain n err w' where w': "writeRecord (Some n) (encodeItem (nextSeq (sysWal s)) it) (sysWal s) = (Some err, w')"
    and s': "s' = s\<lparr>sysWal := w', sysTorn := sysTorn s \<or> 0 < n,
               sysClean := sysClean s \<and>
                 (n = 0 \<or> \<not> sysTorn s \<and> item_ok it \<and> n < length (encodeItem (nextSeq (sysWal s)) it))\<rparr>"
    using assms(2) by (auto simp: logWriteFails_def)
  obtain f torn where f: "walFile (sysWal s) = Some f" "fbytes f = walHeader @ logBytes 0 (sysItems s) @ torn"
    "torn_ok (length (sysItems s)) torn" "sysTorn s \<or> torn = []"
    "8 \<le> fsynced f" "fsynced f \<le> length (fbytes f)"
    "\<forall>(i, it)\<in>sysAcked s. 8 + length (logBytes 0 (take (Suc i) (sysItems s))) \<le> fsynced f"
    and r: "items_ok (sysItems s)" "nextSeq (sysWal s) = of_nat (length (sysItems s))"
    "sysFlight s \<subseteq> {..<length (sysItems s)}"
    "\<forall>(i, it)\<in>sysAcked s. i < length (sysItems s) \<and> sysItems s ! i = it"
    using assms(1) by (auto simp: log_inv_def)
  note w = writeRecord_Some [OF w' f(1)]
  consider "n = 0" | "\<not> sysTorn s" "item_ok it" "n < length (encodeItem (nextSeq (sysWal s)) it)" "0 < n"
    using assms(3) s' by fastforce
  then show ?thesis
  proof cases
    case 1
    then show ?thesis using w f r unfolding s' by (auto simp: log_inv_def)
  next
    case 2
    have "torn_ok (length (sysItems s)) (take n (encodeItem (of_nat (length (sysItems s))) it))"
      using 2 r(2) by (auto simp: torn_ok_def)
    then show ?thesis using w f r 2 unfolding s' by (auto simp: log_inv_def)
  qed
qed

lemma logBytes_take_le: "length (logBytes i (take n items)) \<le> length (logBytes i items)"
  using logBytes_take_mono [of n "max n (length items)" i items] by simp

lemma log_inv_sync:
  assumes "log_inv s" "logFlush s s'"
  shows "log_inv s'"
proof -
  obtain i w' where i: "i \<in> sysFlight s" "syncFile True (sysWal s) = (None, w')"
    and s': "s' = s\<lparr>sysWal := w', sysFlight := sysFlight s - {i},
               sysAcked := insert (i, sysItems s ! i) (sysAcked s)\<rparr>"
    using assms(2) by (auto simp: logFlush_def)
  obtain f torn where f: "walFile (sysWal s) = Some f"
    "fbytes f = walHeader @ logBytes 0 (sysItems s) @ torn" "torn_ok (length (sysItems s)) torn"
    "sysTorn s \<or> torn = []"
    and r: "items_ok (sysItems s)" "nextSeq (sysWal s) = of_nat (length (sysItems s))"
    "sysFlight s \<subseteq> {..<length (sysItems s)}"
    "\<forall>(i, it)\<in>sysAcked s. i < length (sysItems s) \<and> sysItems s ! i = it"
    using assms(1) by (auto simp: log_inv_def)
  have "length (logBytes 0 (take (Suc j) (sysItems s))) \<le> length (logBytes 0 (sysItems s) @ torn)" for j
    using logBytes_take_le [of 0 "Suc j" "sysItems s"] by simp
  then show ?thesis
    using syncFile_Some [OF i(2) f(1)] f r i(1) unfolding s' by (auto simp: log_inv_def)
qed

lemma log_inv_crash_step:
  assumes "log_inv s" "walFile (sysWal s) = Some f" "fsynced f \<le> k"
    and "OpenWAL None True (crashImage k f) = Inr w'"
  shows "log_inv (s\<lparr>sysWal := w', sysItems := take (fst (snd (scanRecords (take k (fbytes f))))) (sysItems s),
                   sysFlight := {}, sysTorn := False\<rparr>)"
proof -
  obtain j torn where j: "j \<le> length (sysItems s)"
    "take k (fbytes f) = walHeader @ logBytes 0 (take j (sysItems s)) @ torn"
    "torn_ok (length (take j (sysItems s))) torn" "items_ok (take j (sysItems s))"
    "\<forall>(i, it)\<in>sysAcked s. i < j \<and> sysItems s ! i = it"
    by (rule log_inv_crash [OF assms(1-3)])
  have "fbytes (crashImage k f) = walHeader @ logBytes 0 (take j (sysItems s)) @ torn"
    by (simp add: crashImage_def j(2))
  from OpenWAL_log [OF j(4,3) this, of None True] assms(4)
  have w: "w' = \<lparr>walFile = Some \<lparr>fbytes = walHeader @ logBytes 0 (take j (sysItems s)),
      fsynced = 8 + length (logBytes 0 (take j (sysItems s)))\<rparr>, nextSeq = of_nat j\<rparr>"
    using j(1) by (simp add: crashImage_def j(2))
  have sc: "fst (snd (scanRecords (take k (fbytes f)))) = j"
    using scanRecords_log [OF j(4,3)] j(1,2) by simp
  have "8 + length (logBytes 0 (take (Suc i) (take j (sysItems s)))) \<le>
      8 + length (logBytes 0 (take j (sysItems s)))" for i
    using logBytes_take_le [of 0 "Suc i" "take j (sysItems s)"] by simp
  then show ?thesis using j(1,4,5) by (auto simp: log_inv_def w sc torn_ok_def)
qed

lemma log_inv_sync_fails:
  assumes "log_inv s" "logFlushFails s s'"
  shows "log_inv s'"
proof -
  obtain i err w' where i: "i \<in> sysFlight s" "syncFile False (sysWal s) = (Some err, w')"
    and s': "s' = s\<lparr>sysWal := w', sysFlight := sysFlight s - {i}\<rparr>"
    using assms(2) by (auto simp: logFlushFails_def)
  then show ?thesis using syncFile_Some [OF i(2)] assms(1) by (auto simp: log_inv_def)
qed

lemma log_step_inv: "log_step s s' \<Longrightarrow> sysClean s' \<Longrightarrow> log_inv s \<Longrightarrow> log_inv s'"
  by (induction rule: log_step.induct)
    (blast intro: log_inv_write log_inv_write_fails log_inv_sync log_inv_sync_fails log_inv_crash_step)+

lemma log_run_inv: "log_step\<^sup>*\<^sup>* s s' \<Longrightarrow> sysClean s' \<Longrightarrow> log_inv s \<Longrightarrow> log_inv s'"
  by (induction rule: rtranclp_induct) (auto intro: log_step_inv dest: log_step_clean)

text \<open>
  C7. Crash safety of the write-ahead log. Take any run of concurrent appends, failed and short writes,
  failed flushes, crashes and reopens in which no record was appended between a write that stopped
  midway and the next reopen, and every record is within the limits of the reader (\<^verbatim>\<open>sysClean\<close>; the code does not
  enforce this). Then the file that a crash leaves behind (all flushed bytes and any
  number of the bytes after them) replays without error to exactly the first appended records, in
  order, and every record whose append returned without error is among them.
\<close>

theorem wal_crash_safe:
  assumes "log_step\<^sup>*\<^sup>* log_start s" "sysClean s" "walFile (sysWal s) = Some f" "fsynced f \<le> k"
  shows "\<exists>j rep. ReplayWAL (Some (take k (fbytes f))) = Inr rep \<and>
    Mutations rep = itemMutations (take j (sysItems s)) \<and>
    Advances rep = itemAdvances (take j (sysItems s)) \<and>
    LamportHigh rep = itemsHigh (take j (sysItems s)) \<and> RecordsVerified rep = j \<and>
    (\<forall>(i, it)\<in>sysAcked s. i < j \<and> sysItems s ! i = it)"
proof -
  have inv: "log_inv s" using log_run_inv [OF assms(1,2) log_start_inv] .
  obtain j torn where j: "j \<le> length (sysItems s)"
    "take k (fbytes f) = walHeader @ logBytes 0 (take j (sysItems s)) @ torn"
    "torn_ok (length (take j (sysItems s))) torn" "items_ok (take j (sysItems s))"
    "\<forall>(i, it)\<in>sysAcked s. i < j \<and> sysItems s ! i = it"
    by (rule log_inv_crash [OF inv assms(3,4)])
  from ReplayWAL_log [OF j(4,3)] j show ?thesis by (intro exI [of _ j]) simp
qed

text \<open>One acknowledged record, then a write that stops after five bytes.\<close>

definition ex_log_file :: File where
  "ex_log_file = \<lparr>fbytes = walHeader @ encodeItem 0 (ItemAdvance 7) @ take 5 (encodeItem 1 (ItemAdvance 9)), fsynced = 34\<rparr>"

definition ex_log :: LogSys where
  "ex_log =
     \<lparr>sysWal = \<lparr>walFile = Some ex_log_file, nextSeq = 1\<rparr>, sysItems = [ItemAdvance 7],
      sysFlight = {}, sysAcked = {(0, ItemAdvance 7)}, sysTorn = True, sysClean = True\<rparr>"

lemma ex_log_run: "log_step\<^sup>*\<^sup>* log_start ex_log"
proof -
  let ?f = "\<lparr>fbytes = walHeader @ encodeItem 0 (ItemAdvance 7), fsynced = 8\<rparr>"
  let ?w = "\<lparr>walFile = Some ?f, nextSeq = 1\<rparr>" and ?w' = "\<lparr>walFile = Some (?f\<lparr>fsynced := 34\<rparr>), nextSeq = 1\<rparr>"
  let ?s = "log_start\<lparr>sysWal := ?w, sysItems := [ItemAdvance 7], sysFlight := {0}\<rparr>"
  let ?s' = "?s\<lparr>sysWal := ?w', sysFlight := {}, sysAcked := {(0, ItemAdvance 7)}\<rparr>"
  have len: "length (encodeItem n (ItemAdvance a)) = 26" for n a
    using length_encodeItem [of "ItemAdvance a" n] by (simp add: putClockAdvancePayload_def)
  have "logWrite (ItemAdvance 7) log_start ?s"
    by (simp add: logWrite_def log_start_def writeRecord_def fileWrite_def)
  moreover have "logFlush ?s ?s'" unfolding logFlush_def
    by (intro exI [of _ 0] exI [of _ ?w']) (simp add: log_start_def syncFile_def fileSync_def len del: encodeItem.simps)
  moreover have "logWriteFails (ItemAdvance 9) ?s' ex_log" unfolding logWriteFails_def
    by (intro exI [of _ 5] exI [of _ ErrWrite] exI [of _ "\<lparr>walFile = Some ex_log_file, nextSeq = 1\<rparr>"])
      (simp add: log_start_def writeRecord_def fileWrite_def ex_log_def ex_log_file_def len del: encodeItem.simps)
  ultimately show ?thesis
    by (meson log_write log_sync log_write_fails converse_rtranclp_into_rtranclp r_into_rtranclp)
qed

theorem wal_crash_safe_witness:
  "\<exists>rep. ReplayWAL (Some (take 39 (fbytes ex_log_file))) = Inr rep \<and> Advances rep = [7] \<and>
    LamportHigh rep = 7"
proof -
  have "sysClean ex_log" "walFile (sysWal ex_log) = Some ex_log_file" "fsynced ex_log_file \<le> 39"
    by (simp_all add: ex_log_def ex_log_file_def)
  from wal_crash_safe [OF ex_log_run this] show ?thesis
    by (auto simp: ex_log_def itemAdvances_def itemsHigh_def)
qed

end
