(* ===== verification/Wal_Damage.thy ===== *)
theory Wal_Damage
  imports Wal_Props
begin

text \<open>
  Damage to the write-ahead log: what the replay detects, and three ways in which records whose append
  returned without error become unreadable.
\<close>

section \<open>Damage that is detected\<close>

lemma put_at_middle:
  "length xs = n \<Longrightarrow> n \<le> pos \<Longrightarrow> pos + length b \<le> n + length ys \<Longrightarrow>
   put_at pos b (xs @ ys @ zs) = xs @ put_at (pos - n) b ys @ zs"
  by (auto simp: put_at_def)

lemma put_at_nth: "pos < length ys \<Longrightarrow> put_at pos [x] ys ! pos = x"
  by (simp add: put_at_def nth_append)

lemma put_at_split:
  assumes "pos + length b \<le> length ys"
  shows "\<exists>p a q. ys = p @ a @ q \<and> length a = length b \<and> put_at pos b ys = p @ b @ q"
proof -
  have "ys = take pos ys @ take (length b) (drop pos ys) @ drop (pos + length b) ys"
    by (metis add.commute append_take_drop_id drop_drop)
  moreover have "length (take (length b) (drop pos ys)) = length b" using assms by simp
  ultimately show ?thesis unfolding put_at_def by blast
qed

lemma ReplayWAL_prefix:
  assumes "items_ok xs"
  shows "ReplayWAL (Some (walHeader @ logBytes 0 xs @ rest)) =
    (case replayLoop rest (of_nat (length xs) - 1) (replayItems 0 xs zeroReplayed) of
       Inl err \<Rightarrow> Inl err | Inr out \<Rightarrow> Inr (out\<lparr>SeqContiguityVerified := True\<rparr>))"
proof -
  have "replayLoop (logBytes i xs @ rest) prev out =
      replayLoop rest (if xs = [] then prev else of_nat (i + length xs) - 1) (replayItems i xs out)"
    if "RecordsVerified out = i" "i > 0 \<Longrightarrow> of_nat i = prev + 1" for i prev out
    using assms that
  proof (induction xs arbitrary: i prev out)
    case (Cons x xs)
    let ?out = "replayItem (of_nat i) x (countRecord (of_nat i) out)"
    have "seq_ok (of_nat i) prev out" using Cons.prems(2,3) by (cases i) (simp_all add: seq_ok_def)
    then have "replayLoop (logBytes i (x # xs) @ rest) prev out =
        replayLoop (logBytes (Suc i) xs @ rest) (of_nat i) ?out"
      using Cons.prems(1) replayLoop_item [of x "of_nat i" prev out] by simp
    then show ?case using Cons.prems Cons.IH [of ?out "Suc i" "of_nat i"] by auto
  qed simp
  from this [of zeroReplayed 0 0] have "replayLoop (logBytes 0 xs @ rest) 0 zeroReplayed =
      replayLoop rest (if xs = [] then 0 else of_nat (length xs) - 1) (replayItems 0 xs zeroReplayed)"
    by (simp add: zeroReplayed_def)
  moreover have "replayLoop rest 0 zeroReplayed = replayLoop rest (- 1) zeroReplayed"
    by (simp add: replayLoop.simps [of rest] zeroReplayed_def)
  ultimately show ?thesis by (auto simp: ReplayWAL_def verifyHeader_walHeader)
qed

lemma seq_ok_next:
  "items_ok xs \<Longrightarrow> seq_ok (of_nat (length xs)) (of_nat (length xs) - 1) (replayItems 0 xs zeroReplayed)"
  by (simp add: seq_ok_def replayItems_frame zeroReplayed_def)

lemma ReplayWAL_bad_crc:
  assumes "items_ok xs" "length body + 4 \<le> 4194304" "crc \<noteq> crc32Checksum body"
  shows "ReplayWAL (Some (walHeader @ logBytes 0 xs @ rawFrame (of_nat (length xs)) body crc @ rest)) =
    Inl ErrWALCorrupt"
  using replayLoop_raw [OF assms(2) seq_ok_next [OF assms(1)]] assms(3)
  by (simp add: ReplayWAL_prefix [OF assms(1)])

text \<open>
  C39. A complete record of which up to four consecutive bytes of the content, or any of the four bytes
  of the stored checksum, were changed is never replayed: the replay stops with \<^verbatim>\<open>ErrWALCorrupt\<close>,
  whatever record it is and whatever follows it.
\<close>

theorem ReplayWAL_detects_damage:
  assumes "items_ok (xs @ it # ys)" "data = walHeader @ logBytes 0 (xs @ it # ys)"
    and "start = 8 + length (logBytes 0 xs) + 13" "bodyEnd = start + 1 + length (innerPayload it)"
    and "length b \<le> 4" "put_at pos b data \<noteq> data"
    and "start \<le> pos \<and> pos + length b \<le> bodyEnd \<or> bodyEnd \<le> pos \<and> pos + length b \<le> bodyEnd + 4"
  shows "ReplayWAL (Some (put_at pos b data)) = Inl ErrWALCorrupt"
proof -
  let ?body = "innerType it # innerPayload it" and ?n = "of_nat (length xs) :: u64"
  let ?h = "walHeader @ logBytes 0 xs @ recordHeader ?n WALRecChecksummed (length ?body + 4)"
  let ?rest = "logBytes (Suc (length xs)) ys" and ?crc = "be_bytes 4 (crc32Checksum ?body)"
  have it: "item_ok it" "items_ok xs" using assms(1) by simp_all
  have hl: "length ?h = start" using assms(3) by (simp add: recordHeader_def)
  have data: "data = ?h @ ?body @ ?crc @ ?rest"
    using assms(2) it(1) by (simp add: logBytes_append encodeItem_frame frame_raw rawFrame_def)
  have b: "length ?body + 4 \<le> 4194304" using innerPayload_bound [OF it(1)] by simp
  from assms(7) show ?thesis
  proof
    assume p: "start \<le> pos \<and> pos + length b \<le> bodyEnd"
    let ?body' = "put_at (pos - start) b ?body"
    have fits: "pos - start + length b \<le> length ?body"
      unfolding list.size using p assms(4) by linarith
    have eq: "put_at pos b data = ?h @ ?body' @ ?crc @ ?rest"
      unfolding data by (rule put_at_middle [OF hl]) (use p assms(4) in simp_all)
    then have "?body' \<noteq> ?body" using assms(6) data by auto
    then have "crc32Checksum ?body \<noteq> crc32Checksum ?body'"
      using put_at_split [OF fits] crc32_burst assms(5) by metis
    moreover have "length ?body' = length ?body" using length_put_at [OF fits] .
    ultimately show ?thesis
      using ReplayWAL_bad_crc [OF it(2), of ?body' "crc32Checksum ?body" ?rest] b eq
      by (simp add: rawFrame_def)
  next
    assume p: "bodyEnd \<le> pos \<and> pos + length b \<le> bodyEnd + 4"
    let ?crc' = "put_at (pos - bodyEnd) b ?crc"
    have fits: "pos - bodyEnd + length b \<le> length ?crc" unfolding length_be_bytes using p by linarith
    have eq: "put_at pos b data = ?h @ ?body @ ?crc' @ ?rest"
      using put_at_middle [of "?h @ ?body" bodyEnd pos b ?crc ?rest] hl p assms(4)
      unfolding data append_assoc by simp
    then have ne: "?crc' \<noteq> ?crc" using assms(6) data by auto
    have l: "length ?crc' = 4" using length_put_at [OF fits] by simp
    then have c: "be_bytes 4 (of_be ?crc' :: u32) = ?crc'" by (simp add: be_bytes_of_be)
    then have "(of_be ?crc' :: u32) \<noteq> crc32Checksum ?body" using ne by auto
    then show ?thesis
      using ReplayWAL_bad_crc [OF it(2) b, of "of_be ?crc'" ?rest] eq c by (simp add: rawFrame_def)
  qed
qed

definition ex_damage_log :: "WALItem list" where
  "ex_damage_log = [ItemAdvance 7, ItemAdvance 9, ItemAdvance 11]"

definition ex_damaged :: bytes where
  "ex_damaged = put_at 50 [0xFF] (walHeader @ logBytes 0 ex_damage_log)"

lemma ex_damage_len: "length (encodeItem seq (ItemAdvance a)) = 26"
  using length_encodeItem [of "ItemAdvance a" seq] by (simp add: putClockAdvancePayload_def)

text \<open>The byte at offset 50 belongs to the second record; it is a byte of the number 9, so not 255.\<close>

lemma ex_damage_byte: "(walHeader @ logBytes 0 ex_damage_log) ! 50 = 0"
proof -
  let ?body = "WALRecClockAdvance # putClockAdvancePayload 9"
  have e: "encodeItem 1 (ItemAdvance 9) = recordHeader 1 WALRecChecksummed 13 @ ?body @ be_bytes 4 (crc32Checksum ?body)"
    by (simp add: encodeClockAdvanceChecksummed_def frameChecksummed_def)
  have "(walHeader @ logBytes 0 ex_damage_log) ! 50 = encodeItem 1 (ItemAdvance 9) ! 16"
    using ex_damage_len [of 0 7] ex_damage_len [of 1 9]
    by (simp add: ex_damage_log_def nth_append del: encodeItem.simps)
  also have "\<dots> = ?body ! 3" unfolding e by (simp add: nth_append recordHeader_def putClockAdvancePayload_def)
  also have "\<dots> = 0" by code_simp
  finally show ?thesis .
qed

theorem ReplayWAL_detects_damage_witness: "ReplayWAL (Some ex_damaged) = Inl ErrWALCorrupt"
proof -
  let ?data = "walHeader @ logBytes 0 ([ItemAdvance 7] @ ItemAdvance 9 # [ItemAdvance 11])"
  have d: "?data = walHeader @ logBytes 0 ex_damage_log" by (simp add: ex_damage_log_def)
  have l: "length ?data = 86" using ex_damage_len by (simp del: encodeItem.simps)
  have "put_at 50 [0xFF] ?data ! 50 = 0xFF" using l by (intro put_at_nth) simp
  moreover have "?data ! 50 = 0" unfolding d by (rule ex_damage_byte)
  ultimately have ne: "put_at 50 [0xFF] ?data \<noteq> ?data" by auto
  have "ReplayWAL (Some (put_at 50 [0xFF] ?data)) = Inl ErrWALCorrupt"
    by (rule ReplayWAL_detects_damage [OF _ refl refl refl _ ne])
      (simp_all add: ex_damage_len putClockAdvancePayload_def del: encodeItem.simps)
  then show ?thesis unfolding ex_damaged_def d .
qed

section \<open>Damage that is not detected\<close>

lemma scanLoop_prefix:
  assumes "items_ok xs"
  shows "scanLoop (logBytes i xs @ rest) (of_nat i) c g =
    scanLoop rest (of_nat (i + length xs)) (c + length xs) (g + length (logBytes i xs))"
  using assms
proof (induction xs arbitrary: i c g)
  case (Cons x xs)
  then show ?case using Cons.IH [of "Suc i" "Suc c" "g + length (encodeItem (of_nat i) x)"]
    by (simp add: scanLoop_item add.commute [of 1] add.assoc)
qed simp

lemma encodeItem_split:
  assumes "item_ok it"
  obtains tail where "encodeItem seq it =
      be_bytes 8 seq @ [WALRecChecksummed] @ be_bytes 4 (of_nat (5 + length (innerPayload it)) :: u32) @ tail"
    and "length tail = length (encodeItem seq it) - 13"
  using encodeItem_frame [OF assms, of seq] that by (auto simp: frameChecksummed_def recordHeader_def)

text \<open>The header of a record whose length field was overwritten.\<close>

lemma length_damage_fields:
  assumes "item_ok it" "L \<le> 4194304" "length (encodeItem seq it @ rest) < 13 + L"
    and "r = put_at 9 (be_bytes 4 (of_nat L :: u32)) (encodeItem seq it @ rest)"
  shows "hdrSeq r = seq" "unat (hdrLen r) = L" "\<not> hdrLen r > maxRecordPayloadLen"
    and "13 \<le> length r" "length r < 13 + L"
proof -
  obtain tail where tail: "encodeItem seq it =
      be_bytes 8 seq @ [WALRecChecksummed] @ be_bytes 4 (of_nat (5 + length (innerPayload it)) :: u32) @ tail"
    by (rule encodeItem_split [OF assms(1)])
  have r: "r = be_bytes 8 seq @ [WALRecChecksummed] @ be_bytes 4 (of_nat L :: u32) @ tail @ rest"
    unfolding assms(4) tail by (simp add: put_at_def)
  show "hdrSeq r = seq" by (simp add: r hdrSeq_def gslice_walk of_be_be_bytes)
  have h: "hdrLen r = of_nat L" by (simp add: r hdrLen_def gslice_def of_be_be_bytes)
  show u: "unat (hdrLen r) = L" unfolding h using assms(2) by (simp add: unat_of_nat)
  show "\<not> hdrLen r > maxRecordPayloadLen"
    using u assms(2) by (simp add: word_less_nat_alt maxRecordPayloadLen_def)
  show "13 \<le> length r" by (simp add: r)
  show "length r < 13 + L" using assms(3) by (simp add: r tail)
qed

text \<open>
  C19. The length field is outside the checksum. If it is changed to any admissible value that reaches
  past the end of the file, the record and every record after it are taken for a torn tail: the replay
  succeeds without them, and opening the log cuts them off the file for good.
\<close>

theorem length_damage_loses_records:
  assumes "items_ok (xs @ it # ys)" "data = walHeader @ logBytes 0 (xs @ it # ys)"
    and "start = 8 + length (logBytes 0 xs)" "L \<le> 4194304" "length data < start + 13 + L"
    and "damaged = put_at (start + 9) (be_bytes 4 (of_nat L :: u32)) data"
  shows "ReplayWAL (Some damaged) = Inr (replayed xs) \<and>
    OpenWAL None True \<lparr>fbytes = damaged, fsynced = length damaged\<rparr> =
      Inr \<lparr>walFile = Some \<lparr>fbytes = walHeader @ logBytes 0 xs, fsynced = start\<rparr>,
           nextSeq = of_nat (length xs)\<rparr>"
proof -
  let ?n = "of_nat (length xs) :: u64" and ?rest = "logBytes (Suc (length xs)) ys"
  let ?r = "put_at 9 (be_bytes 4 (of_nat L :: u32)) (encodeItem (of_nat (length xs)) it @ ?rest)"
  have ok: "item_ok it" "items_ok xs" using assms(1) by simp_all
  have data: "data = (walHeader @ logBytes 0 xs) @ (encodeItem ?n it @ ?rest) @ []"
    using assms(2) by (simp add: logBytes_append)
  have len: "length (encodeItem ?n it @ ?rest) < 13 + L" using assms(3,5) unfolding data by simp
  note f = length_damage_fields [OF ok(1) assms(4) len refl]
  have damaged: "damaged = (walHeader @ logBytes 0 xs) @ ?r"
    using put_at_middle [of "walHeader @ logBytes 0 xs" start "start + 9" "be_bytes 4 (of_nat L :: u32)"
        "encodeItem ?n it @ ?rest" "[]"] assms(3,6) length_encodeItem [OF ok(1), of ?n]
    unfolding data by simp
  have "replayLoop (take (length ?r) ?r) (?n - 1) (replayItems 0 xs zeroReplayed) =
      Inr (replayItems 0 xs zeroReplayed)"
    by (rule replayLoop_cut [OF f(3,4)]) (use f(1,2,5) seq_ok_next [OF ok(2)] in simp_all)
  then have rep: "ReplayWAL (Some damaged) = Inr (replayed xs)"
    using ReplayWAL_prefix [OF ok(2), of ?r] by (simp add: damaged replayed_def)
  have "scanLoop ?r n c g = (n, c, g)" for n c g
    using f(2,5) by (simp add: scanLoop.simps)
  then have "scanRecords damaged = (?n, length xs, start)"
    using scanLoop_prefix [OF ok(2), of 0 ?r 0 8] assms(3) by (simp add: scanRecords_def damaged)
  then show ?thesis
    using rep assms(3) by (simp add: OpenWAL_def damaged verifyHeader_walHeader)
qed

theorem length_damage_loses_records_witness:
  "ReplayWAL (Some (put_at 17 (be_bytes 4 (1000 :: u32)) (walHeader @ logBytes 0 ex_damage_log))) =
     Inr (replayed [])"
proof -
  let ?data = "walHeader @ logBytes 0 ([] @ ItemAdvance 7 # [ItemAdvance 9, ItemAdvance 11])"
  have d: "?data = walHeader @ logBytes 0 ex_damage_log" by (simp add: ex_damage_log_def)
  have l: "length ?data = 86" using ex_damage_len by (simp del: encodeItem.simps)
  have "ReplayWAL (Some (put_at (8 + 9) (be_bytes 4 (of_nat 1000 :: u32)) ?data)) = Inr (replayed [])"
    by (rule conjunct1 [OF length_damage_loses_records [OF _ refl _ _ _ refl]]) (use l in simp_all)
  then show ?thesis unfolding d by simp
qed

section \<open>Appends that make the log unreadable\<close>

text \<open>A small number in eight big-endian bytes starts with five zero bytes.\<close>

lemma be_bytes_small:
  assumes "n < 2 ^ 24"
  shows "be_bytes 8 (of_nat n :: u64) = replicate 5 0 @ drop 5 (be_bytes 8 (of_nat n :: u64))"
proof -
  have z: "drop_bit (8 * i) (of_nat n :: u64) = 0" if "3 \<le> i" for i
  proof -
    have "n < 2 ^ (8 * i)" using assms power_increasing [of 24 "8 * i" "2 :: nat"] that by linarith
    then have "unat (of_nat n :: u64) < 2 ^ (8 * i)"
      by (simp add: unat_of_nat)
    then have "drop_bit (8 * i) (unat (of_nat n :: u64)) = 0" by (simp add: drop_bit_eq_div)
    then have "unat (drop_bit (8 * i) (of_nat n :: u64)) = 0" by (simp only: unat_drop_bit_eq)
    then show ?thesis by (simp only: unat_eq_zero)
  qed
  have "rev [0..<8] = [7, 6, 5, 4, 3, 2, 1, 0 :: nat]" by code_simp
  then have "take 5 (be_bytes 8 (of_nat n :: u64)) = [0, 0, 0, 0, 0]"
    using z [of 7] z [of 6] z [of 5] z [of 4] z [of 3] by (simp add: be_bytes_def le_bytes_def rev_map)
  moreover have "replicate 5 0 = [0, 0, 0, 0, 0 :: byte]" by code_simp
  ultimately have "replicate 5 0 = take 5 (be_bytes 8 (of_nat n :: u64))" by simp
  then show ?thesis by (simp only: append_take_drop_id)
qed

text \<open>The log of a WAL that is open and has no torn tail.\<close>

definition wal_holds :: "WAL \<Rightarrow> WALItem list \<Rightarrow> bool" where
  "wal_holds w items \<longleftrightarrow>
     (\<exists>f. walFile w = Some f \<and> fbytes f = walHeader @ logBytes 0 items \<and>
          8 \<le> fsynced f \<and> fsynced f \<le> length (fbytes f)) \<and>
     items_ok items \<and> nextSeq w = of_nat (length items)"

definition walBytes :: "WAL \<Rightarrow> bytes option" where
  "walBytes w = map_option fbytes (walFile w)"

lemma hdr_zeros:
  "length b = 8 \<Longrightarrow> hdrLen (b @ replicate 5 0 @ q) = 0"
  "length b = 8 \<Longrightarrow> hdrType (b @ replicate 5 0 @ q) = 0"
  by (simp_all add: hdrLen_def hdrType_def gslice_def nth_append numeral_eq_Suc of_be_def)

lemma replayLoop_misaligned:
  assumes "n < 2 ^ 24" "seq_ok (of_nat n) prevSeq out"
  shows "replayLoop (be_bytes 8 (of_nat n :: u64) @ be_bytes 8 (of_nat n :: u64) @ post) prevSeq out =
    Inl ErrUnknownType"
proof -
  let ?b = "be_bytes 8 (of_nat n :: u64)" and ?r = "be_bytes 8 (of_nat n :: u64) @ be_bytes 8 (of_nat n :: u64) @ post"
  obtain q where q: "?b = replicate 5 0 @ q" by (rule that [OF be_bytes_small [OF assms(1)]])
  have s: "hdrSeq ?r = of_nat n" by (simp add: hdrSeq_def gslice_walk of_be_be_bytes)
  have r: "?r = ?b @ (replicate 5 0 @ q) @ post" unfolding q [symmetric] by (rule refl)
  have l: "hdrLen ?r = 0" unfolding r append_assoc by (rule hdr_zeros) simp
  have t: "hdrType ?r = 0" unfolding r append_assoc by (rule hdr_zeros) simp
  have len: "\<not> length ?r < 13" by simp
  have e: "openPayload 0 p = Inr (0, p)" "replayRecord sq 0 p o2 = Inl ErrUnknownType" for p sq o2
    by (simp_all add: openPayload_def replayRecord_def WALRec_defs)
  show ?thesis
    using assms(2) len unfolding replayLoop.simps [of ?r] s l t e seq_ok_def Let_def
    by (cases "RecordsVerified out = 0") (simp_all add: e maxRecordPayloadLen_def)
qed


definition ex_entry :: CRDTEntry where
  "ex_entry = zeroEntry\<lparr>OriginNodeID := replicate 16 1, DotNodeID := replicate 16 1, DotCounter := 5\<rparr>"

definition ex_mutation :: WALMutation where
  "ex_mutation = NewWALMutation [65] (CausalDot (replicate 16 1) 5) ex_entry"

definition ex_wal :: WAL where
  "ex_wal = \<lparr>walFile = Some \<lparr>fbytes = walHeader, fsynced = 8\<rparr>, nextSeq = 0\<rparr>"

lemma ex_wal_holds: "wal_holds ex_wal []"
  by (simp add: wal_holds_def ex_wal_def)

lemma ex_mutation_valid: "validateV2 ex_mutation = None"
  by code_simp


text \<open>
  No append path bounds the entity, but the replay rejects a payload of more than 4 MiB: such a
  mutation is acknowledged and makes the log unreadable.
\<close>

theorem oversized_append_breaks_log:
  assumes "wal_holds w items" "validateV2 m = None" "sized_entry (mFull m)" "length (mNodeID m) = 16"
    and "4194304 < 153 + length (mEntityID m)" "153 + length (mEntityID m) < 2 ^ 32"
    and "AppendMutation None True m w = (r, w')"
  shows "r = None \<and> ReplayWAL (walBytes w') = Inl ErrPayloadLen"
proof -
  let ?n = "of_nat (length items) :: u64" and ?l = "of_nat (153 + length (mEntityID m)) :: u32"
  obtain f where f: "walFile w = Some f" "fbytes f = walHeader @ logBytes 0 items"
    and items: "items_ok items" and seq: "nextSeq w = ?n"
    using assms(1) by (auto simp: wal_holds_def)
  obtain q where q: "encodeMutationV2Checksummed ?n m =
      be_bytes 8 ?n @ [WALRecChecksummed] @ be_bytes 4 ?l @ q"
    by (simp add: encodeMutationV2Checksummed_def frameChecksummed_def recordHeader_def
          crdtEntryWireLen_def add.commute add.left_commute)
  let ?r = "be_bytes 8 ?n @ [WALRecChecksummed] @ be_bytes 4 ?l @ q"
  have w': "r = None" "walBytes w' = Some (walHeader @ logBytes 0 items @ ?r)"
    using assms(2,7) f seq q
    by (auto simp: AppendMutation_def writeRecord_def fileWrite_def syncFile_def fileSync_def walBytes_def)
  have h: "hdrLen ?r = ?l" by (simp add: hdrLen_def gslice_def of_be_be_bytes del: of_nat_add)
  have "hdrLen ?r > maxRecordPayloadLen"
    unfolding h using assms(5,6)
    by (simp add: word_less_nat_alt maxRecordPayloadLen_def unat_of_nat del: of_nat_add)
  then have "replayLoop ?r p out = Inl ErrPayloadLen" for p out
    by (subst replayLoop.simps) simp
  then show ?thesis using w' unfolding w'(2) ReplayWAL_prefix [OF items] by simp
qed

end
