(* ===== verification/Snapshot.thy ===== *)
theory Snapshot
  imports Wal_Damage Convergence "HOL-Library.AList"
begin

text \<open>
  Checkpoint images of \<^verbatim>\<open>pkg/durability/snapshot.go\<close>, the state fingerprint of \<^verbatim>\<open>state_fingerprint.go\<close> and
  the object store \<^verbatim>\<open>localfs.go\<close> that holds the images: the image codec with its whole-image checksum,
  the fold over all bytes of a state, and upload, listing and download by key. Shown: an image decodes
  to itself in canonical order, the change of any byte is noticed, the two sides of the fingerprint
  agree, and an image that was written is found and read back.

  A \<^verbatim>\<open>SnapshotRecord\<close> is a pair of an entity and an entry, as \<^verbatim>\<open>Join\<close> takes them. SHA-256 is a parameter.
\<close>

section \<open>Images\<close>

type_synonym SnapshotRecord = incomingEntry

record SnapshotImage =
  imgRecords :: "SnapshotRecord list"
  imgMerkleRoot :: bytes
  imgLamportHigh :: u64
  imgCutSeq :: u64

definition snapshotMagic :: bytes where "snapshotMagic = [0x53, 0x4E, 0x53, 0x50]"
definition snapshotVersionV2 :: byte where "snapshotVersionV2 = 2"
definition snapshotVersionV3 :: byte where "snapshotVersionV3 = 3"
definition snapshotHeaderSize :: nat where "snapshotHeaderSize = 61"

definition encodeCRDTEntry_image :: "CRDTEntry \<Rightarrow> bytes" where
  "encodeCRDTEntry_image e =
     PayloadDigest e @ OriginNodeID e @ DotNodeID e @ be_bytes 8 (DotCounter e) @
     be_bytes 8 (SystemTime e) @ be_bytes 8 (ValidTimeStart e) @ be_bytes 8 (ValidTimeEnd e) @
     be_bytes 8 (AssertionTime e) @ be_bytes 8 (DecisionTime e) @ be_bytes 8 (H3Index e)"

definition decodeCRDTEntry_image :: "bytes \<Rightarrow> CRDTEntry option" where
  "decodeCRDTEntry_image src =
     (if length src < 120 then None
      else Some
       \<lparr>PayloadDigest = gslice 0 32 src, OriginNodeID = gslice 32 48 src, DotNodeID = gslice 48 64 src,
        DotCounter = of_be (gslice 64 72 src), SystemTime = of_be (gslice 72 80 src),
        ValidTimeStart = of_be (gslice 80 88 src), ValidTimeEnd = of_be (gslice 88 96 src),
        AssertionTime = of_be (gslice 96 104 src), DecisionTime = of_be (gslice 104 112 src),
        H3Index = of_be (gslice 112 120 src)\<rparr>)"

definition encodeImageHeader :: "SnapshotImage \<Rightarrow> bytes" where
  "encodeImageHeader img =
     snapshotMagic @ [snapshotVersionV3] @ be_bytes 8 (imgLamportHigh img) @
     be_bytes 8 (of_nat (length (imgRecords img)) :: u64) @ be_bytes 8 (imgCutSeq img) @ imgMerkleRoot img"

definition encodeImageRecord :: "SnapshotRecord \<Rightarrow> bytes" where
  "encodeImageRecord r =
     be_bytes 2 (of_nat (length (fst r)) :: u16) @ fst r @ encodeCRDTEntry_image (snd r)"

text \<open>
  \<^verbatim>\<open>sort.SliceStable\<close> by entity and dot. \<^verbatim>\<open>None\<close> is the error on an entity of more than 65535 bytes.
\<close>

definition encodeSnapshotImage :: "SnapshotImage \<Rightarrow> bytes option" where
  "encodeSnapshotImage img =
     (let ordered = sort_key keyDot (imgRecords img);
          buf = encodeImageHeader img @ concat (map encodeImageRecord ordered)
      in if (\<exists>r\<in>set ordered. length (fst r) > 0xFFFF) then None
         else Some (buf @ be_bytes 4 (crc32Checksum buf)))"

datatype snapError =
  SnapShort | SnapMagic | SnapVersion | ErrSnapshotCorrupt | SnapTruncated | SnapTrailing | SnapPanic | SnapMissing
| SnapWatermark

primrec decodeRecords :: "nat \<Rightarrow> bytes \<Rightarrow> (SnapshotRecord list \<times> bytes) option" where
  "decodeRecords 0 data = Some ([], data)"
| "decodeRecords (Suc n) data =
     (if length data < 2 then None
      else
        let eidLen = unat (of_be (gslice 0 2 data) :: u16) in
        if length data < 2 + eidLen + 120 then None
        else case decodeCRDTEntry_image (gslice (2 + eidLen) (2 + eidLen + 120) data) of
               None \<Rightarrow> None
             | Some en \<Rightarrow>
                 (case decodeRecords n (drop (2 + eidLen + 120) data) of
                    None \<Rightarrow> None
                  | Some (rs, rest) \<Rightarrow> Some ((gslice 2 (2 + eidLen) data, en) # rs, rest)))"

text \<open>
  The part after the version switch. Reserving the records panics when their 136 bytes each exceed the
  address space of 2^48 bytes.
\<close>

definition decodeImageBody :: "bytes \<Rightarrow> snapError + SnapshotImage" where
  "decodeImageBody data =
     (let recordCount = unat (of_be (gslice 13 21 data) :: u64) in
      if 136 * recordCount > 2 ^ 48 then Inl SnapPanic
      else case decodeRecords recordCount (drop 61 data) of
             None \<Rightarrow> Inl SnapTruncated
           | Some (rs, rest) \<Rightarrow>
               if rest \<noteq> [] then Inl SnapTrailing
               else Inr \<lparr>imgRecords = rs, imgMerkleRoot = gslice 29 61 data,
                         imgLamportHigh = of_be (gslice 5 13 data), imgCutSeq = of_be (gslice 21 29 data)\<rparr>)"

definition decodeSnapshotImage :: "bytes \<Rightarrow> snapError + SnapshotImage" where
  "decodeSnapshotImage data =
     (if length data < snapshotHeaderSize then Inl SnapShort
      else if gslice 0 4 data \<noteq> snapshotMagic then Inl SnapMagic
      else if data ! 4 = snapshotVersionV3 then
        (if length data < snapshotHeaderSize + 4 then Inl ErrSnapshotCorrupt
         else
           let body = take (length data - 4) data;
               want = of_be (drop (length data - 4) data)
           in if want \<noteq> crc32Checksum body then Inl ErrSnapshotCorrupt else decodeImageBody body)
      else if data ! 4 = snapshotVersionV2 then decodeImageBody data
      else Inl SnapVersion)"

section \<open>The state fingerprint\<close>

definition fingerprintDomainSep :: bytes where
  "fingerprintDomainSep = map of_char ''SOVEREIGN-STATE-FINGERPRINT-v1'' @ [0]"

definition fingerprintEntryInto :: "(bytes \<Rightarrow> bytes) \<Rightarrow> gostring \<Rightarrow> CRDTEntry \<Rightarrow> bytes" where
  "fingerprintEntryInto sha256 eid entry =
     sha256 (fingerprintDomainSep @ eid @ [0] @ encodeCRDTEntry_image entry)"

definition foldEntryDigests :: "(bytes \<Rightarrow> bytes) \<Rightarrow> bytes list \<Rightarrow> bytes" where
  "foldEntryDigests sha256 perEntry = sha256 (concat (sort perEntry))"

definition fingerprintRecords :: "(bytes \<Rightarrow> bytes) \<Rightarrow> SnapshotRecord list \<Rightarrow> bytes" where
  "fingerprintRecords sha256 records =
     foldEntryDigests sha256 (map (\<lambda>r. fingerprintEntryInto sha256 (fst r) (snd r)) records)"

definition StateFingerprint :: "(bytes \<Rightarrow> bytes) \<Rightarrow> DeltaCRDTEngine \<Rightarrow> bytes" where
  "StateFingerprint sha256 e =
     foldEntryDigests sha256
       (snd (snd (CaptureShardsPinned sha256
          (\<lambda>eid entries acc. (True, acc @ map (fingerprintEntryInto sha256 eid) entries)) e [])))"

section \<open>The object store\<close>

text \<open>
  The files below the root by key; a rename replaces an object atomically. An upload may fail before
  the rename, which leaves the old object, or in the flush of the directory after it.
\<close>

type_synonym LocalFS = "(gostring \<times> bytes) list"

datatype uploadOutcome = UploadDone | UploadFailsBefore | UploadFailsAfter

definition Upload :: "uploadOutcome \<Rightarrow> gostring \<Rightarrow> bytes \<Rightarrow> LocalFS \<Rightarrow> bool \<times> LocalFS" where
  "Upload oc key data lfs =
     (case oc of
        UploadDone \<Rightarrow> (True, AList.update key data lfs)
      | UploadFailsBefore \<Rightarrow> (False, lfs)
      | UploadFailsAfter \<Rightarrow> (False, AList.update key data lfs))"

definition ListObjects :: "gostring \<Rightarrow> nat \<Rightarrow> LocalFS \<Rightarrow> gostring list" where
  "ListObjects pre maxKeys lfs =
     (let keys = sort (filter (\<lambda>k. take (length pre) k = pre) (map fst lfs))
      in if 0 < maxKeys \<and> maxKeys < length keys then take maxKeys keys else keys)"

definition Download :: "gostring \<Rightarrow> LocalFS \<Rightarrow> bytes option" where
  "Download key lfs = map_of lfs key"

definition Delete :: "gostring \<Rightarrow> LocalFS \<Rightarrow> LocalFS" where
  "Delete key lfs = AList.delete key lfs"

text \<open>\<^verbatim>\<open>fmt.Sprintf("ckpt/%d", lamportHigh)\<close>.\<close>

fun decDigits :: "nat \<Rightarrow> bytes" where
  "decDigits n = (if n < 10 then [of_nat (48 + n)] else decDigits (n div 10) @ [of_nat (48 + n mod 10)])"

declare decDigits.simps [simp del]

definition snapshotKey :: "u64 \<Rightarrow> gostring" where
  "snapshotKey lamportHigh = map of_char ''ckpt/'' @ decDigits (unat lamportHigh)"

definition WriteSnapshotImage :: "uploadOutcome \<Rightarrow> SnapshotImage \<Rightarrow> LocalFS \<Rightarrow> bool \<times> LocalFS" where
  "WriteSnapshotImage oc img lfs =
     (case encodeSnapshotImage img of
        None \<Rightarrow> (False, lfs)
      | Some data \<Rightarrow> Upload oc (snapshotKey (imgLamportHigh img)) data lfs)"

definition LoadSnapshotImage :: "u64 \<Rightarrow> LocalFS \<Rightarrow> snapError + SnapshotImage" where
  "LoadSnapshotImage lamportHigh lfs =
     (case Download (snapshotKey lamportHigh) lfs of
        None \<Rightarrow> Inl SnapMissing
      | Some data \<Rightarrow>
          (case decodeSnapshotImage data of
             Inl err \<Rightarrow> Inl err
           | Inr img \<Rightarrow> if imgLamportHigh img \<noteq> lamportHigh then Inl SnapWatermark else Inr img))"

definition SnapshotExists :: "u64 \<Rightarrow> LocalFS \<Rightarrow> bool" where
  "SnapshotExists lamportHigh lfs =
     (snapshotKey lamportHigh \<in> set (ListObjects (snapshotKey lamportHigh) 1 lfs))"

definition snapshotDelta :: "SnapshotImage \<Rightarrow> CRDTDelta" where
  "snapshotDelta img = \<lparr>Entries = Some (imgRecords img), DeltaOriginNodeID = replicate 16 0\<rparr>"

definition compareDotsLocal :: "CausalDot \<Rightarrow> CausalDot \<Rightarrow> int" where
  "compareDotsLocal a b =
     (let c = cmpBytes (NodeID a) (NodeID b) in
      if c \<noteq> 0 then c
      else if Counter a < Counter b then -1 else if Counter a > Counter b then 1 else 0)"

section \<open>Round trip and damage of an image\<close>

definition record_ok :: "SnapshotRecord \<Rightarrow> bool" where
  "record_ok r \<longleftrightarrow> sized_entry (snd r) \<and> length (fst r) \<le> 0xFFFF"

definition image_ok :: "SnapshotImage \<Rightarrow> bool" where
  "image_ok img \<longleftrightarrow>
     (\<forall>r\<in>set (imgRecords img). record_ok r) \<and> length (imgMerkleRoot img) = 32 \<and>
     136 * length (imgRecords img) \<le> 2 ^ 48"

lemma encode_image_entry: "encodeCRDTEntry_image e = encodeCRDTEntry e"
  by (simp add: encodeCRDTEntry_image_def encodeCRDTEntry_def)

lemma decode_image_entry: "sized_entry e \<Longrightarrow> decodeCRDTEntry_image (encodeCRDTEntry_image e) = Some e"
  using length_encodeCRDTEntry [of e] decode_encode_CRDTEntry [of e]
  by (simp add: encode_image_entry decodeCRDTEntry_image_def decodeCRDTEntry_def)

lemma decodeRecords_record:
  assumes "record_ok r"
  shows "decodeRecords (Suc n) (encodeImageRecord r @ rest) =
    (case decodeRecords n rest of None \<Rightarrow> None | Some (rs, rest') \<Rightarrow> Some (r # rs, rest'))"
proof -
  let ?d = "encodeImageRecord r @ rest"
  have len: "length (encodeCRDTEntry_image (snd r)) = 120"
    using assms by (simp add: record_ok_def encode_image_entry length_encodeCRDTEntry)
  have e: "unat (of_be (gslice 0 2 ?d) :: u16) = length (fst r)"
    using assms by (simp add: record_ok_def encodeImageRecord_def gslice_walk of_be_be_bytes unat_of_nat)
  have "gslice (2 + length (fst r)) (2 + length (fst r) + 120) ?d = encodeCRDTEntry_image (snd r)"
    "gslice 2 (2 + length (fst r)) ?d = fst r" "drop (2 + length (fst r) + 120) ?d = rest"
    using len by (simp_all add: encodeImageRecord_def gslice_def)
  moreover have "\<not> length ?d < 2" "\<not> length ?d < 2 + length (fst r) + 120"
    using len by (simp_all add: encodeImageRecord_def)
  ultimately show ?thesis
    using decode_image_entry [of "snd r"] assms
    unfolding decodeRecords.simps e Let_def by (simp add: record_ok_def split: option.splits)
qed

lemma decodeRecords_encode:
  "\<forall>r\<in>set rs. record_ok r \<Longrightarrow>
   decodeRecords (length rs) (concat (map encodeImageRecord rs) @ rest) = Some (rs, rest)"
  by (induction rs) (simp_all add: decodeRecords_record del: decodeRecords.simps(2))

definition canonical :: "SnapshotImage \<Rightarrow> SnapshotImage" where
  "canonical img = img\<lparr>imgRecords := sort_key keyDot (imgRecords img)\<rparr>"

definition imageBody :: "SnapshotImage \<Rightarrow> bytes" where
  "imageBody img = encodeImageHeader img @ concat (map encodeImageRecord (sort_key keyDot (imgRecords img)))"

lemma encodeSnapshotImage_ok:
  "image_ok img \<Longrightarrow>
   encodeSnapshotImage img = Some (imageBody img @ be_bytes 4 (crc32Checksum (imageBody img)))"
  by (auto simp: encodeSnapshotImage_def imageBody_def image_ok_def record_ok_def Let_def)

lemma decodeImageBody_encode:
  assumes "image_ok img" "length h = 5"
  shows "decodeImageBody (h @ drop 5 (imageBody img) @ rest) =
    (if rest = [] then Inr (canonical img) else Inl SnapTrailing)"
proof -
  let ?rs = "sort_key keyDot (imgRecords img)"
  let ?b = "be_bytes 8 (imgLamportHigh img) @ be_bytes 8 (of_nat (length (imgRecords img)) :: u64) @
    be_bytes 8 (imgCutSeq img) @ imgMerkleRoot img @ concat (map encodeImageRecord ?rs) @ rest"
  have r: "length (imgMerkleRoot img) = 32" "length (imgRecords img) < 2 ^ 64"
    "136 * length (imgRecords img) \<le> 2 ^ 48" "\<forall>r\<in>set ?rs. record_ok r"
    using assms(1) by (auto simp: image_ok_def)
  have d: "h @ drop 5 (imageBody img) @ rest = h @ ?b"
    by (simp add: imageBody_def encodeImageHeader_def snapshotMagic_def)
  have c: "unat (of_be (gslice 13 21 (h @ ?b)) :: u64) = length ?rs"
    using assms(2) r(2) by (simp add: gslice_def of_be_be_bytes unat_of_nat)
  have "drop 61 (h @ ?b) = concat (map encodeImageRecord ?rs) @ rest" using assms(2) r(1) by simp
  then have "decodeRecords (length ?rs) (drop 61 (h @ ?b)) = Some (?rs, rest)"
    using decodeRecords_encode [OF r(4)] by simp
  then show ?thesis
    unfolding decodeImageBody_def d c Let_def using assms(2) r
    by (simp add: canonical_def gslice_def of_be_be_bytes)
qed

lemma imageBody_split: "imageBody img = (snapshotMagic @ [snapshotVersionV3]) @ drop 5 (imageBody img)"
  by (simp add: imageBody_def encodeImageHeader_def snapshotMagic_def)

lemma imageBody_length: "length (imgMerkleRoot img) = 32 \<Longrightarrow> 61 \<le> length (imageBody img)"
  by (simp add: imageBody_def encodeImageHeader_def snapshotMagic_def)

lemma decode_v3:
  assumes "61 \<le> length body" "gslice 0 4 body = snapshotMagic" "body ! 4 = snapshotVersionV3" "length tr = 4"
  shows "decodeSnapshotImage (body @ tr) =
    (if of_be tr \<noteq> crc32Checksum body then Inl ErrSnapshotCorrupt else decodeImageBody body)"
proof -
  have "gslice 0 4 (body @ tr) = snapshotMagic" using assms(1,2) by (simp add: gslice_def)
  then show ?thesis
    using assms by (simp add: decodeSnapshotImage_def snapshotHeaderSize_def nth_append Let_def)
qed

lemma crc32_update: "pos < length xs \<Longrightarrow> b \<noteq> xs ! pos \<Longrightarrow> crc32Checksum (xs[pos := b]) \<noteq> crc32Checksum xs"
  using crc32_burst [of "[b]" "[xs ! pos]" "take pos xs" "drop (Suc pos) xs"]
  by (simp add: upd_conv_take_nth_drop id_take_nth_drop [symmetric])

lemma image_front:
  "gslice 0 4 (imageBody img) = snapshotMagic" "imageBody img ! 4 = snapshotVersionV3"
  by (simp_all add: imageBody_def encodeImageHeader_def snapshotMagic_def gslice_def nth_append)

lemma image_damage:
  assumes "image_ok img" "pos < length (imageBody img) + 4"
    and "b \<noteq> (imageBody img @ be_bytes 4 (crc32Checksum (imageBody img))) ! pos"
  shows "\<exists>err. decodeSnapshotImage
    ((imageBody img @ be_bytes 4 (crc32Checksum (imageBody img)))[pos := b]) = Inl err"
proof -
  let ?body = "imageBody img" and ?tr = "be_bytes 4 (crc32Checksum (imageBody img))"
  have len: "61 \<le> length ?body" using assms(1) imageBody_length by (simp add: image_ok_def)
  note fr = image_front [of img]
  consider "pos < 4" | "pos = 4" | "4 < pos" "pos < length ?body" | "length ?body \<le> pos" by linarith
  then show ?thesis
  proof cases
    case 1
    have "((?body @ ?tr)[pos := b]) ! pos = b" using assms(2) by simp
    then have "gslice 0 4 ((?body @ ?tr)[pos := b]) ! pos = b"
      using 1 len by (simp add: gslice_def)
    moreover have "gslice 0 4 (?body @ ?tr) ! pos = (?body @ ?tr) ! pos"
      using 1 len by (simp add: gslice_def nth_append)
    moreover have "gslice 0 4 (?body @ ?tr) = snapshotMagic" using fr(1) len by (simp add: gslice_def)
    ultimately have "gslice 0 4 ((?body @ ?tr)[pos := b]) \<noteq> snapshotMagic" using assms(3) by metis
    then show ?thesis using len by (simp add: decodeSnapshotImage_def snapshotHeaderSize_def)
  next
    case 2
    have e: "(?body @ ?tr)[4 := b] = (snapshotMagic @ [b]) @ drop 5 ?body @ ?tr"
      by (subst imageBody_split) (simp add: snapshotMagic_def numeral_eq_Suc)
    have "b \<noteq> snapshotVersionV3" using assms(3) fr(2) len 2 by (simp add: nth_append)
    moreover have "decodeImageBody ((snapshotMagic @ [b]) @ drop 5 ?body @ ?tr) = Inl SnapTrailing"
      using decodeImageBody_encode [OF assms(1), of "snapshotMagic @ [b]" ?tr]
      by (auto simp: snapshotMagic_def simp flip: length_greater_0_conv)
    ultimately show ?thesis
      using len unfolding 2 e
      by (auto simp: decodeSnapshotImage_def snapshotHeaderSize_def snapshotMagic_def gslice_def nth_append)
  next
    case 3
    have "decodeSnapshotImage (?body[pos := b] @ ?tr) = Inl ErrSnapshotCorrupt"
      using decode_v3 [of "?body[pos := b]" ?tr] 3 len fr crc32_update [of pos ?body b] assms(3)
      by (simp add: gslice_def nth_append take_update_cancel of_be_be_bytes)
    then show ?thesis using 3 by (simp add: list_update_append)
  next
    case 4
    let ?tr' = "?tr[pos - length ?body := b]"
    have ne: "?tr' \<noteq> ?tr"
      using assms(2,3) 4 by (metis add.commute length_be_bytes less_diff_conv2 linorder_not_less
          nth_append nth_list_update_eq)
    have "be_bytes 4 (of_be ?tr' :: u32) = ?tr'" by (simp add: be_bytes_of_be)
    then have "(of_be ?tr' :: u32) \<noteq> crc32Checksum ?body" using ne by metis
    then have "decodeSnapshotImage (?body @ ?tr') = Inl ErrSnapshotCorrupt"
      using decode_v3 [of ?body ?tr'] len fr by simp
    then show ?thesis using 4 by (simp add: list_update_append)
  qed
qed

lemma SnapshotImage_decodes:
  assumes "image_ok img"
  shows "\<exists>data. encodeSnapshotImage img = Some data \<and> decodeSnapshotImage data = Inr (canonical img)"
proof -
  let ?body = "imageBody img" and ?tr = "be_bytes 4 (crc32Checksum (imageBody img))"
  have len: "61 \<le> length ?body" using assms imageBody_length by (simp add: image_ok_def)
  have "decodeImageBody ?body = Inr (canonical img)"
    using decodeImageBody_encode [OF assms, of "snapshotMagic @ [snapshotVersionV3]" "[]"]
      imageBody_split [of img] by (simp add: snapshotMagic_def)
  then have "decodeSnapshotImage (?body @ ?tr) = Inr (canonical img)"
    using decode_v3 [of ?body ?tr] len image_front [of img] by (simp add: of_be_be_bytes)
  then show ?thesis using encodeSnapshotImage_ok [OF assms] by blast
qed

text \<open>
  C40. A checkpoint image decodes to itself with its records in canonical order, and every file that
  differs from an encoded image in one byte, wherever it is, is refused.
\<close>

theorem SnapshotImage_roundtrip:
  assumes "image_ok img"
  shows "\<exists>data. encodeSnapshotImage img = Some data \<and> decodeSnapshotImage data = Inr (canonical img) \<and>
    (\<forall>pos b. pos < length data \<and> b \<noteq> data ! pos \<longrightarrow> (\<exists>err. decodeSnapshotImage (data[pos := b]) = Inl err))"
  using SnapshotImage_decodes [OF assms] encodeSnapshotImage_ok [OF assms] image_damage [OF assms]
  by fastforce

definition ex_image :: SnapshotImage where
  "ex_image = \<lparr>imgRecords = [([66], ex_entry), ([65], ex_entry)], imgMerkleRoot = replicate 32 9,
     imgLamportHigh = 5, imgCutSeq = 2\<rparr>"

lemma ex_image_ok: "image_ok ex_image"
  by (simp add: image_ok_def ex_image_def record_ok_def sized_entry_def ex_entry_def zeroEntry_def)

theorem SnapshotImage_roundtrip_witness:
  "\<exists>data. encodeSnapshotImage ex_image = Some data \<and>
     decodeSnapshotImage data = Inr (ex_image\<lparr>imgRecords := [([65], ex_entry), ([66], ex_entry)]\<rparr>)"
proof -
  have "canonical ex_image = ex_image\<lparr>imgRecords := [([65], ex_entry), ([66], ex_entry)]\<rparr>"
    by (simp add: canonical_def ex_image_def keyDot_def)
  then show ?thesis using SnapshotImage_roundtrip [OF ex_image_ok] by auto
qed

text \<open>An old image without checksum whose record count was damaged crashes the decoder.\<close>

lemma decodeSnapshotImage_v2_panics:
  assumes "61 \<le> length data" "gslice 0 4 data = snapshotMagic" "data ! 4 = snapshotVersionV2"
    and "136 * unat (of_be (gslice 13 21 data) :: u64) > 2 ^ 48"
  shows "decodeSnapshotImage data = Inl SnapPanic"
  using assms
  by (simp add: decodeSnapshotImage_def snapshotHeaderSize_def snapshotVersionV2_def snapshotVersionV3_def
        decodeImageBody_def Let_def)

section \<open>The two sides of the fingerprint\<close>

definition stateRecords :: "DeltaCRDTEngine \<Rightarrow> SnapshotRecord list" where
  "stateRecords e = concat (map (\<lambda>(k, es). map (Pair k) es) (all_binds e))"

lemma fold_append_map:
  "fold (\<lambda>(k, es) acc. acc @ map (g k) es) kvs acc = acc @ concat (map (\<lambda>(k, es). map (g k) es) kvs)"
  by (induction kvs arbitrary: acc) auto

lemma StateFingerprint_records: "StateFingerprint sha256 e = fingerprintRecords sha256 (stateRecords e)"
proof -
  have "snd (snd (CaptureShardsPinned sha256 (\<lambda>eid entries acc. (True, acc @ map (fingerprintEntryInto sha256 eid) entries)) e [])) =
      fold (\<lambda>(k, es) acc. acc @ map (fingerprintEntryInto sha256 k) es) (all_binds e) []"
    by (subst CaptureShardsPinned_continue) (simp_all add: case_prod_unfold)
  also have "\<dots> = map (\<lambda>r. fingerprintEntryInto sha256 (fst r) (snd r)) (stateRecords e)"
    unfolding fold_append_map by (simp add: stateRecords_def map_concat case_prod_unfold comp_def)
  finally show ?thesis by (simp add: StateFingerprint_def fingerprintRecords_def)
qed

lemma fingerprintRecords_mset:
  assumes "mset rs = mset rs'"
  shows "fingerprintRecords sha256 rs = fingerprintRecords sha256 rs'"
proof -
  have "mset (map (\<lambda>r. fingerprintEntryInto sha256 (fst r) (snd r)) rs) =
      mset (map (\<lambda>r. fingerprintEntryInto sha256 (fst r) (snd r)) rs')"
    using assms by simp
  then have "sort (map (\<lambda>r. fingerprintEntryInto sha256 (fst r) (snd r)) rs) =
      sort (map (\<lambda>r. fingerprintEntryInto sha256 (fst r) (snd r)) rs')"
    by (simp only: properties_for_sort mset_sort sorted_sort)
  then show ?thesis by (simp add: fingerprintRecords_def foldEntryDigests_def)
qed

lemma stateRecords_set:
  assumes "eng_ok mh e"
  shows "(k, en) \<in> set (stateRecords e) \<longleftrightarrow> eng_map mh e k (Dot en) = Some en"
proof -
  have "(k, en) \<in> set (stateRecords e) \<longleftrightarrow> (\<exists>es. (k, es) \<in> set (all_binds e) \<and> en \<in> set es)"
    by (force simp: stateRecords_def)
  then have "(k, en) \<in> set (stateRecords e) \<longleftrightarrow> en \<in> set (PointGet mh k e)"
    by (auto simp: all_binds_iff [OF assms])
  then show ?thesis
    using PointGet_leaf_ok [OF assms, of k] by (auto simp: eng_map_def dotmap_set dest: dotmap_SomeD)
qed

section \<open>Writing and loading\<close>

lemma list_le_append: "xs \<le> xs @ (ys :: bytes)"
  by (induction xs) simp_all

lemma sorted_prefix_first:
  assumes "k \<in> set (map fst (lfs :: LocalFS))"
  shows "\<exists>ks. sort (filter (\<lambda>x. take (length k) x = k) (map fst lfs)) = k # ks"
proof -
  let ?f = "filter (\<lambda>x. take (length k) x = k) (map fst lfs)"
  have k: "k \<in> set ?f" using assms by simp
  have le: "k \<le> x" if "x \<in> set ?f" for x
  proof -
    have "take (length k) x = k" using that by simp
    then have "k @ drop (length k) x = x" using append_take_drop_id [of "length k" x] by simp
    then show ?thesis using list_le_append [of k "drop (length k) x"] by simp
  qed
  have ss: "set (sort ?f) = set ?f" by simp
  then have "sort ?f \<noteq> []" using k by (metis empty_iff empty_set)
  then obtain a ks where s: "sort ?f = a # ks" by (cases "sort ?f") auto
  then have "a \<in> set ?f" "\<forall>x\<in>set ?f. a \<le> x"
    using sorted_sort [of ?f] ss by (auto simp del: set_sort)
  then show ?thesis using le k s by (metis antisym)
qed

lemma SnapshotExists_iff: "SnapshotExists lh lfs \<longleftrightarrow> Download (snapshotKey lh) lfs \<noteq> None"
proof
  assume "SnapshotExists lh lfs"
  then show "Download (snapshotKey lh) lfs \<noteq> None"
    by (auto simp: SnapshotExists_def ListObjects_def Download_def Let_def map_of_eq_None_iff
          dest: in_set_takeD split: if_splits)
next
  assume "Download (snapshotKey lh) lfs \<noteq> None"
  then have "snapshotKey lh \<in> set (map fst lfs)" by (simp add: Download_def map_of_eq_None_iff)
  then obtain ks where "sort (filter (\<lambda>x. take (length (snapshotKey lh)) x = snapshotKey lh) (map fst lfs)) = snapshotKey lh # ks"
    using sorted_prefix_first by blast
  then show "SnapshotExists lh lfs" by (simp add: SnapshotExists_def ListObjects_def Let_def)
qed

lemma Write_Load:
  assumes "image_ok img" "WriteSnapshotImage UploadDone img lfs = (ok, lfs')"
  shows "ok \<and> SnapshotExists (imgLamportHigh img) lfs' \<and>
    LoadSnapshotImage (imgLamportHigh img) lfs' = Inr (canonical img)"
proof -
  obtain data where d: "encodeSnapshotImage img = Some data" "decodeSnapshotImage data = Inr (canonical img)"
    using SnapshotImage_decodes [OF assms(1)] by blast
  have "ok" "Download (snapshotKey (imgLamportHigh img)) lfs' = Some data"
    using assms(2) d(1) by (auto simp: WriteSnapshotImage_def Upload_def Download_def update_Some_unfold update_conv')
  then show ?thesis using d(2) by (simp add: SnapshotExists_iff LoadSnapshotImage_def canonical_def)
qed

end
