(* ===== verification/Recovery.thy ===== *)
theory Recovery
  imports Snapshot
begin

text \<open>
  Boot recovery of \<^verbatim>\<open>pkg/durability/recovery.go\<close>: replay of the write-ahead log into a fresh engine, on top of
  the checkpoint image when one is present, bound to the checkpoint record and free of local dots that
  the log does not know; the checks of root and fingerprint, the restoration of the tail in chunks at
  the recorded dots, the repair of records that the image missed, and the reopened log.

  \<^verbatim>\<open>RecoverDeps\<close> gathers what the engine is built from. Log lines are left out; the text of the fallback
  reason is a value of a datatype.
\<close>

record RecoverDeps =
  rdHash :: hasher
  rdSort :: "(incomingEntry \<Rightarrow> incomingEntry \<Rightarrow> int) \<Rightarrow> incomingEntry list \<Rightarrow> incomingEntry list"
  rdF64 :: "real \<Rightarrow> real"
  rdSha :: "bytes \<Rightarrow> bytes"
  rdSeeds :: "nat \<Rightarrow> Seed"
  rdRoute :: Seed
  rdIdle :: "u64 \<Rightarrow> bool"

text \<open>The interface of the image store: the probe may fail.\<close>

record SnapshotStore =
  stExists :: "u64 \<Rightarrow> bool option"
  stLoad :: "u64 \<Rightarrow> snapError + SnapshotImage"

definition localStore :: "LocalFS \<Rightarrow> SnapshotStore" where
  "localStore lfs =
     \<lparr>stExists = (\<lambda>lh. Some (SnapshotExists lh lfs)), stLoad = (\<lambda>lh. LoadSnapshotImage lh lfs)\<rparr>"

datatype recoverError =
    RecReplay walError | RecPanic | ErrRecoveryImageDuplicate
  | ErrRecoveryRootMismatch | ErrRecoveryFingerprintMismatch | RecBadMutation | RecReopen walError

datatype fallbackReason =
    NoFallback | ProbeFailed | NoImage | LoadFailed | WatermarkMismatch | BindingMismatch
  | PhantomDots | NoCheckpoint

record RecoveryWitness =
  Bounded :: bool
  ReplayedRecords :: nat
  SnapshotLamportHigh :: u64
  FallbackReason :: fallbackReason
  CheckpointSeq :: u64
  LocalPhantomsRejected :: nat
  ExactWALFallback :: bool
  LegacyRecords :: nat
  HolesRepaired :: nat
  IntegrityChecksArmed :: bool
  wLegacyCheckpoint :: bool
  PostTailRootArmed :: bool
  wSeqContiguityVerified :: bool
  wRecordsVerified :: nat
  wClockHighClamped :: bool
  wClockHighRaw :: u64

definition replayChunkSize :: nat where "replayChunkSize = 2048"
definition maxPlausibleCounter :: u64 where "maxPlausibleCounter = 1152921504606846976"

section \<open>Single records\<close>

definition restoreEntry :: "WALMutation \<Rightarrow> bytes \<Rightarrow> CRDTEntry" where
  "restoreEntry m nodeID =
     (if \<not> mLegacy m then mFull m
      else zeroEntry\<lparr>PayloadDigest := walPayloadDigest (mEntry m), OriginNodeID := nodeID,
             DotNodeID := mNodeID m, DotCounter := mCounter m, SystemTime := walSystemTime (mEntry m)\<rparr>)"

text \<open>True when the record may become engine state.\<close>

definition checkMutationRecord :: "WALMutation \<Rightarrow> bytes \<Rightarrow> bool" where
  "checkMutationRecord m nodeID \<longleftrightarrow>
     mEntityID m \<noteq> [] \<and> \<not> (mNodeID m = replicate 16 0 \<or> mCounter m = 0) \<and> mNodeID m = nodeID \<and>
     \<not> mCounter m > maxPlausibleCounter \<and>
     (mLegacy m \<or>
        DotNodeID (mFull m) = mNodeID m \<and> DotCounter (mFull m) = mCounter m \<and>
        OriginNodeID (mFull m) = nodeID)"

definition newEngineAt :: "RecoverDeps \<Rightarrow> bytes \<Rightarrow> u64 \<Rightarrow> DeltaCRDTEngine" where
  "newEngineAt D nodeID initialCounter =
     NewDeltaCRDTEngine (rdSeeds D) (rdRoute D) (rdIdle D) nodeID initialCounter None"

section \<open>Choosing the image\<close>

definition loadImage ::
  "SnapshotStore option \<Rightarrow> Replayed \<Rightarrow> recoverError + SnapshotImage option \<times> u64 \<times> fallbackReason" where
  "loadImage store rep =
     (case store of
        None \<Rightarrow> Inr (None, 0, NoFallback)
      | Some st \<Rightarrow>
          if \<not> HasCheckpoint rep then Inr (None, 0, NoCheckpoint)
          else
            let c = FinalCheckpt rep; lh = cLamportHigh c in
            (case stExists st lh of
               None \<Rightarrow> Inr (None, 0, ProbeFailed)
             | Some False \<Rightarrow> Inr (None, 0, NoImage)
             | Some True \<Rightarrow>
                 (case stLoad st lh of
                    Inl SnapPanic \<Rightarrow> Inl RecPanic
                  | Inl _ \<Rightarrow> Inr (None, 0, LoadFailed)
                  | Inr img \<Rightarrow>
                      if imgLamportHigh img \<noteq> lh then Inr (None, imgLamportHigh img, WatermarkMismatch)
                      else if cHasCutSeq c \<and> (imgCutSeq img \<noteq> cCutSeq c \<or> imgMerkleRoot img \<noteq> cMerkleRoot c)
                      then Inr (None, imgLamportHigh img, BindingMismatch)
                      else Inr (Some img, imgLamportHigh img, NoFallback))))"

definition localDots :: "Replayed \<Rightarrow> CausalDot list" where
  "localDots rep = map (\<lambda>m. CausalDot (mNodeID m) (mCounter m)) (Mutations rep)"

definition countPhantoms :: "bytes \<Rightarrow> Replayed \<Rightarrow> SnapshotImage \<Rightarrow> nat" where
  "countPhantoms nodeID rep img =
     length (filter (\<lambda>r. DotNodeID (snd r) = nodeID \<and> Dot (snd r) \<notin> set (localDots rep)) (imgRecords img))"

section \<open>The replay loop\<close>

record ReplayState =
  rsEngine :: DeltaCRDTEngine
  rsChunk :: "SnapshotRecord list"
  rsReplayed :: nat
  rsLegacy :: nat

definition joinRecords ::
  "RecoverDeps \<Rightarrow> SnapshotRecord list \<Rightarrow> DeltaCRDTEngine \<Rightarrow> DeltaCRDTEngine option" where
  "joinRecords D rs e =
     Join (rdHash D) (rdSort D) (rdF64 D)
       (snapshotDelta \<lparr>imgRecords = rs, imgMerkleRoot = replicate 32 0, imgLamportHigh = 0, imgCutSeq = 0\<rparr>) e"

definition flushChunk :: "RecoverDeps \<Rightarrow> ReplayState \<Rightarrow> recoverError + ReplayState" where
  "flushChunk D st =
     (if rsChunk st = [] then Inr st
      else case joinRecords D (rsChunk st) (rsEngine st) of
             None \<Rightarrow> Inl RecPanic
           | Some e \<Rightarrow> Inr (st\<lparr>rsEngine := e, rsChunk := []\<rparr>))"

text \<open>A mutation joins the current chunk, which is applied when it is full.\<close>

definition addMutation ::
  "RecoverDeps \<Rightarrow> bytes \<Rightarrow> WALMutation \<Rightarrow> ReplayState \<Rightarrow> recoverError + ReplayState" where
  "addMutation D nodeID m st =
     (if \<not> checkMutationRecord m nodeID then Inl RecBadMutation
      else
        let st1 = st\<lparr>rsChunk := rsChunk st @ [(mEntityID m, restoreEntry m nodeID)]\<rparr> in
        if length (rsChunk st1) \<ge> replayChunkSize then flushChunk D st1 else Inr st1)"

definition isMutation :: "WALRecord \<Rightarrow> bool" where
  "isMutation rec \<longleftrightarrow> recType rec = WALRecMutation \<or> recType rec = WALRecMutationV2"

definition replayTailRecord ::
  "RecoverDeps \<Rightarrow> bytes \<Rightarrow> bool \<Rightarrow> u64 \<Rightarrow> WALRecord \<Rightarrow> ReplayState \<Rightarrow> recoverError + ReplayState" where
  "replayTailRecord D nodeID useSnapshot cutFrom rec st =
     (if useSnapshot \<and> recSeq rec < cutFrom then Inr st
      else if isMutation rec then
        (case addMutation D nodeID (recMutation rec)
                (st\<lparr>rsLegacy := rsLegacy st + (if mLegacy (recMutation rec) then 1 else 0)\<rparr>) of
           Inl err \<Rightarrow> Inl err
         | Inr st1 \<Rightarrow> Inr (st1\<lparr>rsReplayed := Suc (rsReplayed st1)\<rparr>))
      else if recType rec = WALRecClockAdvance then
        Inr (st\<lparr>rsEngine := AdvanceLamportTo (rdF64 D) (recAdvance rec) (rsEngine st),
                rsReplayed := Suc (rsReplayed st)\<rparr>)
      else Inr st)"

text \<open>The repair pass: durable mutations below the cut that the image does not hold.\<close>

definition isHole :: "SnapshotImage \<Rightarrow> u64 \<Rightarrow> WALRecord \<Rightarrow> bool" where
  "isHole img cutFrom rec \<longleftrightarrow>
     isMutation rec \<and> \<not> recSeq rec \<ge> cutFrom \<and>
     CausalDot (mNodeID (recMutation rec)) (mCounter (recMutation rec)) \<notin>
       set (map (\<lambda>r. Dot (snd r)) (imgRecords img))"

fun foldE :: "('a \<Rightarrow> 's \<Rightarrow> 'e + 's) \<Rightarrow> 'a list \<Rightarrow> 's \<Rightarrow> 'e + 's" where
  "foldE f [] s = Inr s"
| "foldE f (x # xs) s = (case f x s of Inl err \<Rightarrow> Inl err | Inr s' \<Rightarrow> foldE f xs s')"

definition replayTail ::
  "RecoverDeps \<Rightarrow> bytes \<Rightarrow> bool \<Rightarrow> u64 \<Rightarrow> Replayed \<Rightarrow> ReplayState \<Rightarrow> recoverError + ReplayState" where
  "replayTail D nodeID useSnapshot cutFrom rep st =
     (case foldE (replayTailRecord D nodeID useSnapshot cutFrom) (Ordered rep) st of
        Inl err \<Rightarrow> Inl err
      | Inr st1 \<Rightarrow> flushChunk D st1)"

definition repairHoles ::
  "RecoverDeps \<Rightarrow> bytes \<Rightarrow> SnapshotImage option \<Rightarrow> u64 \<Rightarrow> Replayed \<Rightarrow> ReplayState \<Rightarrow>
     recoverError + ReplayState \<times> nat" where
  "repairHoles D nodeID img cutFrom rep st =
     (case img of
        None \<Rightarrow> Inr (st, 0)
      | Some im \<Rightarrow>
          let holes = filter (isHole im cutFrom) (Ordered rep) in
          (case foldE (addMutation D nodeID) (map recMutation holes) st of
             Inl err \<Rightarrow> Inl err
           | Inr st1 \<Rightarrow>
               (case flushChunk D st1 of Inl err \<Rightarrow> Inl err | Inr st2 \<Rightarrow> Inr (st2, length holes))))"

section \<open>Recovery\<close>

text \<open>The engine on which the tail is replayed: empty, or the image after its checks.\<close>

definition startEngine ::
  "RecoverDeps \<Rightarrow> Replayed \<Rightarrow> SnapshotImage option \<Rightarrow> DeltaCRDTEngine \<Rightarrow> recoverError + DeltaCRDTEngine" where
  "startEngine D rep img e0 =
     (case img of
        None \<Rightarrow> Inr e0
      | Some im \<Rightarrow>
          (case Join (rdHash D) (rdSort D) (rdF64 D) (snapshotDelta im) e0 of
             None \<Rightarrow> Inl RecPanic
           | Some e1 \<Rightarrow>
               if entriesSkipped e1 \<noteq> 0 then Inl ErrRecoveryImageDuplicate
               else if cHasFingerprint (FinalCheckpt rep) \<and>
                       MerkleRootFromShards (rdSha D) e1 \<noteq> cMerkleRoot (FinalCheckpt rep)
               then Inl ErrRecoveryRootMismatch
               else if cHasFingerprint (FinalCheckpt rep) \<and>
                       StateFingerprint (rdSha D) e1 \<noteq> cFingerprint (FinalCheckpt rep)
               then Inl ErrRecoveryFingerprintMismatch
               else Inr e1))"

definition cutFromOf :: "Replayed \<Rightarrow> u64" where
  "cutFromOf rep =
     (if HasCheckpoint rep \<and> cHasCutSeq (FinalCheckpt rep) then cCutSeq (FinalCheckpt rep)
      else FinalCheckptSeq rep + 1)"

definition rebuiltInitialOf :: "Replayed \<Rightarrow> u64" where
  "rebuiltInitialOf rep =
     (if HasCheckpoint rep \<and> cClockHigh (FinalCheckpt rep) > LamportHigh rep
      then cClockHigh (FinalCheckpt rep) else LamportHigh rep)"

text \<open>Everything between the replay of the log and its reopening: the engine and three counts.\<close>

definition rebuild ::
  "RecoverDeps \<Rightarrow> bytes \<Rightarrow> Replayed \<Rightarrow> SnapshotImage option \<Rightarrow> recoverError + ReplayState \<times> nat" where
  "rebuild D nodeID rep img =
     (let e0 = newEngineAt D nodeID (rebuiltInitialOf rep) in
      case startEngine D rep img e0 of
        Inl err \<Rightarrow> Inl err
      | Inr e1 \<Rightarrow>
          (case replayTail D nodeID (img \<noteq> None) (cutFromOf rep) rep
                  \<lparr>rsEngine = e1, rsChunk = [], rsReplayed = 0, rsLegacy = 0\<rparr> of
             Inl err \<Rightarrow> Inl err
           | Inr st1 \<Rightarrow>
               (case repairHoles D nodeID img (cutFromOf rep) rep st1 of
                  Inl err \<Rightarrow> Inl err
                | Inr (st2, holes) \<Rightarrow>
                    Inr (st2\<lparr>rsEngine := AdvanceLamportTo (rdF64 D) (rebuiltInitialOf rep) (rsEngine st2)\<rparr>,
                         holes))))"

definition checkpointFinal :: "Replayed \<Rightarrow> bool" where
  "checkpointFinal rep \<longleftrightarrow> \<not> (\<exists>rec\<in>set (Ordered rep). isMutation rec \<and> recSeq rec \<ge> cutFromOf rep)"

definition coldBoot ::
  "RecoverDeps \<Rightarrow> bytes \<Rightarrow> recoverError + DeltaCRDTEngine \<times> WAL \<times> Replayed" where
  "coldBoot D nodeID =
     (case OpenWAL None True \<lparr>fbytes = [], fsynced = 0\<rparr> of
        Inl err \<Rightarrow> Inl (RecReopen err)
      | Inr w \<Rightarrow> Inr (newEngineAt D nodeID 1, w, zeroReplayed))"

definition witnessOf ::
  "Replayed \<Rightarrow> SnapshotImage option \<Rightarrow> u64 \<Rightarrow> fallbackReason \<Rightarrow> nat \<Rightarrow> ReplayState \<Rightarrow> nat \<Rightarrow> bool \<Rightarrow>
     RecoveryWitness" where
  "witnessOf rep img slh reason phantoms st holes postTail =
     \<lparr>Bounded = (img \<noteq> None), ReplayedRecords = rsReplayed st, SnapshotLamportHigh = slh,
      FallbackReason = reason, CheckpointSeq = FinalCheckptSeq rep, LocalPhantomsRejected = phantoms,
      ExactWALFallback = (reason \<noteq> NoFallback \<and> reason \<noteq> NoCheckpoint), LegacyRecords = rsLegacy st,
      HolesRepaired = holes,
      IntegrityChecksArmed = (img \<noteq> None \<and> cHasFingerprint (FinalCheckpt rep)),
      wLegacyCheckpoint = LegacyCheckpoint rep, PostTailRootArmed = postTail,
      wSeqContiguityVerified = SeqContiguityVerified rep, wRecordsVerified = RecordsVerified rep,
      wClockHighClamped = ClockHighClamped rep, wClockHighRaw = ClockHighRaw rep\<rparr>"

definition zeroWitness :: RecoveryWitness where
  "zeroWitness =
     \<lparr>Bounded = False, ReplayedRecords = 0, SnapshotLamportHigh = 0, FallbackReason = NoFallback,
      CheckpointSeq = 0, LocalPhantomsRejected = 0, ExactWALFallback = False, LegacyRecords = 0,
      HolesRepaired = 0, IntegrityChecksArmed = False, wLegacyCheckpoint = False,
      PostTailRootArmed = False, wSeqContiguityVerified = False, wRecordsVerified = 0,
      wClockHighClamped = False, wClockHighRaw = 0\<rparr>"

text \<open>The file is the log as the boot finds it on disk.\<close>

definition RecoverEngineWithSnapshot ::
  "RecoverDeps \<Rightarrow> bytes \<Rightarrow> File option \<Rightarrow> SnapshotStore option \<Rightarrow>
     recoverError + DeltaCRDTEngine \<times> WAL \<times> Replayed \<times> RecoveryWitness" where
  "RecoverEngineWithSnapshot D nodeID file store =
     (case ReplayWAL (map_option fbytes file) of
        Inl ErrNotExist \<Rightarrow>
          (case coldBoot D nodeID of
             Inl err \<Rightarrow> Inl err | Inr (e, w, rep0) \<Rightarrow> Inr (e, w, rep0, zeroWitness))
      | Inl err \<Rightarrow> Inl (RecReplay err)
      | Inr rep \<Rightarrow>
          (case loadImage store rep of
             Inl err \<Rightarrow> Inl err
           | Inr (img0, slh, reason0) \<Rightarrow>
               let phantoms = (case img0 of None \<Rightarrow> 0 | Some im \<Rightarrow> countPhantoms nodeID rep im);
                   img = (if phantoms > 0 then None else img0);
                   reason = (if phantoms > 0 then PhantomDots else reason0)
               in (case rebuild D nodeID rep img of
                     Inl err \<Rightarrow> Inl err
                   | Inr (st, holes) \<Rightarrow>
                       (case OpenWAL None True (the file) of
                          Inl err \<Rightarrow> Inl (RecReopen err)
                        | Inr w \<Rightarrow>
                            let e = rsEngine st;
                                postTail = (HasCheckpoint rep \<and> checkpointFinal rep \<and> img \<noteq> None \<and>
                                            phantoms = 0 \<and> holes = 0)
                            in if postTail \<and> MerkleRootFromShards (rdSha D) e \<noteq> cMerkleRoot (FinalCheckpt rep)
                               then Inl ErrRecoveryRootMismatch
                               else Inr (e, w, rep, witnessOf rep img slh reason phantoms st holes postTail)))))"

definition RecoverEngine ::
  "RecoverDeps \<Rightarrow> bytes \<Rightarrow> File option \<Rightarrow> recoverError + DeltaCRDTEngine \<times> WAL \<times> Replayed" where
  "RecoverEngine D nodeID file =
     (case RecoverEngineWithSnapshot D nodeID file None of
        Inl err \<Rightarrow> Inl err | Inr (e, w, rep, _) \<Rightarrow> Inr (e, w, rep))"

end
