(* ===== verification/Bridge.thy ===== *)
theory Bridge
  imports Recovery
begin

text \<open>
  The write-through bridge between the engine and the log (\<^verbatim>\<open>pkg/durability/bridge.go\<close>): the local
  write paths, the checkpoint with its image and its index delta, and the scheduler of the periodic
  checkpoints. The results of the file operations, the clock readings around an append, the iteration
  order of the map of latest entries and the result of the index flush are arguments.
\<close>

unbundle bit_operations_syntax

section \<open>State\<close>

record Bridge =
  bEngine :: DeltaCRDTEngine
  bWal :: WAL
  bSnapshotter :: "LocalFS option"
  bScratchDir :: gostring
  checkpointInterval :: u64
  ckptCounter :: u64
  ckptState :: u64
  ckptErrors :: u64
  commitCount :: u64
  commitAppendNs :: int
  commitMaxAppendNs :: int
  slowCommitLogNs :: int
  snapshotIndexEnabled :: bool
  lastFlushedDot :: "gostring \<rightharpoonup> CausalDot"

definition NewBridge :: "DeltaCRDTEngine \<Rightarrow> WAL \<Rightarrow> u64 \<Rightarrow> Bridge" where
  "NewBridge e w interval =
     \<lparr>bEngine = e, bWal = w, bSnapshotter = None, bScratchDir = [], checkpointInterval = interval,
      ckptCounter = 0, ckptState = 0, ckptErrors = 0, commitCount = 0, commitAppendNs = 0,
      commitMaxAppendNs = 0, slowCommitLogNs = 1000000000, snapshotIndexEnabled = False,
      lastFlushedDot = Map.empty\<rparr>"

definition SetScratchDir :: "gostring \<Rightarrow> Bridge \<Rightarrow> Bridge" where
  "SetScratchDir dir b = b\<lparr>bScratchDir := dir\<rparr>"

definition SetSnapshotter :: "LocalFS option \<Rightarrow> bool \<Rightarrow> Bridge \<Rightarrow> Bridge" where
  "SetSnapshotter lfs enableIndex b = b\<lparr>bSnapshotter := lfs, snapshotIndexEnabled := enableIndex\<rparr>"

text \<open>The sums of the instruments are kept as integers, the number of commits at its width.\<close>

definition noteCommit :: "int \<Rightarrow> Bridge \<Rightarrow> Bridge" where
  "noteCommit ns b =
     b\<lparr>commitCount := commitCount b + 1, commitAppendNs := commitAppendNs b + ns,
       commitMaxAppendNs := (if ns \<le> commitMaxAppendNs b then commitMaxAppendNs b else ns)\<rparr>"

definition slowCommit :: "int \<Rightarrow> Bridge \<Rightarrow> bool" where
  "slowCommit ns b \<longleftrightarrow> slowCommitLogNs b > 0 \<and> ns > slowCommitLogNs b"

definition CommitStats :: "Bridge \<Rightarrow> u64 \<times> int \<times> int" where
  "CommitStats b = (commitCount b, commitAppendNs b, commitMaxAppendNs b)"

definition RecordClockAdvance :: "nat option \<Rightarrow> bool \<Rightarrow> Bridge \<Rightarrow> walError option \<times> Bridge" where
  "RecordClockAdvance wr ok b =
     (case AppendClockAdvance wr ok (LamportCounter (bEngine b)) (bWal b) of
        (err, w) \<Rightarrow> (err, b\<lparr>bWal := w\<rparr>))"

section \<open>The checkpoint scheduler\<close>

definition ckptRunnerBit :: u64 where "ckptRunnerBit = 1"

definition ckptClosingBit :: u64 where "ckptClosingBit = push_bit 63 1"

definition ckptPendingMask :: u64 where "ckptPendingMask = push_bit 62 1 - 1"

definition ckptPending :: "u64 \<Rightarrow> u64" where
  "ckptPending s = drop_bit 1 s AND ckptPendingMask"

definition ckptIdle :: "u64 \<Rightarrow> bool" where
  "ckptIdle s \<longleftrightarrow> s AND NOT ckptClosingBit = 0"

text \<open>
  The word that a designation tries to swap in, and whether the caller starts the runner:
  nothing on a closing bridge, one more unit for the runner in flight, or the claim of the runner.
\<close>

datatype designation = Refused | Pended u64 | Claimed u64

definition designateWord :: "u64 \<Rightarrow> designation" where
  "designateWord s =
     (if s AND ckptClosingBit \<noteq> 0 then Refused
      else if s AND ckptRunnerBit \<noteq> 0 then Pended (s + 2)
      else Claimed ((s + 2) OR ckptRunnerBit))"

text \<open>What the runner swaps in after a checkpoint; the flag tells whether it stops.\<close>

definition drainWord :: "u64 \<Rightarrow> u64 \<times> bool" where
  "drainWord s = (if ckptPending s = 1 then (s AND ckptClosingBit, True) else (s - 2, False))"

definition closeWord :: "u64 \<Rightarrow> u64" where
  "closeWord s = (if s AND ckptClosingBit \<noteq> 0 then s else s OR ckptClosingBit)"

definition crosses :: "u64 \<Rightarrow> u64 \<Rightarrow> u64 \<Rightarrow> bool" where
  "crosses k tot n \<longleftrightarrow> \<not> tot div k = (tot - n) div k"

text \<open>Without contention the swap succeeds at once; the flag asks for the start of the runner.\<close>

definition designateCheckpoint :: "Bridge \<Rightarrow> Bridge \<times> bool" where
  "designateCheckpoint b =
     (case designateWord (ckptState b) of
        Refused \<Rightarrow> (b, False)
      | Pended s \<Rightarrow> (b\<lparr>ckptState := s\<rparr>, False)
      | Claimed s \<Rightarrow> (b\<lparr>ckptState := s\<rparr>, True))"

definition noteMutations :: "u64 \<Rightarrow> Bridge \<Rightarrow> Bridge \<times> bool" where
  "noteMutations n b =
     (if checkpointInterval b = 0 then (b, False)
      else
        let tot = ckptCounter b + n; b1 = b\<lparr>ckptCounter := tot\<rparr> in
        if \<not> crosses (checkpointInterval b) tot n then (b1, False)
        else designateCheckpoint b1)"

section \<open>The write paths\<close>

definition PutLocal ::
  "hasher \<Rightarrow> (bytes \<Rightarrow> bytes) \<Rightarrow> nat option \<Rightarrow> bool \<Rightarrow> int \<Rightarrow> gostring \<Rightarrow> bytes \<Rightarrow> CRDTEntry \<Rightarrow> Bridge \<Rightarrow>
     ((CausalDot \<times> walError option) \<times> Bridge \<times> bool) option" where
  "PutLocal mh sha256 wr ok ns entityId payload entry b =
     (let entry1 = entry\<lparr>PayloadDigest := sha256 payload\<rparr> in
      case InsertLocal mh entityId entry1 (bEngine b) of
        None \<Rightarrow> None
      | Some (dot, e) \<Rightarrow>
          (case AppendMutation wr ok (NewWALMutation entityId dot entry1) (bWal b) of
             (Some err, w) \<Rightarrow> Some ((dot, Some err), noteCommit ns (b\<lparr>bEngine := e, bWal := w\<rparr>), False)
           | (None, w) \<Rightarrow>
               (case noteMutations 1 (noteCommit ns (b\<lparr>bEngine := e, bWal := w\<rparr>)) of
                  (b', spawn) \<Rightarrow> Some ((dot, None), b', spawn))))"

record LocalItem =
  liEntityID :: gostring
  liPayload :: bytes
  liEntry :: CRDTEntry

primrec insertItems ::
  "hasher \<Rightarrow> (bytes \<Rightarrow> bytes) \<Rightarrow> LocalItem list \<Rightarrow> DeltaCRDTEngine \<Rightarrow>
     ((CausalDot \<times> WALMutation) list \<times> DeltaCRDTEngine) option" where
  "insertItems mh sha256 [] e = Some ([], e)"
| "insertItems mh sha256 (it # its) e =
     (let entry1 = (liEntry it)\<lparr>PayloadDigest := sha256 (liPayload it)\<rparr> in
      case InsertLocal mh (liEntityID it) entry1 e of
        None \<Rightarrow> None
      | Some (dot, e1) \<Rightarrow>
          (case insertItems mh sha256 its e1 of
             None \<Rightarrow> None
           | Some (ms, e2) \<Rightarrow> Some ((dot, NewWALMutation (liEntityID it) dot entry1) # ms, e2)))"

definition PutLocals ::
  "hasher \<Rightarrow> (bytes \<Rightarrow> bytes) \<Rightarrow> (nat \<Rightarrow> nat option) \<Rightarrow> bool \<Rightarrow> int \<Rightarrow> LocalItem list \<Rightarrow> Bridge \<Rightarrow>
     ((CausalDot list \<times> int \<times> walError option) \<times> Bridge \<times> bool) option" where
  "PutLocals mh sha256 wr ok ns items b =
     (case insertItems mh sha256 items (bEngine b) of
        None \<Rightarrow> None
      | Some (ms, e) \<Rightarrow>
          (case AppendMutations wr ok (map snd ms) (bWal b) of
             ((_, err), w) \<Rightarrow>
               let b1 = noteCommit ns (b\<lparr>bEngine := e, bWal := w\<rparr>) in
               if err \<noteq> None then Some ((map fst ms, 0, err), b1, False)
               else (case noteMutations (of_nat (length items)) b1 of
                       (b', spawn) \<Rightarrow> Some ((map fst ms, -1, None), b', spawn))))"

section \<open>The checkpoint\<close>

text \<open>The callback of the pinned walk: all records, and the latest entry of every entity.\<close>

definition captureRecord ::
  "gostring \<Rightarrow> CRDTEntry \<Rightarrow> SnapshotRecord list \<times> (gostring \<times> CRDTEntry) list \<Rightarrow>
     SnapshotRecord list \<times> (gostring \<times> CRDTEntry) list" where
  "captureRecord entityId en st =
     (case st of (recs, latest) \<Rightarrow>
        (recs @ [(entityId, en)],
         (case map_of latest entityId of
            None \<Rightarrow> AList.update entityId en latest
          | Some cur \<Rightarrow>
              if compareDotsLocal (Dot cur) (Dot en) < 0 then AList.update entityId en latest else latest)))"

definition captureFn ::
  "bool \<Rightarrow> gostring \<Rightarrow> CRDTEntry list \<Rightarrow> SnapshotRecord list \<times> (gostring \<times> CRDTEntry) list \<Rightarrow>
     bool \<times> (SnapshotRecord list \<times> (gostring \<times> CRDTEntry) list)" where
  "captureFn wantImage entityId es st =
     (if \<not> wantImage then (True, st) else (True, fold (captureRecord entityId) es st))"

definition checkpointOf ::
  "(bytes \<Rightarrow> bytes) \<Rightarrow> bool \<Rightarrow> bytes \<Rightarrow> u64 \<Rightarrow> SnapshotRecord list \<Rightarrow> u64 \<Rightarrow> u64 \<Rightarrow> WALCheckpoint" where
  "checkpointOf sha256 wantImage merkle maxLocalDot recs cutSeq clockHigh =
     \<lparr>cMerkleRoot = merkle,
      cFingerprint = (if wantImage then fingerprintRecords sha256 recs else replicate 32 0),
      cLamportHigh = maxLocalDot, cCutSeq = cutSeq, cClockHigh = clockHigh, cHasCutSeq = True,
      cHasFingerprint = wantImage\<rparr>"

definition imageOf :: "bytes \<Rightarrow> u64 \<Rightarrow> SnapshotRecord list \<Rightarrow> u64 \<Rightarrow> SnapshotImage" where
  "imageOf merkle maxLocalDot recs cutSeq =
     \<lparr>imgRecords = recs, imgMerkleRoot = merkle, imgLamportHigh = maxLocalDot, imgCutSeq = cutSeq\<rparr>"

definition planQueryTierDelta ::
  "((gostring \<times> CRDTEntry) list \<Rightarrow> (gostring \<times> CRDTEntry) list) \<Rightarrow> (gostring \<times> CRDTEntry) list \<Rightarrow> Bridge \<Rightarrow>
     (gostring \<times> CRDTEntry) list" where
  "planQueryTierDelta order latest b =
     filter (\<lambda>(k, en). lastFlushedDot b k \<noteq> Some (Dot en)) (order latest)"

definition commitQueryTierDelta :: "(gostring \<times> CRDTEntry) list \<Rightarrow> Bridge \<Rightarrow> Bridge" where
  "commitQueryTierDelta delta b =
     b\<lparr>lastFlushedDot := fold (\<lambda>(k, en) m. m(k \<mapsto> Dot en)) delta (lastFlushedDot b)\<rparr>"

text \<open>The outcomes of the file operations of one checkpoint.\<close>

record CkptIO =
  ioWrite :: "nat option"
  ioSync :: bool
  ioUpload :: uploadOutcome
  ioMemTable :: bool
  ioFlush :: bool
  ioOrder :: "(gostring \<times> CRDTEntry) list \<Rightarrow> (gostring \<times> CRDTEntry) list"

datatype ckptError = CkptWAL walError | CkptMemTable | CkptImage | CkptFlush

definition AppendCheckpoint ::
  "(bytes \<Rightarrow> bytes) \<Rightarrow> CkptIO \<Rightarrow> Bridge \<Rightarrow> ckptError option \<times> Bridge" where
  "AppendCheckpoint sha256 io b =
     (let cutSeq = NextSeq (bWal b); wantImage = (bSnapshotter b \<noteq> None);
          (merkle, maxLocalDot, recs, latest) =
            CaptureShardsPinned sha256 (captureFn wantImage) (bEngine b) ([], []);
          ckpt = checkpointOf sha256 wantImage merkle maxLocalDot recs cutSeq (LamportCounter (bEngine b))
      in case AppendCheckpoint_wal (ioWrite io) (ioSync io) ckpt (bWal b) of
           (Some err, w) \<Rightarrow> (Some (CkptWAL err), b\<lparr>bWal := w\<rparr>)
         | (None, w) \<Rightarrow>
             let b1 = b\<lparr>bWal := w\<rparr> in
             (case bSnapshotter b of
                None \<Rightarrow> (None, b1)
              | Some lfs \<Rightarrow>
                  if snapshotIndexEnabled b \<and> \<not> ioMemTable io then (Some CkptMemTable, b1)
                  else
                    (case WriteSnapshotImage (ioUpload io) (imageOf merkle maxLocalDot recs cutSeq) lfs of
                       (written, lfs') \<Rightarrow>
                         let b2 = b1\<lparr>bSnapshotter := Some lfs'\<rparr> in
                         if \<not> written then (Some CkptImage, b2)
                         else if \<not> snapshotIndexEnabled b then (None, b2)
                         else
                           let delta = planQueryTierDelta (ioOrder io) latest b2 in
                           if ioFlush io then (None, commitQueryTierDelta delta b2)
                           else (Some CkptFlush, b2))))"

text \<open>One turn of the runner: a checkpoint, whose failure is only counted, and the swap.\<close>

definition drainOnce :: "(bytes \<Rightarrow> bytes) \<Rightarrow> CkptIO \<Rightarrow> Bridge \<Rightarrow> Bridge \<times> bool" where
  "drainOnce sha256 io b =
     (case AppendCheckpoint sha256 io b of
        (err, b1) \<Rightarrow>
          let b2 = (if err \<noteq> None then b1\<lparr>ckptErrors := ckptErrors b1 + 1\<rparr> else b1) in
          (case drainWord (ckptState b2) of (s, stop) \<Rightarrow> (b2\<lparr>ckptState := s\<rparr>, stop)))"

definition CheckpointErrors :: "Bridge \<Rightarrow> u64" where
  "CheckpointErrors b = ckptErrors b"

end
