(* ===== verification/Ckpt_Sched.thy ===== *)
theory Ckpt_Sched
  imports Bridge
begin

text \<open>
  The scheduler of the periodic checkpoints under concurrency. Threads interleave at the atomic
  operations of \<^verbatim>\<open>noteMutations\<close>, \<^verbatim>\<open>designateCheckpoint\<close>, \<^verbatim>\<open>drainCheckpoints\<close> and \<^verbatim>\<open>Close\<close>: the
  addition to the counter, and the load and the compare-and-swap of the packed word.
\<close>

unbundle bit_operations_syntax

section \<open>The packed word\<close>

definition packed :: "nat \<Rightarrow> bool \<Rightarrow> bool \<Rightarrow> u64" where
  "packed p r c = of_nat (2 * p + of_bool r + 2 ^ 63 * of_bool c)"

lemma unat_packed:
  assumes "p < 2 ^ 62"
  shows "unat (packed p r c) = 2 * p + of_bool r + 2 ^ 63 * of_bool c"
proof -
  have "2 * p + of_bool r + 2 ^ 63 * of_bool c < (2 ^ 64 :: nat)" using assms by (cases r; cases c; simp)
  then show ?thesis unfolding packed_def unat_of_nat by simp
qed

lemma bit_u64_iff: "n < 64 \<Longrightarrow> bit w n \<longleftrightarrow> odd (unat w div 2 ^ n)" for w :: u64
  using bit_unsigned_iff [where 'b = 64 and 'a = nat, of w n] by (simp add: bit_iff_odd)

lemma bit63_packed: "p < 2 ^ 62 \<Longrightarrow> bit (packed p r c) 63 = c"
proof -
  assume p: "p < 2 ^ 62"
  have "(2 * p + of_bool r + 2 ^ 63 * of_bool c) div 2 ^ 63 = (of_bool c :: nat)"
    using p by (intro div_nat_eqI) (cases r; cases c; simp)+
  then show ?thesis using p by (simp add: bit_u64_iff unat_packed)
qed

lemma bit0_packed: "p < 2 ^ 62 \<Longrightarrow> bit (packed p r c) 0 = r"
  by (simp add: bit_u64_iff unat_packed)

lemma and_closing: "w AND ckptClosingBit = (if bit w 63 then ckptClosingBit else 0)" for w :: u64
proof (rule bit_word_eqI)
  have "bit ckptClosingBit n \<longleftrightarrow> n = 63" for n
    unfolding ckptClosingBit_def bit_push_bit_iff bit_1_iff by auto
  then show "bit (w AND ckptClosingBit) n = bit (if bit w 63 then ckptClosingBit else 0) n" for n
    by (auto simp: bit_and_iff)
qed

lemma closing_nonzero: "ckptClosingBit \<noteq> 0"
  by (simp add: ckptClosingBit_def)

lemma packed_closing: "p < 2 ^ 62 \<Longrightarrow> packed p r c AND ckptClosingBit = packed 0 False c"
  by (simp add: and_closing bit63_packed) (simp add: packed_def ckptClosingBit_def)

lemma packed_closing_iff: "p < 2 ^ 62 \<Longrightarrow> packed p r c AND ckptClosingBit \<noteq> 0 \<longleftrightarrow> c"
  by (simp add: and_closing bit63_packed closing_nonzero)

lemma packed_runner_iff: "p < 2 ^ 62 \<Longrightarrow> packed p r c AND ckptRunnerBit \<noteq> 0 \<longleftrightarrow> r"
  using bit0_packed [of p r c] by (simp add: ckptRunnerBit_def and_one_eq bit_0 odd_iff_mod_2_eq_one)

lemma packed_pend: "packed p r c + 2 = packed (Suc p) r c"
  by (simp add: packed_def)

lemma packed_claim: "p < 2 ^ 62 - 1 \<Longrightarrow> (packed p False c + 2) OR ckptRunnerBit = packed (Suc p) True c"
proof -
  assume p: "p < 2 ^ 62 - 1"
  have "even (packed (Suc p) False c)" using p bit0_packed [of "Suc p" False c] by (simp add: bit_0)
  then have "packed (Suc p) False c OR 1 = packed (Suc p) False c + 1" by (simp add: or_one_eq)
  then show ?thesis by (simp add: packed_pend ckptRunnerBit_def) (simp add: packed_def)
qed

lemma packed_drain: "packed (Suc p) r c - 2 = packed p r c"
  by (simp add: packed_def)

lemma packed_pending: "p < 2 ^ 62 \<Longrightarrow> ckptPending (packed p r c) = of_nat p"
proof -
  assume p: "p < 2 ^ 62"
  have m: "ckptPendingMask = mask 62" by (simp add: ckptPendingMask_def mask_eq_exp_minus_1)
  have "unat (packed p r c) < 2 ^ 64" using p by (cases r; cases c) (simp_all add: unat_packed)
  then have "unat (ckptPending (packed p r c)) = (unat (packed p r c) div 2) mod 2 ^ 62"
    unfolding ckptPending_def m take_bit_eq_mask [symmetric]
    by (subst unsigned_take_bit_eq, subst unsigned_drop_bit_eq)
      (simp add: take_bit_eq_mod drop_bit_eq_div flip: take_bit_drop_bit)
  also have "\<dots> = p" using p by (cases r; cases c) (simp_all add: unat_packed)
  finally show ?thesis using p by (simp add: word_unat_eq_iff unat_of_nat)
qed

lemma packed_idle: "p < 2 ^ 62 \<Longrightarrow> ckptIdle (packed p r c) \<longleftrightarrow> p = 0 \<and> \<not> r"
proof -
  assume p: "p < 2 ^ 62"
  have split: "packed p r c = (packed p r c AND NOT ckptClosingBit) + (packed p r c AND ckptClosingBit)"
    by (subst disjunctive_add) (auto simp: bit_simps intro: bit_word_eqI)
  have "packed p r c AND NOT ckptClosingBit = packed p r False"
    using split unfolding packed_closing [OF p] by (simp add: packed_def)
  moreover have "packed p r False = 0 \<longleftrightarrow> unat (packed p r False) = 0" by (simp add: unat_eq_0)
  ultimately show ?thesis using p by (simp add: ckptIdle_def unat_packed)
qed

lemma packed_close: "p < 2 ^ 62 \<Longrightarrow> closeWord (packed p r c) = packed p r True"
proof -
  assume p: "p < 2 ^ 62"
  show ?thesis
  proof (cases c)
    case False
    have "packed p r False OR ckptClosingBit = packed p r False + ckptClosingBit"
    proof -
      have "packed p r False AND ckptClosingBit = 0" using packed_closing_iff [OF p, of r False] by simp
      then show ?thesis by (simp add: disjunctive_add_eq_or)
    qed
    then show ?thesis
      using False packed_closing_iff [OF p, of r False]
      by (simp add: closeWord_def) (simp add: packed_def ckptClosingBit_def)
  qed (use p in \<open>simp add: closeWord_def packed_closing_iff\<close>)
qed

section \<open>Crossings of the interval\<close>

text \<open>Without wrap-around an addition crosses exactly when its half-open interval holds a multiple of the interval.\<close>

lemma crosses_iff:
  assumes "k \<noteq> 0" "unat c + unat n < 2 ^ 64"
  shows "crosses k (c + n) n \<longleftrightarrow> unat c div unat k < (unat c + unat n) div unat k"
proof -
  have "unat (c + n) = unat c + unat n" using assms(2) by (simp add: unat_word_ariths)
  then have "crosses k (c + n) n \<longleftrightarrow> (unat c + unat n) div unat k \<noteq> unat c div unat k"
    by (simp add: crosses_def word_unat_eq_iff unat_div)
  moreover have "unat c div unat k \<le> (unat c + unat n) div unat k" by (simp add: div_le_mono)
  ultimately show ?thesis by linarith
qed

lemma div_step:
  fixes c k :: nat
  assumes "0 < k"
  shows "Suc c div k = c div k + of_bool (c div k < Suc c div k)"
  using assms by (simp add: div_Suc)

section \<open>Threads\<close>

datatype thread =
    TIdle
  | TDesignate
  | TDesLoaded u64
  | TBody
  | TDrain
  | TDrLoaded u64
  | TClose
  | TCloseLoaded u64
  | TWait

text \<open>
  The flags tell that \<^verbatim>\<open>Close\<close> has torn down the bridge and that some call noted more than one
  mutation. The last fields count: the mutations, the calls that own a crossing, the checkpoints that were
  completed and the designations that a closing bridge refused.
\<close>

record SchedSys =
  scWord :: u64
  scCounter :: u64
  scThr :: "nat \<Rightarrow> thread"
  scTorn :: bool
  scBatched :: bool
  scMutations :: nat
  scCrossings :: nat
  scRuns :: nat
  scRefused :: nat

definition sched_start :: SchedSys where
  "sched_start = \<lparr>scWord = 0, scCounter = 0, scThr = (\<lambda>_. TIdle), scTorn = False, scBatched = False,
     scMutations = 0, scCrossings = 0, scRuns = 0, scRefused = 0\<rparr>"

inductive sched_step :: "u64 \<Rightarrow> SchedSys \<Rightarrow> SchedSys \<Rightarrow> bool" for k where
  note_quiet:
    "scThr s t = TIdle \<Longrightarrow> unat (scCounter s) + unat n < 2 ^ 64 \<Longrightarrow>
     \<not> crosses k (scCounter s + n) n \<Longrightarrow>
     sched_step k s (s\<lparr>scCounter := scCounter s + n, scMutations := scMutations s + unat n,
                       scBatched := (scBatched s \<or> n \<noteq> 1)\<rparr>)"
| note_crossing:
    "scThr s t = TIdle \<Longrightarrow> unat (scCounter s) + unat n < 2 ^ 64 \<Longrightarrow> scCrossings s < 2 ^ 62 - 2 \<Longrightarrow>
     crosses k (scCounter s + n) n \<Longrightarrow>
     sched_step k s (s\<lparr>scCounter := scCounter s + n, scMutations := scMutations s + unat n,
                       scBatched := (scBatched s \<or> n \<noteq> 1),
                       scThr := (scThr s)(t := TDesignate), scCrossings := Suc (scCrossings s)\<rparr>)"
| designate_load:
    "scThr s t = TDesignate \<Longrightarrow>
     sched_step k s (s\<lparr>scThr := (scThr s)(t := TDesLoaded (scWord s))\<rparr>)"
| designate_refused:
    "scThr s t = TDesLoaded w \<Longrightarrow> designateWord w = Refused \<Longrightarrow>
     sched_step k s (s\<lparr>scThr := (scThr s)(t := TIdle), scRefused := Suc (scRefused s)\<rparr>)"
| designate_retry:
    "scThr s t = TDesLoaded w \<Longrightarrow> designateWord w \<noteq> Refused \<Longrightarrow> scWord s \<noteq> w \<Longrightarrow>
     sched_step k s (s\<lparr>scThr := (scThr s)(t := TDesignate)\<rparr>)"
| designate_pend:
    "scThr s t = TDesLoaded w \<Longrightarrow> designateWord w = Pended w' \<Longrightarrow> scWord s = w \<Longrightarrow>
     sched_step k s (s\<lparr>scWord := w', scThr := (scThr s)(t := TIdle)\<rparr>)"
| designate_claim:
    "scThr s t = TDesLoaded w \<Longrightarrow> designateWord w = Claimed w' \<Longrightarrow> scWord s = w \<Longrightarrow> scThr s u = TIdle \<Longrightarrow>
     sched_step k s (s\<lparr>scWord := w', scThr := (scThr s)(t := TIdle, u := TBody)\<rparr>)"
| drain_body:
    "scThr s t = TBody \<Longrightarrow>
     sched_step k s (s\<lparr>scThr := (scThr s)(t := TDrain), scRuns := Suc (scRuns s)\<rparr>)"
| drain_load:
    "scThr s t = TDrain \<Longrightarrow>
     sched_step k s (s\<lparr>scThr := (scThr s)(t := TDrLoaded (scWord s))\<rparr>)"
| drain_retry:
    "scThr s t = TDrLoaded w \<Longrightarrow> scWord s \<noteq> w \<Longrightarrow>
     sched_step k s (s\<lparr>scThr := (scThr s)(t := TDrain)\<rparr>)"
| drain_next:
    "scThr s t = TDrLoaded w \<Longrightarrow> scWord s = w \<Longrightarrow> drainWord w = (w', False) \<Longrightarrow>
     sched_step k s (s\<lparr>scWord := w', scThr := (scThr s)(t := TBody)\<rparr>)"
| drain_stop:
    "scThr s t = TDrLoaded w \<Longrightarrow> scWord s = w \<Longrightarrow> drainWord w = (w', True) \<Longrightarrow>
     sched_step k s (s\<lparr>scWord := w', scThr := (scThr s)(t := TIdle)\<rparr>)"
| close_call:
    "scThr s t = TIdle \<Longrightarrow> sched_step k s (s\<lparr>scThr := (scThr s)(t := TClose)\<rparr>)"
| close_load:
    "scThr s t = TClose \<Longrightarrow>
     sched_step k s (s\<lparr>scThr := (scThr s)(t := TCloseLoaded (scWord s))\<rparr>)"
| close_retry:
    "scThr s t = TCloseLoaded w \<Longrightarrow> closeWord w \<noteq> w \<Longrightarrow> scWord s \<noteq> w \<Longrightarrow>
     sched_step k s (s\<lparr>scThr := (scThr s)(t := TClose)\<rparr>)"
| close_swap:
    "scThr s t = TCloseLoaded w \<Longrightarrow> closeWord w \<noteq> w \<Longrightarrow> scWord s = w \<Longrightarrow>
     sched_step k s (s\<lparr>scWord := closeWord w, scThr := (scThr s)(t := TWait)\<rparr>)"
| close_again:
    "scThr s t = TCloseLoaded w \<Longrightarrow> closeWord w = w \<Longrightarrow>
     sched_step k s (s\<lparr>scThr := (scThr s)(t := TWait)\<rparr>)"
| close_idle:
    "scThr s t = TWait \<Longrightarrow> ckptIdle (scWord s) \<Longrightarrow>
     sched_step k s (s\<lparr>scThr := (scThr s)(t := TIdle), scTorn := True\<rparr>)"

section \<open>The invariant\<close>

fun designating :: "thread \<Rightarrow> bool" where
  "designating TDesignate = True"
| "designating (TDesLoaded _) = True"
| "designating _ = False"

fun runner :: "thread \<Rightarrow> bool" where
  "runner TBody = True"
| "runner TDrain = True"
| "runner (TDrLoaded _) = True"
| "runner _ = False"

fun hasRun :: "thread \<Rightarrow> bool" where
  "hasRun TDrain = True"
| "hasRun (TDrLoaded _) = True"
| "hasRun _ = False"

fun loaded :: "thread \<Rightarrow> u64 option" where
  "loaded (TDesLoaded w) = Some w"
| "loaded (TDrLoaded w) = Some w"
| "loaded (TCloseLoaded w) = Some w"
| "loaded _ = None"

definition threads :: "(thread \<Rightarrow> bool) \<Rightarrow> (nat \<Rightarrow> thread) \<Rightarrow> nat" where
  "threads P f = card {t. P (f t)}"

lemma threads_upd:
  assumes "finite {t. f t \<noteq> TIdle}" "\<not> P TIdle"
  shows "threads P (f(t := x)) + of_bool (P (f t)) = threads P f + of_bool (P x)"
proof -
  let ?A = "{u. P (f u)}"
  have fin: "finite ?A" by (rule finite_subset [OF _ assms(1)]) (use assms(2) in auto)
  have "{u. P ((f(t := x)) u)} = (if P x then insert t (?A - {t}) else ?A - {t})" by auto
  moreover have "card ?A = card (?A - {t}) + of_bool (P (f t))"
    using card.remove [OF fin, of t] by (cases "P (f t)") simp_all
  ultimately show ?thesis using fin by (simp add: threads_def card.insert_remove)
qed

lemma threads_pos: "finite {t. f t \<noteq> TIdle} \<Longrightarrow> \<not> P TIdle \<Longrightarrow> P (f t) \<Longrightarrow> 0 < threads P f"
proof -
  assume "finite {t. f t \<noteq> TIdle}" "\<not> P TIdle" "P (f t)"
  moreover from this have "finite {u. P (f u)}" by (intro finite_subset [of "{u. P (f u)}"]) auto
  ultimately show ?thesis by (auto simp: threads_def card_gt_0_iff)
qed

definition sched_inv :: "u64 \<Rightarrow> SchedSys \<Rightarrow> bool" where
  "sched_inv k s \<longleftrightarrow>
     (\<exists>p r c. scWord s = packed p r c \<and> p < 2 ^ 62 \<and> r = (0 < p) \<and>
        threads runner (scThr s) = of_bool r \<and>
        scCrossings s + threads hasRun (scThr s) = scRefused s + threads designating (scThr s) + scRuns s + p \<and>
        (\<forall>t w. loaded (scThr s t) = Some w \<longrightarrow> bit w 63 \<longrightarrow> c) \<and>
        (\<forall>t. scThr s t = TWait \<longrightarrow> c) \<and> (0 < scRefused s \<longrightarrow> c) \<and> (scTorn s \<longrightarrow> c \<and> p = 0)) \<and>
     finite {t. scThr s t \<noteq> TIdle} \<and> scMutations s = unat (scCounter s) \<and> scCrossings s < 2 ^ 62 - 1 \<and>
     scCrossings s \<le> scMutations s div unat k \<and>
     (\<not> scBatched s \<longrightarrow> scCrossings s = scMutations s div unat k)"

lemma sched_start_inv: "sched_inv k sched_start"
  unfolding sched_inv_def
  by (rule conjI, rule exI [of _ 0], rule exI [of _ False], rule exI [of _ False])
    (simp_all add: sched_start_def packed_def threads_def)

lemma designateWord_packed:
  assumes "p < 2 ^ 62 - 1"
  shows "designateWord (packed p r c) =
    (if c then Refused else if r then Pended (packed (Suc p) True c) else Claimed (packed (Suc p) True c))"
  using assms packed_closing_iff [of p r c] packed_runner_iff [of p r c] packed_claim [of p c]
  by (cases r) (auto simp: designateWord_def packed_pend)

lemma drainWord_packed:
  assumes "0 < p" "p < 2 ^ 62"
  shows "drainWord (packed p r c) = (if p = 1 then (packed 0 False c, True) else (packed (p - 1) r c, False))"
proof -
  have "ckptPending (packed p r c) = 1 \<longleftrightarrow> p = 1"
    using assms(2) by (simp add: packed_pending word_unat_eq_iff unat_of_nat)
  then show ?thesis
    using assms packed_closing [of p r c] packed_drain [of "p - 1" r c] by (auto simp: drainWord_def)
qed

lemma designateWord_bit: "designateWord w = Refused \<longleftrightarrow> bit w 63"
  using closing_nonzero by (simp add: designateWord_def and_closing)

lemma closeWord_same: "closeWord w = w \<Longrightarrow> bit w 63"
proof (rule ccontr)
  assume "closeWord w = w" "\<not> bit w 63"
  then have "w OR ckptClosingBit = w" by (simp add: closeWord_def and_closing)
  then have "bit w 63 \<or> bit ckptClosingBit 63 \<longleftrightarrow> bit w 63" by (metis bit_or_iff)
  moreover have "bit ckptClosingBit 63" using bit63_packed [of 0 False True] by (simp add: packed_def ckptClosingBit_def)
  ultimately show False using \<open>\<not> bit w 63\<close> by simp
qed

text \<open>The parts of the invariant that do not depend on the word.\<close>

definition sched_frame :: "u64 \<Rightarrow> SchedSys \<Rightarrow> bool" where
  "sched_frame k s \<longleftrightarrow>
     finite {t. scThr s t \<noteq> TIdle} \<and> scMutations s = unat (scCounter s) \<and> scCrossings s < 2 ^ 62 - 1 \<and>
     scCrossings s \<le> scMutations s div unat k \<and>
     (\<not> scBatched s \<longrightarrow> scCrossings s = scMutations s div unat k)"

definition sched_word :: "SchedSys \<Rightarrow> nat \<Rightarrow> bool \<Rightarrow> bool \<Rightarrow> bool" where
  "sched_word s p r c \<longleftrightarrow>
     scWord s = packed p r c \<and> p < 2 ^ 62 \<and> r = (0 < p) \<and> threads runner (scThr s) = of_bool r \<and>
     scCrossings s + threads hasRun (scThr s) = scRefused s + threads designating (scThr s) + scRuns s + p \<and>
     (\<forall>t w. loaded (scThr s t) = Some w \<longrightarrow> bit w 63 \<longrightarrow> c) \<and>
     (\<forall>t. scThr s t = TWait \<longrightarrow> c) \<and> (0 < scRefused s \<longrightarrow> c) \<and> (scTorn s \<longrightarrow> c \<and> p = 0)"

lemma sched_inv_iff: "sched_inv k s \<longleftrightarrow> (\<exists>p r c. sched_word s p r c) \<and> sched_frame k s"
  by (simp add: sched_inv_def sched_frame_def sched_word_def)

lemma finite_upd: "finite {u. f u \<noteq> TIdle} \<Longrightarrow> finite {u. (f(t := x)) u \<noteq> TIdle}"
  by (rule finite_subset [of _ "insert t {u. f u \<noteq> TIdle}"]) auto

lemma sched_frame_step: "sched_step k s s' \<Longrightarrow> k \<noteq> 0 \<Longrightarrow> sched_frame k s \<Longrightarrow> sched_frame k s'"
proof (induction rule: sched_step.induct)
  case (note_quiet s t n)
  have u: "unat (scCounter s + n) = unat (scCounter s) + unat n"
    using note_quiet(2) by (simp add: unat_word_ariths)
  have "unat (scCounter s) div unat k = (unat (scCounter s) + unat n) div unat k"
    using note_quiet(3) crosses_iff [OF note_quiet(4,2)] div_le_mono [of "unat (scCounter s)" "unat (scCounter s) + unat n" "unat k"]
    by simp
  then show ?case using note_quiet(5) u by (auto simp: sched_frame_def)
next
  case (note_crossing s t n)
  have u: "unat (scCounter s + n) = unat (scCounter s) + unat n"
    using note_crossing(2) by (simp add: unat_word_ariths)
  have k: "0 < unat k" using note_crossing(5) by (simp add: unat_gt_0)
  have "unat (scCounter s) div unat k < (unat (scCounter s) + unat n) div unat k"
    using note_crossing(4) crosses_iff [OF note_crossing(5,2)] by simp
  moreover from this have "(unat (scCounter s) + unat n) div unat k = Suc (unat (scCounter s) div unat k)" if "n = 1"
    using that div_step [OF k, of "unat (scCounter s)"] by simp
  ultimately show ?case
    using note_crossing(3,6) u by (auto simp: sched_frame_def intro: finite_upd simp del: fun_upd_apply)
qed (auto simp: sched_frame_def intro: finite_upd simp del: fun_upd_apply)

lemma threads_upd3:
  assumes "finite {u. f u \<noteq> TIdle}"
  shows "threads runner (f(t := x)) + of_bool (runner (f t)) = threads runner f + of_bool (runner x)"
    "threads hasRun (f(t := x)) + of_bool (hasRun (f t)) = threads hasRun f + of_bool (hasRun x)"
    "threads designating (f(t := x)) + of_bool (designating (f t)) = threads designating f + of_bool (designating x)"
  using threads_upd [OF assms] by simp_all

text \<open>A step of one thread that leaves the word alone.\<close>

lemma sched_word_thread:
  assumes "sched_word s p r c" "finite {u. scThr s u \<noteq> TIdle}"
    and "scWord s' = scWord s" "scThr s' = (scThr s)(t := x)"
    and "runner x = runner (scThr s t)"
    and "scCrossings s' + of_bool (hasRun x) + scRefused s + of_bool (designating (scThr s t)) + scRuns s =
         scCrossings s + of_bool (hasRun (scThr s t)) + scRefused s' + of_bool (designating x) + scRuns s'"
    and "\<And>w. loaded x = Some w \<Longrightarrow> bit w 63 \<Longrightarrow> c" "x = TWait \<Longrightarrow> c" "0 < scRefused s' \<Longrightarrow> 0 < scRefused s \<or> c"
    and "scTorn s' \<Longrightarrow> scTorn s \<or> c \<and> p = 0"
  shows "sched_word s' p r c"
proof -
  note u = threads_upd3 [OF assms(2), of t x]
  have "threads runner (scThr s') = threads runner (scThr s)" using u(1) assms(4,5) by simp
  moreover have "scCrossings s' + threads hasRun (scThr s') =
      scRefused s' + threads designating (scThr s') + scRuns s' + p"
    using u(2,3) assms(1,4,6) unfolding sched_word_def by simp
  moreover have "\<forall>t w. loaded (scThr s' t) = Some w \<longrightarrow> bit w 63 \<longrightarrow> c"
    "\<forall>t. scThr s' t = TWait \<longrightarrow> c" using assms(1,4,7,8) by (auto simp: sched_word_def)
  ultimately show ?thesis using assms(1,3,9,10) by (auto simp: sched_word_def)
qed

text \<open>The swaps: one more unit, one unit consumed, and the closing bit.\<close>

lemma sched_word_swap:
  assumes "sched_word s p r c" "finite {u. scThr s u \<noteq> TIdle}" "p' < 2 ^ 62" "c \<Longrightarrow> c'"
    and "scWord s' = packed p' (0 < p') c'" "scThr s' = f" "scTorn s' = scTorn s"
    and "scCrossings s' = scCrossings s" "scRefused s' = scRefused s" "scRuns s' = scRuns s"
    and "threads runner f = of_bool (0 < p')"
    and "threads hasRun f + threads designating (scThr s) + p = threads hasRun (scThr s) + threads designating f + p'"
    and "\<And>u. f u = scThr s u \<or> loaded (f u) = None \<and> (f u = TWait \<longrightarrow> c')"
    and "scTorn s \<Longrightarrow> p' = 0"
  shows "sched_word s' p' (0 < p') c'"
proof -
  have "\<forall>t w. loaded (f t) = Some w \<longrightarrow> bit w 63 \<longrightarrow> c'" "\<forall>t. f t = TWait \<longrightarrow> c'"
    using assms(1,4,13) unfolding sched_word_def by (metis option.distinct(1))+
  then show ?thesis using assms unfolding sched_word_def by auto
qed

lemma threads_hasRun_le: "finite {u. f u \<noteq> TIdle} \<Longrightarrow> threads hasRun f \<le> threads runner f"
  unfolding threads_def
proof (rule card_mono)
  assume "finite {u. f u \<noteq> TIdle}"
  then show "finite {t. runner (f t)}" by (rule finite_subset [rotated]) auto
  show "{t. hasRun (f t)} \<subseteq> {t. runner (f t)}" by (auto elim: hasRun.elims)
qed

lemma sched_word_room:
  assumes "sched_word s p r c" "sched_frame k s" "designating (scThr s t)"
  shows "p < 2 ^ 62 - 1"
proof -
  have fin: "finite {u. scThr s u \<noteq> TIdle}" and cr: "scCrossings s < 2 ^ 62 - 1"
    using assms(2) by (simp_all add: sched_frame_def)
  have "0 < threads designating (scThr s)" using fin assms(3) by (intro threads_pos [of _ _ t]) simp_all
  moreover have "threads hasRun (scThr s) \<le> 1"
    using threads_hasRun_le [OF fin] assms(1) by (cases r) (simp_all add: sched_word_def)
  moreover have "scCrossings s + threads hasRun (scThr s) =
      scRefused s + threads designating (scThr s) + scRuns s + p" using assms(1) by (simp add: sched_word_def)
  ultimately show ?thesis using cr by linarith
qed

lemma sched_word_runner:
  assumes "sched_word s p r c" "sched_frame k s" "runner (scThr s t)"
  shows "0 < p" "\<not> scTorn s"
proof -
  have "0 < threads runner (scThr s)"
    using assms(2,3) by (intro threads_pos [of _ _ t]) (simp_all add: sched_frame_def)
  then show "0 < p" "\<not> scTorn s" using assms(1) by (auto simp: sched_word_def)
qed

lemma sched_word_closed:
  "sched_word s p r c \<Longrightarrow> loaded (scThr s t) = Some w \<Longrightarrow> bit w 63 \<Longrightarrow> c"
  "sched_word s p r c \<Longrightarrow> scThr s t = TWait \<Longrightarrow> c"
  by (auto simp: sched_word_def)

lemma sched_word_bit: "sched_word s p r c \<Longrightarrow> bit (scWord s) 63 = c"
  by (simp add: sched_word_def bit63_packed)

lemma sched_frame_finite: "sched_frame k s \<Longrightarrow> finite {u. scThr s u \<noteq> TIdle}"
  by (simp add: sched_frame_def)

lemma sched_word_step:
  "sched_step k s s' \<Longrightarrow> sched_frame k s \<Longrightarrow> sched_word s p r c \<Longrightarrow> \<exists>p' r' c'. sched_word s' p' r' c'"
proof (induction rule: sched_step.induct)
  case (note_quiet s t n)
  then show ?case by (auto simp: sched_word_def)
next
  case (note_crossing s t n)
  show ?case
    by (intro exI, rule sched_word_thread [of s p r c _ t TDesignate])
      (use note_crossing in \<open>simp_all add: sched_frame_finite sched_word_bit\<close>)
next
  case (designate_load s t)
  show ?case
    by (intro exI, rule sched_word_thread [of s p r c _ t "TDesLoaded (scWord s)"])
      (use designate_load in \<open>simp_all add: sched_frame_finite sched_word_bit\<close>)
next
  case (designate_refused s t w)
  then have c: "c" using sched_word_closed(1) [of s p r c t w] by (simp add: designateWord_bit)
  show ?case
    by (intro exI, rule sched_word_thread [of s p r c _ t TIdle])
      (use designate_refused c in \<open>simp_all add: sched_frame_finite sched_word_bit\<close>)
next
  case (designate_retry s t w)
  show ?case
    by (intro exI, rule sched_word_thread [of s p r c _ t TDesignate])
      (use designate_retry in \<open>simp_all add: sched_frame_finite sched_word_bit\<close>)
next
  case (designate_pend s t w w')
  have p: "p < 2 ^ 62 - 1" using sched_word_room [OF designate_pend(5,4), of t] designate_pend(1) by simp
  have f: "finite {u. scThr s u \<noteq> TIdle}" using designate_pend(4) by (rule sched_frame_finite)
  have w: "w' = packed (Suc p) True c" "r" "\<not> c"
    using designate_pend(2,3,5) designateWord_packed [OF p, of r c] by (auto simp: sched_word_def split: if_splits)
  show ?case
    by (intro exI, rule sched_word_swap [OF designate_pend(5) f, where p' = "Suc p" and c' = c and f = "(scThr s)(t := TIdle)"])
      (use threads_upd3 [OF f, of t TIdle] designate_pend(1,5) p w in \<open>auto simp: sched_word_def split: if_splits\<close>)
next
  case (designate_claim s t w w' u)
  have p: "p < 2 ^ 62 - 1" using sched_word_room [OF designate_claim(6,5), of t] designate_claim(1) by simp
  have f: "finite {u. scThr s u \<noteq> TIdle}" using designate_claim(5) by (rule sched_frame_finite)
  have w: "w' = packed (Suc p) True c" "\<not> r" "\<not> c"
    using designate_claim(2,3,6) designateWord_packed [OF p, of r c] by (auto simp: sched_word_def split: if_splits)
  have tu: "t \<noteq> u" using designate_claim(1,4) by auto
  let ?f = "(scThr s)(t := TIdle)"
  have "finite {v. ?f v \<noteq> TIdle}" by (rule finite_upd [OF f])
  note u = threads_upd3 [where f = ?f, OF this, of u TBody] threads_upd3 [OF f, of t TIdle]
  have r: "threads runner (?f(u := TBody)) = 1" "threads hasRun (?f(u := TBody)) = threads hasRun (scThr s)"
    "Suc (threads designating (?f(u := TBody))) = threads designating (scThr s)"
    using u designate_claim(1,4,6) w(2) tu by (simp_all add: sched_word_def)
  show ?case
    by (intro exI, rule sched_word_swap [OF designate_claim(6) f, where p' = "Suc p" and c' = c and f = "?f(u := TBody)"])
      (use r designate_claim(1,4,6) p w tu in \<open>auto simp: sched_word_def split: if_splits\<close>)
next
  case (drain_body s t)
  show ?case
    by (intro exI, rule sched_word_thread [of s p r c _ t TDrain])
      (use drain_body in \<open>simp_all add: sched_frame_finite sched_word_bit\<close>)
next
  case (drain_load s t)
  show ?case
    by (intro exI, rule sched_word_thread [of s p r c _ t "TDrLoaded (scWord s)"])
      (use drain_load in \<open>simp_all add: sched_frame_finite sched_word_bit\<close>)
next
  case (drain_retry s t w)
  show ?case
    by (intro exI, rule sched_word_thread [of s p r c _ t TDrain])
      (use drain_retry in \<open>simp_all add: sched_frame_finite sched_word_bit\<close>)
next
  case (drain_next s t w w')
  have f: "finite {u. scThr s u \<noteq> TIdle}" using drain_next(4) by (rule sched_frame_finite)
  have p: "0 < p" "\<not> scTorn s" "p < 2 ^ 62" "r"
    using sched_word_runner [OF drain_next(5,4), of t] drain_next(1,5) by (auto simp: sched_word_def)
  have w: "w' = packed (p - 1) True c" "1 < p"
    using drain_next(2,3,5) drainWord_packed [OF p(1,3), of r c] p(1,4) by (auto simp: sched_word_def split: if_splits)
  show ?case
    by (intro exI, rule sched_word_swap [OF drain_next(5) f, where p' = "p - 1" and c' = c and f = "(scThr s)(t := TBody)"])
      (use threads_upd3 [OF f, of t TBody] drain_next(1,5) p w in \<open>auto simp: sched_word_def split: if_splits\<close>)
next
  case (drain_stop s t w w')
  have f: "finite {u. scThr s u \<noteq> TIdle}" using drain_stop(4) by (rule sched_frame_finite)
  have p: "0 < p" "\<not> scTorn s" "p < 2 ^ 62" "r"
    using sched_word_runner [OF drain_stop(5,4), of t] drain_stop(1,5) by (auto simp: sched_word_def)
  have w: "w' = packed 0 False c" "p = 1"
    using drain_stop(2,3,5) drainWord_packed [OF p(1,3), of r c] by (auto simp: sched_word_def split: if_splits)
  show ?case
    by (intro exI, rule sched_word_swap [OF drain_stop(5) f, where p' = 0 and c' = c and f = "(scThr s)(t := TIdle)"])
      (use threads_upd3 [OF f, of t TIdle] drain_stop(1,5) p w in \<open>auto simp: sched_word_def split: if_splits\<close>)
next
  case (close_swap s t w)
  have f: "finite {u. scThr s u \<noteq> TIdle}" using close_swap(4) by (rule sched_frame_finite)
  show ?case
    by (intro exI, rule sched_word_swap [OF close_swap(5) f, where p' = p and c' = True and f = "(scThr s)(t := TWait)"])
      (use threads_upd3 [OF f, of t TWait] close_swap(1,3,5) packed_close [of p r c] in \<open>auto simp: sched_word_def split: if_splits\<close>)
next
  case (close_again s t w)
  then have c: "c" using sched_word_closed(1) [of s p r c t w] closeWord_same by simp
  show ?case
    by (intro exI, rule sched_word_thread [of s p r c _ t TWait])
      (use close_again c in \<open>simp_all add: sched_frame_finite sched_word_bit\<close>)
next
  case (close_idle s t)
  then have c: "c" "p = 0"
    using packed_idle [of p r c] sched_word_closed(2) [of s p r c t] by (auto simp: sched_word_def)
  show ?case
    by (intro exI, rule sched_word_thread [of s p r c _ t TIdle])
      (use close_idle c in \<open>simp_all add: sched_frame_finite sched_word_bit\<close>)
next
  case (close_call s t)
  show ?case
    by (intro exI, rule sched_word_thread [of s p r c _ t TClose])
      (use close_call in \<open>simp_all add: sched_frame_finite sched_word_bit\<close>)
next
  case (close_load s t)
  show ?case
    by (intro exI, rule sched_word_thread [of s p r c _ t "TCloseLoaded (scWord s)"])
      (use close_load in \<open>simp_all add: sched_frame_finite sched_word_bit\<close>)
next
  case (close_retry s t w)
  show ?case
    by (intro exI, rule sched_word_thread [of s p r c _ t TClose])
      (use close_retry in \<open>simp_all add: sched_frame_finite sched_word_bit\<close>)
qed

lemma sched_run_inv: "(sched_step k)\<^sup>*\<^sup>* s s' \<Longrightarrow> k \<noteq> 0 \<Longrightarrow> sched_inv k s \<Longrightarrow> sched_inv k s'"
proof (induction rule: rtranclp_induct)
  case (step y z)
  then obtain p r c where "sched_word y p r c" "sched_frame k y" by (auto simp: sched_inv_iff)
  then show ?case
    using sched_word_step [OF step(2)] sched_frame_step [OF step(2,4)] by (auto simp: sched_inv_iff)
qed

lemma threads_le_one:
  assumes "finite {t. f t \<noteq> TIdle}" "\<not> P TIdle" "threads P f \<le> 1" "P (f t)" "P (f u)"
  shows "t = u"
proof -
  have "finite {t. P (f t)}" by (rule finite_subset [OF _ assms(1)]) (use assms(2) in auto)
  then show ?thesis using assms(3-5) by (auto simp: threads_def card_le_Suc0_iff_eq)
qed

text \<open>
  C15. The checkpoint scheduler. Under every interleaving of mutations, designations, the runner and
  \<^verbatim>\<open>Close\<close>, at most one checkpoint is being written at a time; none is being written once \<^verbatim>\<open>Close\<close> has
  torn down the engine and the log; and whenever all threads are at rest on a bridge that refused
  nothing, exactly one checkpoint was written for every call that crossed a multiple of the interval,
  which is one for every \<^verbatim>\<open>k\<close> mutations when all calls note a single mutation.
\<close>

theorem checkpoint_scheduler_exact:
  assumes "(sched_step k)\<^sup>*\<^sup>* sched_start s" "k \<noteq> 0"
  shows "(\<forall>t u. scThr s t = TBody \<and> scThr s u = TBody \<longrightarrow> t = u) \<and>
    (scTorn s \<longrightarrow> (\<forall>t. scThr s t \<noteq> TBody)) \<and>
    ((\<forall>t. scThr s t = TIdle) \<and> scRefused s = 0 \<longrightarrow>
       scRuns s = scCrossings s \<and> scCrossings s \<le> scMutations s div unat k \<and>
       (\<not> scBatched s \<longrightarrow> scRuns s = scMutations s div unat k))"
proof -
  obtain p r c where w: "sched_word s p r c" and f: "sched_frame k s"
    using sched_run_inv [OF assms sched_start_inv] by (auto simp: sched_inv_iff)
  note fin = sched_frame_finite [OF f]
  have "threads runner (scThr s) \<le> 1" using w by (simp add: sched_word_def)
  then have one: "t = u" if "scThr s t = TBody" "scThr s u = TBody" for t u
    using threads_le_one [OF fin, of runner t u] that by simp
  have torn: "scThr s t \<noteq> TBody" if "scTorn s" for t
    using sched_word_runner(2) [OF w f, of t] that by auto
  have "scRuns s = scCrossings s" if "\<forall>t. scThr s t = TIdle" "scRefused s = 0"
    using that w by (auto simp: sched_word_def threads_def)
  then show ?thesis using one torn f by (auto simp: sched_frame_def)
qed

lemma ex_sched_run:
  "\<exists>s. (sched_step 1)\<^sup>*\<^sup>* sched_start s \<and> (\<forall>t. scThr s t = TIdle) \<and> scRefused s = 0 \<and>
     \<not> scBatched s \<and> scMutations s = 1"
proof -
  let ?s1 = "sched_start\<lparr>scCounter := 1, scMutations := 1, scThr := (\<lambda>_. TIdle)(0 := TDesignate), scCrossings := 1\<rparr>"
  let ?s2 = "?s1\<lparr>scThr := (scThr ?s1)(0 := TDesLoaded 0)\<rparr>"
  let ?s3 = "?s2\<lparr>scWord := 3, scThr := (scThr ?s2)(0 := TIdle, 1 := TBody)\<rparr>"
  let ?s4 = "?s3\<lparr>scThr := (scThr ?s3)(1 := TDrain), scRuns := 1\<rparr>"
  let ?s5 = "?s4\<lparr>scThr := (scThr ?s4)(1 := TDrLoaded 3)\<rparr>"
  let ?s6 = "?s5\<lparr>scWord := 0, scThr := (scThr ?s5)(1 := TIdle)\<rparr>"
  have "sched_step 1 sched_start ?s1"
    using note_crossing [of sched_start 0 1 1] by (simp add: sched_start_def crosses_def)
  moreover have "sched_step 1 ?s1 ?s2" using designate_load [of ?s1 0 1] by (simp add: sched_start_def)
  moreover have "sched_step 1 ?s2 ?s3"
  proof -
    have "designateWord 0 = Claimed 3" by code_simp
    then show ?thesis using designate_claim [of ?s2 0 0 3 1 1] by (simp add: sched_start_def)
  qed
  moreover have "sched_step 1 ?s3 ?s4" using drain_body [of ?s3 1 1] by (simp add: sched_start_def)
  moreover have "sched_step 1 ?s4 ?s5" using drain_load [of ?s4 1 1] by simp
  moreover have "sched_step 1 ?s5 ?s6"
  proof -
    have "drainWord 3 = (0, True)" by code_simp
    then show ?thesis using drain_stop [of ?s5 1 3 0 1] by simp
  qed
  ultimately have "(sched_step 1)\<^sup>*\<^sup>* sched_start ?s6"
    by (meson converse_rtranclp_into_rtranclp rtranclp.rtrancl_refl)
  moreover have "(\<forall>t. scThr ?s6 t = TIdle) \<and> scRefused ?s6 = 0 \<and> \<not> scBatched ?s6 \<and> scMutations ?s6 = 1"
    by (simp add: sched_start_def)
  ultimately show ?thesis by blast
qed

theorem checkpoint_scheduler_exact_witness:
  "\<exists>s. (sched_step 1)\<^sup>*\<^sup>* sched_start s \<and> scMutations s = 1 \<and> scRuns s = 1 \<and> (\<forall>t. scThr s t = TIdle)"
proof -
  obtain s where s: "(sched_step 1)\<^sup>*\<^sup>* sched_start s" "\<forall>t. scThr s t = TIdle" "scRefused s = 0"
    "\<not> scBatched s" "scMutations s = 1" using ex_sched_run by blast
  from checkpoint_scheduler_exact [OF s(1)] s show ?thesis by auto
qed

end
