(* ===== verification/Recovery_Props.thy ===== *)
theory Recovery_Props
  imports Recovery
begin

text \<open>
  What recovery restores. The engine absorbs sets of records (image, chunks of the tail, repaired
  records); the recovered state is the image, when it is used, together with all mutations of the log.
\<close>

section \<open>A join into an empty engine skips nothing\<close>

lemma dedupFrom_strict: "sorted_wrt (<) (map keyDot (p # xs)) \<Longrightarrow> dedupFrom p xs = (xs, 0)"
proof (induction xs arbitrary: p)
  case (Cons x xs)
  then have "keyDot p \<noteq> keyDot x" by auto
  then have "fst x \<noteq> fst p \<or> compareDots (Dot (snd x)) (Dot (snd p)) \<noteq> 0" by (auto simp: keyDot_def)
  then show ?case using Cons.IH [of x] Cons.prems by auto
qed simp

lemma dedupIncoming_strict: "sorted_wrt (<) (map keyDot xs) \<Longrightarrow> snd (dedupIncoming xs) = 0"
  by (cases xs) (simp_all add: dedupFrom_strict)

lemma perShardMerge_no_skips:
  assumes "hamt_ok mh base" "distinct (map fst bs)" "\<And>k. k \<in> fst ` set bs \<Longrightarrow> HAMT_Get mh base k = []"
    and "\<And>k b. (k, b) \<in> set bs \<Longrightarrow> b \<noteq> []"
  shows "fst (snd (snd (perShardMerge mh base bs))) = 0"
  using assms
proof (induction bs arbitrary: base)
  case (Cons kb bs)
  obtain k b where kb: "kb = (k, b)" by (cases kb)
  have e: "HAMT_Get mh base k = []" using Cons.prems(3) [of k] kb by simp
  have b: "b \<noteq> []" using Cons.prems(4) [of k b] kb by simp
  have "fst (snd (snd (perShardMerge mh (HAMT_Set mh base k b) bs))) = 0"
  proof (rule Cons.IH)
    show "hamt_ok mh (HAMT_Set mh base k b)" using Cons.prems(1) b by (rule hm.inv_set)
    show "distinct (map fst bs)" using Cons.prems(2) by simp
    show "HAMT_Get mh (HAMT_Set mh base k b) k' = []" if "k' \<in> fst ` set bs" for k'
      using that Cons.prems(1-3) kb b by (auto simp: hm.get_set)
    show "b' \<noteq> []" if "(k', b') \<in> set bs" for k' b' using Cons.prems(4) [of k' b'] that by simp
  qed
  then show ?case using kb e b by (auto simp: Let_def split: prod.splits)
qed simp

lemma mergeShard_no_skips:
  assumes "distinct order" "\<forall>i\<in>set order. i < length shs"
    and "\<And>i. i \<in> set order \<Longrightarrow> fst (snd (snd (perShardMerge mh (shs ! i) (sb i)))) = 0"
  shows "snd (snd (fold (mergeShard mh sb) order (shs, a, b))) = b"
  using assms
proof (induction order arbitrary: shs a b)
  case (Cons x xs)
  obtain shs' a' b' where st: "mergeShard mh sb x (shs, a, b) = (shs', a', b')" by (metis prod_cases3)
  have b': "b' = b" using st Cons.prems(3) [of x] by (auto simp: mergeShard_def split: prod.splits if_splits)
  have "shs' = shs[x := fst (perShardMerge mh (shs ! x) (sb x))]"
    using mergeShard_fst [of x shs mh sb a b] st Cons.prems(2) by simp
  then have "length shs' = length shs" and "\<And>i. i \<noteq> x \<Longrightarrow> shs' ! i = shs ! i" by simp_all
  then have "length shs' = length shs" "\<And>i. i \<in> set xs \<Longrightarrow> shs' ! i = shs ! i"
    using Cons.prems(1) by (metis distinct.simps(2))+
  then have "snd (snd (fold (mergeShard mh sb) xs (shs', a', b'))) = b'"
    using Cons.prems by (intro Cons.IH) auto
  then show ?case using st b' by simp
qed simp

lemma AdvanceLamportTo_skipped [simp]: "entriesSkipped (AdvanceLamportTo f64 c e) = entriesSkipped e"
  by (simp add: AdvanceLamportTo_def raiseLimit_def Let_def)

lemma fold_Advance_skipped [simp]:
  "entriesSkipped (fold (\<lambda>x. AdvanceLamportTo f64 (g x)) xs e) = entriesSkipped e"
  by (induction xs arbitrary: e) auto

lemma blockRanges_nonempty: "(k, b) \<in> set (blockRanges xs) \<Longrightarrow> b \<noteq> []"
  by (induction xs rule: blockRanges.induct) auto

lemma Join_no_skips:
  assumes "eng_ok mh e" "sort_ok sortFunc" "Join mh sortFunc f64 delta e = Some e'"
    and "\<And>k. PointGet mh k e = []" "distinct (map keyDot (delta_entries delta))"
  shows "entriesSkipped e' = entriesSkipped e"
proof (cases "delta_entries delta = []")
  case True
  then show ?thesis using assms(3)
    by (auto simp: Join_def delta_entries_def Let_def split: option.splits if_splits)
next
  case False
  let ?ds = "delta_entries delta"
  let ?e1 = "fold (\<lambda>x. AdvanceLamportTo f64 (DotCounter (snd x))) ?ds e"
  let ?sd = "sortFunc cmpIncomingEntries ?ds"
  have "distinct (map keyDot ?sd)"
    using assms(2,5) unfolding sort_ok_def by (metis distinct_map mset_eq_imp_distinct_iff mset_eq_setD mset_map distinct_count_atmost_1)
  then have st: "sorted_wrt (<) (map keyDot ?sd)"
    using sort_ok_sorted [OF assms(2), of ?ds] by (simp add: strict_sorted_iff)
  then have drop: "snd (dedupIncoming ?sd) = 0" by (rule dedupIncoming_strict)
  define bs where "bs = blockRanges (fst (dedupIncoming ?sd))"
  define sb where "sb = (\<lambda>idx. filter (\<lambda>b. routeShard mh ?e1 (fst b) = idx) bs)"
  define order where "order = sort (remdups (map (\<lambda>b. routeShard mh ?e1 (fst b)) bs))"
  have e': "entriesSkipped e' = entriesSkipped ?e1 + of_nat (snd (dedupIncoming ?sd)) +
      of_nat (snd (snd (fold (mergeShard mh sb) order (shards ?e1, 0, 0))))"
    using assms(3) False
    by (auto simp: Join_def delta_entries_def Let_def bs_def sb_def order_def
          split: option.splits if_splits prod.splits)
  have rt: "routeShard mh ?e1 = routeShard mh e" by (rule routeShard_cong) simp_all
  have "snd (snd (fold (mergeShard mh sb) order (shards ?e1, 0, 0))) = 0"
  proof (rule mergeShard_no_skips)
    show "distinct order" by (simp add: order_def)
    show "\<forall>i\<in>set order. i < length (shards ?e1)"
      using routeShard_less [OF assms(1)] by (auto simp: order_def rt)
    fix i assume "i \<in> set order"
    then have i: "i < length (shards e)" using routeShard_less [OF assms(1)] by (auto simp: order_def rt)
    show "fst (snd (snd (perShardMerge mh (shards ?e1 ! i) (sb i)))) = 0"
    proof (rule perShardMerge_no_skips)
      show "hamt_ok mh (shards ?e1 ! i)" using eng_okD(1) [OF assms(1) i] by simp
      show "distinct (map fst (sb i))"
        using blockRanges_join(1) [OF assms(2) bs_def] by (simp add: sb_def distinct_map_filter)
      show "HAMT_Get mh (shards ?e1 ! i) k = []" if "k \<in> fst ` set (sb i)" for k
        using that assms(4) [of k] PointGet_shard [OF assms(1), of k] by (auto simp: sb_def rt)
      show "b \<noteq> []" if "(k, b) \<in> set (sb i)" for k b
        using that blockRanges_nonempty by (auto simp: sb_def bs_def)
    qed
  qed
  then show ?thesis using e' drop by simp
qed

section \<open>Absorbing records\<close>

definition absorbs :: "hasher \<Rightarrow> DeltaCRDTEngine \<Rightarrow> DeltaCRDTEngine \<Rightarrow> SnapshotRecord set \<Rightarrow> bool" where
  "absorbs mh e e' R \<longleftrightarrow>
     eng_ok mh e' \<and> lamport_ok e' \<and> closing e' = closing e \<and> localNodeID e' = localNodeID e \<and>
     lamportCounter e \<le> lamportCounter e' \<and>
     (\<forall>k d v. eng_map mh e k d = Some v \<longrightarrow> eng_map mh e' k d = Some v) \<and>
     (\<forall>k d v. eng_map mh e' k d = Some v \<longrightarrow> eng_map mh e k d = Some v \<or> (k, v) \<in> R \<and> Dot v = d) \<and>
     (\<forall>k v. (k, v) \<in> R \<longrightarrow> eng_map mh e' k (Dot v) \<noteq> None)"

lemma absorbsD:
  assumes "absorbs mh e e' R"
  shows absorbs_keeps: "eng_map mh e k d = Some v \<Longrightarrow> eng_map mh e' k d = Some v"
    and absorbs_origin:
      "eng_map mh e' k d = Some v \<Longrightarrow> eng_map mh e k d = Some v \<or> (k, v) \<in> R \<and> Dot v = d"
    and absorbs_holds: "(k, v) \<in> R \<Longrightarrow> eng_map mh e' k (Dot v) \<noteq> None"
  using assms by (simp_all add: absorbs_def)

lemma absorbs_refl: "eng_ok mh e \<Longrightarrow> lamport_ok e \<Longrightarrow> absorbs mh e e {}"
  by (simp add: absorbs_def)

lemma absorbs_trans:
  assumes "absorbs mh e1 e2 R" "absorbs mh e2 e3 S"
  shows "absorbs mh e1 e3 (R \<union> S)"
proof -
  have "eng_map mh e3 k (Dot v) \<noteq> None" if "(k, v) \<in> R \<union> S" for k v
    using that assms unfolding absorbs_def by (metis Un_iff not_None_eq)
  moreover have "eng_map mh e1 k d = Some v \<or> (k, v) \<in> R \<union> S \<and> Dot v = d"
    if "eng_map mh e3 k d = Some v" for k d v
    using that assms unfolding absorbs_def by (metis Un_iff)
  moreover have "lamportCounter e1 \<le> lamportCounter e3"
    using assms order_trans unfolding absorbs_def by blast
  ultimately show ?thesis using assms by (simp add: absorbs_def)
qed

lemma Join_absorbs:
  assumes "eng_ok mh e" "lamport_ok e" "sort_ok sortFunc" "Join mh sortFunc f64 delta e = Some e'"
  shows "absorbs mh e e' (set (delta_entries delta))"
  unfolding absorbs_def
  using Join_ok [OF assms(1,3,4)] Join_lamport_ok [OF assms(1,3,4,2)] Join_frame [OF assms(4)]
    Join_cases [OF assms(1,3,4)] fold_max_ge1
  by (auto simp: fold_Advance_lamport)

lemma Advance_absorbs:
  assumes "eng_ok mh e" "lamport_ok e"
  shows "absorbs mh e (AdvanceLamportTo f64 c e) {}"
proof -
  let ?e = "AdvanceLamportTo f64 c e"
  have r: "routeShard mh ?e = routeShard mh e" by (rule routeShard_cong) simp_all
  have ok: "eng_ok mh ?e" using assms(1) unfolding eng_ok_def r by simp
  have m: "eng_map mh ?e k = eng_map mh e k" for k by (simp add: eng_map_def PointGet_def r)
  have "lamport_ok ?e"
    using assms(2) unfolding lamport_ok_def by (fastforce intro: order_trans [OF _ max.cobounded1])
  then show ?thesis using ok by (simp add: absorbs_def m)
qed

section \<open>The replay loop\<close>

definition rs_ok :: "RecoverDeps \<Rightarrow> ReplayState \<Rightarrow> bool" where
  "rs_ok D st \<longleftrightarrow> eng_ok (rdHash D) (rsEngine st) \<and> lamport_ok (rsEngine st) \<and> \<not> closing (rsEngine st)"

text \<open>From one state to another the records \<^verbatim>\<open>R\<close> were applied or are waiting in the chunk.\<close>

definition collects :: "RecoverDeps \<Rightarrow> ReplayState \<Rightarrow> ReplayState \<Rightarrow> SnapshotRecord set \<Rightarrow> bool" where
  "collects D st st' R \<longleftrightarrow>
     (\<exists>A. absorbs (rdHash D) (rsEngine st) (rsEngine st') A \<and>
          A \<union> set (rsChunk st') = set (rsChunk st) \<union> R)"

lemma collects_refl: "rs_ok D st \<Longrightarrow> collects D st st {}"
  using absorbs_refl by (fastforce simp: rs_ok_def collects_def)

lemma collects_trans: "collects D s1 s2 R \<Longrightarrow> collects D s2 s3 S \<Longrightarrow> collects D s1 s3 (R \<union> S)"
proof -
  assume "collects D s1 s2 R" "collects D s2 s3 S"
  then obtain A B where A: "absorbs (rdHash D) (rsEngine s1) (rsEngine s2) A"
      "A \<union> set (rsChunk s2) = set (rsChunk s1) \<union> R"
    and B: "absorbs (rdHash D) (rsEngine s2) (rsEngine s3) B" "B \<union> set (rsChunk s3) = set (rsChunk s2) \<union> S"
    by (auto simp: collects_def)
  have "(A \<union> B) \<union> set (rsChunk s3) = set (rsChunk s1) \<union> (R \<union> S)" using A(2) B(2) by blast
  then show ?thesis using absorbs_trans [OF A(1) B(1)] by (auto simp: collects_def)
qed

lemma collects_rs_ok: "collects D st st' R \<Longrightarrow> rs_ok D st \<Longrightarrow> rs_ok D st'"
  by (auto simp: collects_def rs_ok_def absorbs_def)

lemma foldE_collects:
  assumes "\<And>x s. x \<in> set xs \<Longrightarrow> rs_ok D s \<Longrightarrow> \<exists>s'. f x s = Inr s' \<and> collects D s s' (R x)" "rs_ok D s"
  shows "\<exists>s'. foldE f xs s = Inr s' \<and> collects D s s' (\<Union>x\<in>set xs. R x)"
  using assms
proof (induction xs arbitrary: s)
  case Nil
  then show ?case by (simp add: collects_refl)
next
  case (Cons x xs)
  obtain s1 where s1: "f x s = Inr s1" "collects D s s1 (R x)" using Cons.prems by fastforce
  obtain s2 where s2: "foldE f xs s1 = Inr s2" "collects D s1 s2 (\<Union>x\<in>set xs. R x)"
    using Cons.IH [of s1] Cons.prems(1) collects_rs_ok [OF s1(2) Cons.prems(2)] by auto
  show ?case using s1(1) s2(1) collects_trans [OF s1(2) s2(2)] by simp
qed

lemma delta_entries_snapshot [simp]: "delta_entries (snapshotDelta img) = imgRecords img"
  by (simp add: delta_entries_def snapshotDelta_def)

lemma joinRecords_absorbs:
  assumes "rs_ok D st" "sort_ok (rdSort D)"
  shows "\<exists>e. joinRecords D rs (rsEngine st) = Some e \<and> absorbs (rdHash D) (rsEngine st) e (set rs)"
proof -
  let ?d = "snapshotDelta \<lparr>imgRecords = rs, imgMerkleRoot = replicate 32 0, imgLamportHigh = 0, imgCutSeq = 0\<rparr>"
  obtain e where e: "Join (rdHash D) (rdSort D) (rdF64 D) ?d (rsEngine st) = Some e"
    using Join_Some [of "rsEngine st" "rdHash D" "rdSort D" "rdF64 D" ?d] assms(1) by (auto simp: rs_ok_def)
  have "absorbs (rdHash D) (rsEngine st) e (set (delta_entries ?d))"
    using assms by (intro Join_absorbs [OF _ _ _ e]) (auto simp: rs_ok_def)
  then show ?thesis using e by (simp add: joinRecords_def)
qed

lemma flushChunk_collects:
  assumes "rs_ok D st" "sort_ok (rdSort D)"
  shows "\<exists>st'. flushChunk D st = Inr st' \<and> collects D st st' {} \<and> rsChunk st' = []"
proof (cases "rsChunk st = []")
  case True
  then show ?thesis using collects_refl [OF assms(1)] by (simp add: flushChunk_def)
next
  case False
  obtain e where e: "joinRecords D (rsChunk st) (rsEngine st) = Some e"
      "absorbs (rdHash D) (rsEngine st) e (set (rsChunk st))"
    using joinRecords_absorbs [OF assms] by blast
  then show ?thesis using False by (auto simp: flushChunk_def collects_def)
qed

lemma addMutation_collects:
  assumes "rs_ok D st" "sort_ok (rdSort D)" "checkMutationRecord m nodeID"
  shows "\<exists>st'. addMutation D nodeID m st = Inr st' \<and>
    collects D st st' {(mEntityID m, restoreEntry m nodeID)}"
proof -
  let ?st = "st\<lparr>rsChunk := rsChunk st @ [(mEntityID m, restoreEntry m nodeID)]\<rparr>"
  have ok: "rs_ok D ?st" using assms(1) by (simp add: rs_ok_def)
  have c: "collects D st ?st {(mEntityID m, restoreEntry m nodeID)}"
    using collects_refl [OF assms(1)] assms(1) absorbs_refl by (fastforce simp: collects_def rs_ok_def)
  obtain st' where "flushChunk D ?st = Inr st'" "collects D ?st st' {}"
    using flushChunk_collects [OF ok assms(2)] by blast
  then show ?thesis using c collects_trans [OF c] assms(3) by (auto simp: addMutation_def Let_def)
qed

definition recordRestores :: "bytes \<Rightarrow> bool \<Rightarrow> u64 \<Rightarrow> WALRecord \<Rightarrow> SnapshotRecord set" where
  "recordRestores nodeID useSnapshot cutFrom rec =
     (if isMutation rec \<and> \<not> (useSnapshot \<and> recSeq rec < cutFrom)
      then {(mEntityID (recMutation rec), restoreEntry (recMutation rec) nodeID)} else {})"

lemma replayTailRecord_collects:
  assumes "rs_ok D st" "sort_ok (rdSort D)" "isMutation rec \<Longrightarrow> checkMutationRecord (recMutation rec) nodeID"
  shows "\<exists>st'. replayTailRecord D nodeID useSnapshot cutFrom rec st = Inr st' \<and>
    collects D st st' (recordRestores nodeID useSnapshot cutFrom rec)"
proof -
  consider "useSnapshot \<and> recSeq rec < cutFrom" | "\<not> (useSnapshot \<and> recSeq rec < cutFrom)" "isMutation rec"
    | "\<not> (useSnapshot \<and> recSeq rec < cutFrom)" "\<not> isMutation rec" by blast
  then show ?thesis
  proof cases
    case 1
    then show ?thesis
      using collects_refl [OF assms(1)] by (simp add: replayTailRecord_def recordRestores_def)
  next
    case 2
    let ?st = "st\<lparr>rsLegacy := rsLegacy st + (if mLegacy (recMutation rec) then 1 else 0)\<rparr>"
    obtain st1 where st1: "addMutation D nodeID (recMutation rec) ?st = Inr st1"
      "collects D ?st st1 {(mEntityID (recMutation rec), restoreEntry (recMutation rec) nodeID)}"
      using addMutation_collects [of D ?st "recMutation rec" nodeID] assms 2(2) by (auto simp: rs_ok_def)
    then have "collects D st (st1\<lparr>rsReplayed := Suc (rsReplayed st1)\<rparr>)
        {(mEntityID (recMutation rec), restoreEntry (recMutation rec) nodeID)}"
      by (simp add: collects_def)
    then show ?thesis using 2 st1(1) by (auto simp: replayTailRecord_def recordRestores_def)
  next
    case 3
    have "collects D st (st\<lparr>rsEngine := AdvanceLamportTo (rdF64 D) (recAdvance rec) (rsEngine st),
        rsReplayed := Suc (rsReplayed st)\<rparr>) {}"
      using Advance_absorbs [of "rdHash D" "rsEngine st"] assms(1) by (fastforce simp: collects_def rs_ok_def)
    then show ?thesis
      using 3 collects_refl [OF assms(1)] by (auto simp: replayTailRecord_def recordRestores_def)
  qed
qed

lemma replayTail_collects:
  assumes "rs_ok D st" "sort_ok (rdSort D)" "rsChunk st = []"
    and "\<And>rec. rec \<in> set (Ordered rep) \<Longrightarrow> isMutation rec \<Longrightarrow> checkMutationRecord (recMutation rec) nodeID"
  shows "\<exists>st'. replayTail D nodeID useSnapshot cutFrom rep st = Inr st' \<and> rsChunk st' = [] \<and>
    absorbs (rdHash D) (rsEngine st) (rsEngine st')
      (\<Union>rec\<in>set (Ordered rep). recordRestores nodeID useSnapshot cutFrom rec)"
proof -
  have "\<exists>s1. foldE (replayTailRecord D nodeID useSnapshot cutFrom) (Ordered rep) st = Inr s1 \<and>
    collects D st s1 (\<Union>rec\<in>set (Ordered rep). recordRestores nodeID useSnapshot cutFrom rec)"
    by (rule foldE_collects [OF _ assms(1)], rule replayTailRecord_collects) (use assms(2,4) in simp_all)
  then obtain s1 where s1: "foldE (replayTailRecord D nodeID useSnapshot cutFrom) (Ordered rep) st = Inr s1"
    "collects D st s1 (\<Union>rec\<in>set (Ordered rep). recordRestores nodeID useSnapshot cutFrom rec)" by blast
  obtain s2 where s2: "flushChunk D s1 = Inr s2" "collects D s1 s2 {}" "rsChunk s2 = []"
    using flushChunk_collects [OF collects_rs_ok [OF s1(2) assms(1)] assms(2)] by blast
  have "collects D st s2 (\<Union>rec\<in>set (Ordered rep). recordRestores nodeID useSnapshot cutFrom rec)"
    using collects_trans [OF s1(2) s2(2)] by simp
  then show ?thesis using s1(1) s2(1,3) assms(3) by (auto simp: replayTail_def collects_def)
qed

lemma repairHoles_collects:
  assumes "rs_ok D st" "sort_ok (rdSort D)" "rsChunk st = []"
    and "\<And>rec. rec \<in> set (Ordered rep) \<Longrightarrow> isMutation rec \<Longrightarrow> checkMutationRecord (recMutation rec) nodeID"
    and "holes = filter (isHole im cutFrom) (Ordered rep)"
  shows "\<exists>st'. repairHoles D nodeID (Some im) cutFrom rep st = Inr (st', length holes) \<and>
    absorbs (rdHash D) (rsEngine st) (rsEngine st')
      ((\<lambda>rec. (mEntityID (recMutation rec), restoreEntry (recMutation rec) nodeID)) ` set holes)"
proof -
  have ok: "checkMutationRecord m nodeID" if "m \<in> set (map recMutation holes)" for m
    using that assms(4,5) by (auto simp: isHole_def)
  have "\<exists>s1. foldE (addMutation D nodeID) (map recMutation holes) st = Inr s1 \<and>
    collects D st s1 (\<Union>m\<in>set (map recMutation holes). {(mEntityID m, restoreEntry m nodeID)})"
    by (rule foldE_collects [OF _ assms(1)], rule addMutation_collects) (use assms(2) ok in simp_all)
  then obtain s1 where s1: "foldE (addMutation D nodeID) (map recMutation holes) st = Inr s1"
    "collects D st s1 (\<Union>m\<in>set (map recMutation holes). {(mEntityID m, restoreEntry m nodeID)})" by blast
  obtain s2 where s2: "flushChunk D s1 = Inr s2" "collects D s1 s2 {}" "rsChunk s2 = []"
    using flushChunk_collects [OF collects_rs_ok [OF s1(2) assms(1)] assms(2)] by blast
  have "(\<Union>m\<in>set (map recMutation holes). {(mEntityID m, restoreEntry m nodeID)}) =
      (\<lambda>rec. (mEntityID (recMutation rec), restoreEntry (recMutation rec) nodeID)) ` set holes" by auto
  then have "collects D st s2
      ((\<lambda>rec. (mEntityID (recMutation rec), restoreEntry (recMutation rec) nodeID)) ` set holes)"
    using collects_trans [OF s1(2) s2(2)] by simp
  then show ?thesis
    using s1(1) s2(1,3) assms(3,5) by (auto simp: repairHoles_def collects_def)
qed

section \<open>The records of a replayed log\<close>

definition mdot :: "WALMutation \<Rightarrow> CausalDot" where
  "mdot m = CausalDot (mNodeID m) (mCounter m)"

fun itemRecord :: "u64 \<Rightarrow> WALItem \<Rightarrow> WALRecord list" where
  "itemRecord seq (ItemMutation m) =
     [\<lparr>recType = WALRecMutationV2, recMutation = m, recAdvance = 0, recSeq = seq\<rparr>]"
| "itemRecord seq (ItemAdvance a) =
     [\<lparr>recType = WALRecClockAdvance, recMutation = zeroMutation, recAdvance = a, recSeq = seq\<rparr>]"
| "itemRecord seq (ItemCheckpoint c) = []"

primrec orderedOf :: "nat \<Rightarrow> WALItem list \<Rightarrow> WALRecord list" where
  "orderedOf i [] = []"
| "orderedOf i (x # xs) = itemRecord (of_nat i) x @ orderedOf (Suc i) xs"

lemma Ordered_replayItems: "Ordered (replayItems i items out) = Ordered out @ orderedOf i items"
proof (induction items arbitrary: i out)
  case (Cons x xs)
  show ?case unfolding replayItems.simps Cons.IH
    by (cases x) (simp_all add: replayMutation_def replayAdvance_def replayCheckpoint_def)
qed simp

lemma Ordered_replayed: "Ordered (replayed items) = orderedOf 0 items"
  by (simp add: replayed_def Ordered_replayItems zeroReplayed_def)

lemma isMutation_simps [simp]:
  "isMutation \<lparr>recType = WALRecMutationV2, recMutation = m, recAdvance = a, recSeq = s\<rparr>"
  "\<not> isMutation \<lparr>recType = WALRecClockAdvance, recMutation = m, recAdvance = a, recSeq = s\<rparr>"
  by (simp_all add: isMutation_def WALRec_defs)

lemma orderedOf_mutations:
  "recMutation ` {rec \<in> set (orderedOf i items). isMutation rec} = set (itemMutations items)"
proof (induction items arbitrary: i)
  case (Cons x xs)
  have "{rec \<in> set (orderedOf i (x # xs)). isMutation rec} =
      {rec \<in> set (itemRecord (of_nat i) x). isMutation rec} \<union> {rec \<in> set (orderedOf (Suc i) xs). isMutation rec}"
    by auto
  moreover have "recMutation ` {rec \<in> set (itemRecord (of_nat i) x). isMutation rec} = set (itemMutation x)"
    by (cases x) (auto simp: image_def)
  ultimately show ?case by (simp add: image_Un Cons.IH itemMutations_def)
qed (simp add: itemMutations_def)

lemma Ordered_mutationD:
  "rec \<in> set (Ordered (replayed items)) \<Longrightarrow> isMutation rec \<Longrightarrow> recMutation rec \<in> set (itemMutations items)"
  using orderedOf_mutations [of 0 items] by (auto simp: Ordered_replayed)

lemma Ordered_mutationE:
  assumes "m \<in> set (itemMutations items)"
  obtains rec where "rec \<in> set (Ordered (replayed items))" "isMutation rec" "recMutation rec = m"
proof -
  have "m \<in> recMutation ` {rec \<in> set (orderedOf 0 items). isMutation rec}"
    using assms by (simp only: orderedOf_mutations)
  then show thesis using that by (auto simp: Ordered_replayed)
qed

lemma items_ok_mutation: "items_ok items \<Longrightarrow> m \<in> set (itemMutations items) \<Longrightarrow> item_ok (ItemMutation m)"
proof -
  assume "items_ok items" "m \<in> set (itemMutations items)"
  then obtain it where "it \<in> set items" "m \<in> set (itemMutation it)" "item_ok it"
    by (auto simp: itemMutations_def items_ok_def)
  then show ?thesis by (cases it rule: WALItem.exhaust; simp)
qed

lemma restoreEntry_item: "item_ok (ItemMutation m) \<Longrightarrow> restoreEntry m nodeID = mFull m"
  by (simp add: restoreEntry_def validateV2_not_legacy)

lemma Dot_mFull: "item_ok (ItemMutation m) \<Longrightarrow> Dot (mFull m) = mdot m"
  by (auto simp: Dot_def mdot_def validateV2_def split: if_splits)

definition logRecords :: "WALItem list \<Rightarrow> SnapshotRecord set" where
  "logRecords items = (\<lambda>m. (mEntityID m, mFull m)) ` set (itemMutations items)"

text \<open>The final checkpoint of a replayed log always has a cut.\<close>

lemma replayItems_checkpoint:
  "items_ok items \<Longrightarrow> (HasCheckpoint out \<Longrightarrow> cHasCutSeq (FinalCheckpt out)) \<Longrightarrow>
   HasCheckpoint (replayItems i items out) \<Longrightarrow> cHasCutSeq (FinalCheckpt (replayItems i items out))"
proof (induction items arbitrary: i out)
  case (Cons x xs)
  have "cHasCutSeq (FinalCheckpt (replayItem (of_nat i) x (countRecord (of_nat i) out)))"
    if "HasCheckpoint (replayItem (of_nat i) x (countRecord (of_nat i) out))"
    using that Cons.prems(1,2)
    by (cases x) (auto simp: replayMutation_def replayAdvance_def replayCheckpoint_def clampCheckpoint_def)
  then show ?case using Cons.prems Cons.IH [of "replayItem (of_nat i) x (countRecord (of_nat i) out)" "Suc i"]
    by simp
qed simp

lemma replayed_checkpoint:
  "items_ok items \<Longrightarrow> HasCheckpoint (replayed items) \<Longrightarrow> cHasCutSeq (FinalCheckpt (replayed items))"
  using replayItems_checkpoint [of items zeroReplayed 0] by (simp add: replayed_def zeroReplayed_def)

section \<open>States with the same content\<close>

lemma option_ext: "(\<And>v. x = Some v \<longleftrightarrow> y = Some v) \<Longrightarrow> x = y"
  by (cases x; cases y) auto

lemma Merkle_records:
  "MerkleRootFromShards sha256 e = hashDotPairs sha256 (sort (map (\<lambda>r. Dot (snd r)) (stateRecords e)))"
  by (simp add: MerkleRootFromShards_binds stateRecords_def map_concat case_prod_unfold comp_def)

lemma stateRecords_distinct:
  assumes "eng_ok mh e"
  shows "distinct (map keyDot (stateRecords e))"
proof -
  have "distinct (concat (map (\<lambda>(k, es). map (\<lambda>en. (k, Dot en)) es) kvs))"
    if "distinct (map fst kvs)" "\<forall>(k, es)\<in>set kvs. leaf_ok es" for kvs :: "(gostring \<times> CRDTEntry list) list"
    using that
  proof (induction kvs)
    case (Cons kv kvs)
    obtain k es where kv: "kv = (k, es)" by (cases kv)
    have "distinct (map Dot es)" using Cons.prems(2) kv by (simp add: leaf_ok_def strict_sorted_iff)
    then have "distinct (map (\<lambda>en. (k, Dot en)) es)" by (simp add: distinct_map inj_on_def)
    moreover have "set (map (\<lambda>en. (k, Dot en)) es) \<inter>
        set (concat (map (\<lambda>(k, es). map (\<lambda>en. (k, Dot en)) es) kvs)) = {}"
      using Cons.prems(1) kv by force
    ultimately show ?case using Cons kv by simp
  qed simp
  moreover have "\<forall>(k, es)\<in>set (all_binds e). leaf_ok es"
    using PointGet_leaf_ok [OF assms] by (auto simp: all_binds_iff [OF assms])
  moreover have "map keyDot (stateRecords e) = concat (map (\<lambda>(k, es). map (\<lambda>en. (k, Dot en)) es) (all_binds e))"
    by (simp add: stateRecords_def map_concat case_prod_unfold comp_def keyDot_def)
  ultimately show ?thesis using all_binds_distinct [OF assms] by metis
qed

lemma same_content:
  assumes "eng_ok mh a" "eng_ok mh' b" "\<And>k d. eng_map mh a k d = eng_map mh' b k d"
  shows "MerkleRootFromShards sha256 a = MerkleRootFromShards sha256 b"
    and "fingerprintRecords sha256 (stateRecords a) = fingerprintRecords sha256 (stateRecords b)"
proof -
  have "PointGet mh k a = PointGet mh' k b" for k
    by (rule eng_map_ext [OF assms(1,2)]) (use assms(3) in blast)
  then show "MerkleRootFromShards sha256 a = MerkleRootFromShards sha256 b"
    by (intro Merkle_same_binds same_all_binds [OF assms(1,2)])
  have "set (stateRecords a) = set (stateRecords b)"
    using stateRecords_set [OF assms(1)] stateRecords_set [OF assms(2)] assms(3) by auto
  moreover have "distinct (stateRecords a)" "distinct (stateRecords b)"
    using stateRecords_distinct [OF assms(1)] stateRecords_distinct [OF assms(2)] by (simp_all add: distinct_map)
  ultimately have "mset (stateRecords a) = mset (stateRecords b)"
    by (simp add: set_eq_iff_mset_eq_distinct)
  then show "fingerprintRecords sha256 (stateRecords a) = fingerprintRecords sha256 (stateRecords b)"
    by (rule fingerprintRecords_mset)
qed

section \<open>Rebuilding from an honest image\<close>

text \<open>
  An image that belongs to the checkpoint: the records of some engine state whose root and fingerprint
  the checkpoint recorded, and in agreement with the log on every dot that both of them know.
\<close>

definition image_honest :: "(bytes \<Rightarrow> bytes) \<Rightarrow> WALItem list \<Rightarrow> WALCheckpoint \<Rightarrow> SnapshotImage \<Rightarrow> bool" where
  "image_honest sha256 items c im \<longleftrightarrow>
     (\<exists>mh ec. eng_ok mh ec \<and> mset (imgRecords im) = mset (stateRecords ec) \<and>
        cMerkleRoot c = MerkleRootFromShards sha256 ec \<and>
        (cHasFingerprint c \<longrightarrow> cFingerprint c = fingerprintRecords sha256 (stateRecords ec))) \<and>
     (\<forall>(k, v)\<in>set (imgRecords im). \<forall>m\<in>set (itemMutations items).
        Dot v = mdot m \<longrightarrow> k = mEntityID m \<and> v = mFull m)"

lemma newEngineAt_facts:
  "eng_ok mh (newEngineAt D nodeID c)" "lamport_ok (newEngineAt D nodeID c)"
  "\<not> closing (newEngineAt D nodeID c)" "localNodeID (newEngineAt D nodeID c) = nodeID"
  "lamportCounter (newEngineAt D nodeID c) = c" "entriesSkipped (newEngineAt D nodeID c) = 0"
  "PointGet mh k (newEngineAt D nodeID c) = []" "eng_map mh (newEngineAt D nodeID c) k = Map.empty"
  by (simp_all add: newEngineAt_def NewEngine_ok NewEngine_lamport_ok)
    (simp add: NewDeltaCRDTEngine_def Let_def)

lemma startEngine_honest:
  assumes "sort_ok (rdSort D)" "image_honest (rdSha D) items (FinalCheckpt rep) im"
    and "e0 = newEngineAt D nodeID n"
  shows "\<exists>e1. startEngine D rep (Some im) e0 = Inr e1 \<and>
    absorbs (rdHash D) e0 e1 (set (imgRecords im)) \<and>
    MerkleRootFromShards (rdSha D) e1 = cMerkleRoot (FinalCheckpt rep) \<and>
    (\<forall>k d v. eng_map (rdHash D) e1 k d = Some v \<longleftrightarrow> (k, v) \<in> set (imgRecords im) \<and> Dot v = d)"
proof -
  let ?c = "FinalCheckpt rep" and ?mh = "rdHash D"
  obtain mh ec where ec: "eng_ok mh ec" "mset (imgRecords im) = mset (stateRecords ec)"
    "cMerkleRoot ?c = MerkleRootFromShards (rdSha D) ec"
    "cHasFingerprint ?c \<longrightarrow> cFingerprint ?c = fingerprintRecords (rdSha D) (stateRecords ec)"
    using assms(2) by (auto simp: image_honest_def)
  note e0 = newEngineAt_facts [where D = D and nodeID = nodeID and c = n, folded assms(3)]
  have set: "set (imgRecords im) = set (stateRecords ec)" using ec(2) by (metis set_mset_mset)
  have dis: "distinct (map keyDot (imgRecords im))"
    using stateRecords_distinct [OF ec(1)] ec(2) by (metis mset_map mset_eq_imp_distinct_iff)
  obtain e1 where e1: "Join ?mh (rdSort D) (rdF64 D) (snapshotDelta im) e0 = Some e1"
    using Join_Some [of e0 ?mh "rdSort D" "rdF64 D" "snapshotDelta im"] e0(3) by blast
  have ab: "absorbs ?mh e0 e1 (set (imgRecords im))"
    using Join_absorbs [OF e0(1,2) assms(1) e1] by simp
  have skip: "entriesSkipped e1 = 0"
    using Join_no_skips [OF e0(1) assms(1) e1] e0(6,7) dis by simp
  have rec: "(k, v) \<in> set (imgRecords im) \<longleftrightarrow> eng_map mh ec k (Dot v) = Some v" for k v
    unfolding set by (rule stateRecords_set [OF ec(1)])
  have cont: "eng_map ?mh e1 k d = Some v \<longleftrightarrow> (k, v) \<in> set (imgRecords im) \<and> Dot v = d" for k d v
  proof
    assume "eng_map ?mh e1 k d = Some v"
    then show "(k, v) \<in> set (imgRecords im) \<and> Dot v = d" using ab e0(8) by (fastforce simp: absorbs_def)
  next
    assume v: "(k, v) \<in> set (imgRecords im) \<and> Dot v = d"
    then obtain v' where v': "eng_map ?mh e1 k d = Some v'" using ab by (fastforce simp: absorbs_def)
    then have "(k, v') \<in> set (imgRecords im) \<and> Dot v' = d" using ab e0(8) by (fastforce simp: absorbs_def)
    then show "eng_map ?mh e1 k d = Some v" using v v' rec by (metis option.inject)
  qed
  have "eng_map ?mh e1 k d = eng_map mh ec k d" for k d
  proof (rule option_ext)
    fix v
    have "eng_map mh ec k d = Some v \<Longrightarrow> Dot v = d" by (auto simp: eng_map_def dest: dotmap_SomeD)
    then show "eng_map ?mh e1 k d = Some v \<longleftrightarrow> eng_map mh ec k d = Some v" using cont rec by metis
  qed
  note same = same_content [OF _ ec(1) this, of "rdSha D"]
  have ok1: "eng_ok ?mh e1" using ab by (simp add: absorbs_def)
  have "startEngine D rep (Some im) e0 = Inr e1"
    using e1 skip same(1) [OF ok1] same(2) [OF ok1] ec(3,4)
    by (simp add: startEngine_def StateFingerprint_records)
  then show ?thesis using ab cont same(1) [OF ok1] ec(3) by auto
qed

section \<open>The rebuilt engine\<close>

definition imgSet :: "SnapshotImage option \<Rightarrow> SnapshotRecord set" where
  "imgSet img = (case img of None \<Rightarrow> {} | Some im \<Rightarrow> set (imgRecords im))"

definition honest :: "(bytes \<Rightarrow> bytes) \<Rightarrow> WALItem list \<Rightarrow> SnapshotImage option \<Rightarrow> bool" where
  "honest sha256 items img \<longleftrightarrow>
     (case img of None \<Rightarrow> True
      | Some im \<Rightarrow> image_honest sha256 items (FinalCheckpt (replayed items)) im)"

definition log_admissible :: "bytes \<Rightarrow> WALItem list \<Rightarrow> bool" where
  "log_admissible nodeID items \<longleftrightarrow> items_ok items \<and> distinct (map mdot (itemMutations items)) \<and>
     (\<forall>m\<in>set (itemMutations items). checkMutationRecord m nodeID)"

text \<open>The records that the tail and the repair pass hand to the engine.\<close>

definition tailSet :: "bytes \<Rightarrow> Replayed \<Rightarrow> SnapshotImage option \<Rightarrow> SnapshotRecord set" where
  "tailSet nodeID rep img =
     (\<Union>rec\<in>set (Ordered rep). recordRestores nodeID (img \<noteq> None) (cutFromOf rep) rec) \<union>
     (case img of None \<Rightarrow> {}
      | Some im \<Rightarrow> (\<lambda>rec. (mEntityID (recMutation rec), restoreEntry (recMutation rec) nodeID)) `
                    set (filter (isHole im (cutFromOf rep)) (Ordered rep)))"

lemma startEngine_absorbs:
  assumes "sort_ok (rdSort D)" "honest (rdSha D) items img" "e0 = newEngineAt D nodeID n"
  shows "\<exists>e1. startEngine D (replayed items) img e0 = Inr e1 \<and> absorbs (rdHash D) e0 e1 (imgSet img) \<and>
    (img \<noteq> None \<longrightarrow> MerkleRootFromShards (rdSha D) e1 = cMerkleRoot (FinalCheckpt (replayed items))) \<and>
    (\<forall>k d v. eng_map (rdHash D) e1 k d = Some v \<longleftrightarrow> (k, v) \<in> imgSet img \<and> Dot v = d)"
proof (cases img)
  case None
  then show ?thesis
    using newEngineAt_facts [where D = D and nodeID = nodeID and c = n, folded assms(3)] absorbs_refl
    by (auto simp: startEngine_def imgSet_def)
next
  case (Some im)
  then have "image_honest (rdSha D) items (FinalCheckpt (replayed items)) im"
    using assms(2) by (simp add: honest_def)
  from startEngine_honest [OF assms(1) this assms(3)] Some show ?thesis by (auto simp: imgSet_def)
qed

lemma rebuild_absorbs:
  assumes "sort_ok (rdSort D)" "honest (rdSha D) items img" "log_admissible nodeID items"
    and "rep = replayed items"
  shows "\<exists>st holes e1. rebuild D nodeID rep img = Inr (st, holes) \<and>
    absorbs (rdHash D) e1 (rsEngine st) (tailSet nodeID rep img) \<and>
    (\<forall>k d v. eng_map (rdHash D) e1 k d = Some v \<longleftrightarrow> (k, v) \<in> imgSet img \<and> Dot v = d) \<and>
    eng_ok (rdHash D) e1 \<and> \<not> closing e1 \<and> localNodeID e1 = nodeID \<and>
    (img \<noteq> None \<longrightarrow> MerkleRootFromShards (rdSha D) e1 = cMerkleRoot (FinalCheckpt rep)) \<and>
    rebuiltInitialOf rep \<le> lamportCounter (rsEngine st) \<and>
    (holes = 0 \<longrightarrow> (case img of None \<Rightarrow> True
                     | Some im \<Rightarrow> filter (isHole im (cutFromOf rep)) (Ordered rep) = []))"
proof -
  let ?mh = "rdHash D" and ?cut = "cutFromOf rep"
  define e0 where "e0 = newEngineAt D nodeID (rebuiltInitialOf rep)"
  note f0 = newEngineAt_facts [where D = D and nodeID = nodeID and c = "rebuiltInitialOf rep", folded e0_def]
  obtain e1 where e1: "startEngine D rep img e0 = Inr e1" "absorbs ?mh e0 e1 (imgSet img)"
    "img \<noteq> None \<longrightarrow> MerkleRootFromShards (rdSha D) e1 = cMerkleRoot (FinalCheckpt rep)"
    "\<forall>k d v. eng_map ?mh e1 k d = Some v \<longleftrightarrow> (k, v) \<in> imgSet img \<and> Dot v = d"
    using startEngine_absorbs [OF assms(1,2) e0_def] assms(4) by blast
  have ok1: "eng_ok ?mh e1" "lamport_ok e1" "\<not> closing e1" "localNodeID e1 = nodeID"
    "rebuiltInitialOf rep \<le> lamportCounter e1"
    using e1(2) f0(3-5) by (auto simp: absorbs_def)
  have chk: "\<And>rec. rec \<in> set (Ordered rep) \<Longrightarrow> isMutation rec \<Longrightarrow> checkMutationRecord (recMutation rec) nodeID"
    using assms(3,4) Ordered_mutationD by (auto simp: log_admissible_def)
  let ?s0 = "\<lparr>rsEngine = e1, rsChunk = [], rsReplayed = 0, rsLegacy = 0\<rparr>"
  obtain s1 where s1: "replayTail D nodeID (img \<noteq> None) ?cut rep ?s0 = Inr s1" "rsChunk s1 = []"
    "absorbs ?mh e1 (rsEngine s1) (\<Union>rec\<in>set (Ordered rep). recordRestores nodeID (img \<noteq> None) ?cut rec)"
    using replayTail_collects [of D ?s0 rep nodeID "img \<noteq> None" ?cut] ok1 assms(1) chk by (auto simp: rs_ok_def)
  have rs1: "rs_ok D s1" using s1(3) ok1(3) by (simp add: rs_ok_def absorbs_def)
  obtain s2 holes H where s2: "repairHoles D nodeID img ?cut rep s1 = Inr (s2, holes)"
      "absorbs ?mh (rsEngine s1) (rsEngine s2) H"
    and H: "tailSet nodeID rep img =
        (\<Union>rec\<in>set (Ordered rep). recordRestores nodeID (img \<noteq> None) ?cut rec) \<union> H"
      "holes = 0 \<longrightarrow> (case img of None \<Rightarrow> True | Some im \<Rightarrow> filter (isHole im ?cut) (Ordered rep) = [])"
  proof (cases img)
    case None
    have "absorbs ?mh (rsEngine s1) (rsEngine s1) {}" using rs1 absorbs_refl by (simp add: rs_ok_def)
    then show thesis by (rule that [rotated]) (simp_all add: None repairHoles_def tailSet_def)
  next
    case (Some im)
    obtain s2 where "repairHoles D nodeID (Some im) ?cut rep s1 =
        Inr (s2, length (filter (isHole im ?cut) (Ordered rep)))"
      "absorbs ?mh (rsEngine s1) (rsEngine s2)
        ((\<lambda>rec. (mEntityID (recMutation rec), restoreEntry (recMutation rec) nodeID)) `
          set (filter (isHole im ?cut) (Ordered rep)))"
      using repairHoles_collects [OF rs1 assms(1) s1(2) chk refl] by blast
    then show thesis by (rule that [unfolded Some]) (simp_all add: tailSet_def)
  qed
  have ab2: "absorbs ?mh e1 (rsEngine s2) (tailSet nodeID rep img)"
    unfolding H(1) by (rule absorbs_trans [OF s1(3) s2(2)])
  then have "absorbs ?mh e1 (AdvanceLamportTo (rdF64 D) (rebuiltInitialOf rep) (rsEngine s2)) (tailSet nodeID rep img)"
    using absorbs_trans [OF ab2 Advance_absorbs [of ?mh "rsEngine s2" "rdF64 D" "rebuiltInitialOf rep"]]
    by (simp add: absorbs_def)
  moreover have "rebuild D nodeID rep img = Inr (s2\<lparr>rsEngine :=
      AdvanceLamportTo (rdF64 D) (rebuiltInitialOf rep) (rsEngine s2)\<rparr>, holes)"
    using e1(1) s1(1) s2(1) by (simp add: rebuild_def Let_def flip: e0_def)
  moreover have "rebuiltInitialOf rep \<le>
      lamportCounter (AdvanceLamportTo (rdF64 D) (rebuiltInitialOf rep) (rsEngine s2))" by simp
  ultimately show ?thesis
    by (intro exI [of _ "s2\<lparr>rsEngine := AdvanceLamportTo (rdF64 D) (rebuiltInitialOf rep) (rsEngine s2)\<rparr>"]
          exI [of _ holes] exI [of _ e1] conjI) (simp_all add: e1(4) ok1(1,3,4) H(2) e1(3) del: not_None_eq)
qed

section \<open>The recovered content\<close>

lemma restoreEntry_log:
  "log_admissible nodeID items \<Longrightarrow> m \<in> set (itemMutations items) \<Longrightarrow> restoreEntry m n = mFull m"
  using items_ok_mutation restoreEntry_item unfolding log_admissible_def by blast

lemma honest_agrees:
  assumes "honest sha256 items img" "(k, v) \<in> imgSet img" "m \<in> set (itemMutations items)" "Dot v = mdot m"
  shows "k = mEntityID m" "v = mFull m"
  using assms by (fastforce simp: honest_def image_honest_def imgSet_def split: option.splits)+

lemma mdot_unique:
  assumes "log_admissible nodeID items" "m \<in> set (itemMutations items)" "m' \<in> set (itemMutations items)"
    and "mdot m = mdot m'"
  shows "m = m'"
  using assms unfolding log_admissible_def distinct_map by (blast dest: inj_onD)

lemma tailSet_log:
  assumes "log_admissible nodeID items" "rep = replayed items"
  shows "tailSet nodeID rep img \<subseteq> logRecords items"
proof
  fix x assume "x \<in> tailSet nodeID rep img"
  then obtain rec where rec: "rec \<in> set (Ordered rep)" "isMutation rec"
    "x = (mEntityID (recMutation rec), restoreEntry (recMutation rec) nodeID)"
    by (auto simp: tailSet_def recordRestores_def isHole_def split: option.splits if_splits)
  then have m: "recMutation rec \<in> set (itemMutations items)" using Ordered_mutationD assms(2) by simp
  then have "restoreEntry (recMutation rec) nodeID = mFull (recMutation rec)"
    by (rule restoreEntry_log [OF assms(1)])
  then show "x \<in> logRecords items" using rec(3) m by (simp add: logRecords_def)
qed

lemma log_tailSet:
  assumes "log_admissible nodeID items" "honest sha256 items img" "rep = replayed items"
  shows "logRecords items \<subseteq> tailSet nodeID rep img \<union> imgSet img"
proof
  fix x assume "x \<in> logRecords items"
  then obtain m where m: "m \<in> set (itemMutations items)" "x = (mEntityID m, mFull m)"
    by (auto simp: logRecords_def)
  obtain rec where rec: "rec \<in> set (Ordered rep)" "isMutation rec" "recMutation rec = m"
    using Ordered_mutationE [OF m(1)] assms(3) by metis
  have x: "x = (mEntityID (recMutation rec), restoreEntry (recMutation rec) nodeID)"
    using m rec(3) restoreEntry_log [OF assms(1)] by simp
  consider "img = None" | im where "img = Some im" "\<not> recSeq rec < cutFromOf rep"
    | im where "img = Some im" "recSeq rec < cutFromOf rep" "isHole im (cutFromOf rep) rec"
    | im where "img = Some im" "recSeq rec < cutFromOf rep" "\<not> isHole im (cutFromOf rep) rec"
    by (cases img) blast+
  then show "x \<in> tailSet nodeID rep img \<union> imgSet img"
  proof cases
    case 4
    then obtain k v where kv: "(k, v) \<in> set (imgRecords im)" "Dot v = mdot m"
      using rec(2,3) by (auto simp: isHole_def mdot_def)
    then have i: "(k, v) \<in> imgSet img" using 4(1) by (simp add: imgSet_def)
    then show ?thesis using honest_agrees [OF assms(2) i m(1) kv(2)] m(2) by simp
  qed (use rec(1,2) x in \<open>force simp: tailSet_def recordRestores_def\<close>)+
qed

lemma tailSet_empty:
  assumes "checkpointFinal rep" "filter (isHole im (cutFromOf rep)) (Ordered rep) = []"
  shows "tailSet nodeID rep (Some im) = {}"
proof -
  have "recordRestores nodeID True (cutFromOf rep) rec = {}" if "rec \<in> set (Ordered rep)" for rec
    using that assms(1) by (auto simp: checkpointFinal_def recordRestores_def not_less)
  then show ?thesis using assms(2) by (simp add: tailSet_def)
qed

lemma absorbed_content:
  assumes "log_admissible nodeID items" "honest sha256 items img" "rep = replayed items"
    and "absorbs mh e1 e (tailSet nodeID rep img)"
    and "\<forall>k d v. eng_map mh e1 k d = Some v \<longleftrightarrow> (k, v) \<in> imgSet img \<and> Dot v = d"
  shows "eng_map mh e k d = Some v \<longleftrightarrow> (k, v) \<in> logRecords items \<union> imgSet img \<and> Dot v = d"
proof
  assume "eng_map mh e k d = Some v"
  then have "eng_map mh e1 k d = Some v \<or> (k, v) \<in> tailSet nodeID rep img \<and> Dot v = d"
    by (rule absorbs_origin [OF assms(4)])
  then show "(k, v) \<in> logRecords items \<union> imgSet img \<and> Dot v = d"
    using assms(5) tailSet_log [OF assms(1,3), of img] by blast
next
  assume a: "(k, v) \<in> logRecords items \<union> imgSet img \<and> Dot v = d"
  show "eng_map mh e k d = Some v"
  proof (cases "(k, v) \<in> imgSet img")
    case True
    then show ?thesis using a assms(5) by (intro absorbs_keeps [OF assms(4)]) simp
  next
    case False
    then have t: "(k, v) \<in> tailSet nodeID rep img" using a log_tailSet [OF assms(1-3)] by blast
    obtain m where m: "m \<in> set (itemMutations items)" "k = mEntityID m" "v = mFull m"
      using a False by (auto simp: logRecords_def)
    have dm: "Dot (mFull m') = mdot m'" if "m' \<in> set (itemMutations items)" for m'
      using that assms(1) items_ok_mutation Dot_mFull unfolding log_admissible_def by blast
    obtain v' where v': "eng_map mh e k d = Some v'"
      using absorbs_holds [OF assms(4) t] a by blast
    then consider "(k, v') \<in> imgSet img" "Dot v' = d" | "(k, v') \<in> logRecords items" "Dot v' = d"
      using absorbs_origin [OF assms(4) v'] assms(5) tailSet_log [OF assms(1,3), of img] by blast
    then have "v' = v"
    proof cases
      case 1
      then have "Dot v' = mdot m" using a m(3) dm [OF m(1)] by simp
      then show ?thesis using honest_agrees(2) [OF assms(2) 1(1) m(1)] m(3) by simp
    next
      case 2
      then obtain m' where m': "m' \<in> set (itemMutations items)" "v' = mFull m'" by (auto simp: logRecords_def)
      then have "mdot m' = mdot m" using 2(2) a m(3) dm [OF m(1)] dm [OF m'(1)] by simp
      then have "m' = m" by (rule mdot_unique [OF assms(1) m'(1) m(1)])
      then show ?thesis using m m' by simp
    qed
    then show ?thesis using v' by simp
  qed
qed

section \<open>Recovery\<close>

definition bootImage :: "bytes \<Rightarrow> SnapshotStore option \<Rightarrow> Replayed \<Rightarrow> SnapshotImage option" where
  "bootImage nodeID store rep =
     (case loadImage store rep of
        Inl _ \<Rightarrow> None
      | Inr (None, _) \<Rightarrow> None
      | Inr (Some im, _) \<Rightarrow> if countPhantoms nodeID rep im > 0 then None else Some im)"

lemma loadImage_error: "loadImage store rep = Inl err \<Longrightarrow> err = RecPanic"
  by (auto simp: loadImage_def Let_def split: option.splits bool.splits sum.splits snapError.splits if_splits)

lemma itemsHigh_initial: "itemsHigh items \<le> rebuiltInitialOf (replayed items)"
  by (auto simp: rebuiltInitialOf_def replayed_simps)

lemma fileHolds_reopen:
  assumes "items_ok items" "torn_ok (length items) torn" "fbytes f = walHeader @ logBytes 0 items @ torn"
    and "8 \<le> fsynced f"
  shows "\<exists>w. OpenWAL wr ok f = Inr w \<and> wal_holds w items"
  using OpenWAL_log [OF assms(1-3)] assms(1,4) by (simp add: wal_holds_def)

lemma recovery_restores_lemma:
  assumes "sort_ok (rdSort D)" "log_admissible nodeID items" "torn_ok (length items) torn"
    and "fbytes f = walHeader @ logBytes 0 items @ torn" "8 \<le> fsynced f"
    and "loadImage store (replayed items) \<noteq> Inl RecPanic"
    and "img = bootImage nodeID store (replayed items)" "honest (rdSha D) items img"
  shows "\<exists>e w wit. RecoverEngineWithSnapshot D nodeID (Some f) store = Inr (e, w, replayed items, wit) \<and>
    eng_ok (rdHash D) e \<and> lamport_ok e \<and> \<not> closing e \<and> localNodeID e = nodeID \<and>
    (Bounded wit \<longleftrightarrow> img \<noteq> None) \<and> itemsHigh items \<le> lamportCounter e \<and> wal_holds w items \<and>
    (\<forall>k d v. eng_map (rdHash D) e k d = Some v \<longleftrightarrow> (k, v) \<in> logRecords items \<union> imgSet img \<and> Dot v = d)"
proof -
  let ?rep = "replayed items" and ?mh = "rdHash D"
  have rep: "ReplayWAL (Some (fbytes f)) = Inr ?rep"
    using ReplayWAL_log assms(2-4) by (simp add: log_admissible_def)
  obtain img0 slh reason0 where li: "loadImage store ?rep = Inr (img0, slh, reason0)"
    using loadImage_error assms(6) by (metis obj_sumE prod_cases3)
  define ph where "ph = (case img0 of None \<Rightarrow> 0 | Some im \<Rightarrow> countPhantoms nodeID ?rep im)"
  have img: "img = (if ph > 0 then None else img0)"
    using assms(7) li by (auto simp: bootImage_def ph_def split: option.splits)
  obtain st holes e1 where rb: "rebuild D nodeID ?rep img = Inr (st, holes)"
      "absorbs ?mh e1 (rsEngine st) (tailSet nodeID ?rep img)"
      "\<forall>k d v. eng_map ?mh e1 k d = Some v \<longleftrightarrow> (k, v) \<in> imgSet img \<and> Dot v = d"
      "eng_ok ?mh e1" "\<not> closing e1" "localNodeID e1 = nodeID"
      "img \<noteq> None \<longrightarrow> MerkleRootFromShards (rdSha D) e1 = cMerkleRoot (FinalCheckpt ?rep)"
      "rebuiltInitialOf ?rep \<le> lamportCounter (rsEngine st)"
      "holes = 0 \<longrightarrow> (case img of None \<Rightarrow> True
         | Some im \<Rightarrow> filter (isHole im (cutFromOf ?rep)) (Ordered ?rep) = [])"
    using rebuild_absorbs [OF assms(1,8,2) refl] by blast
  obtain w where w: "OpenWAL None True f = Inr w" "wal_holds w items"
    using fileHolds_reopen [OF _ assms(3-5)] assms(2) unfolding log_admissible_def by blast
  have root: "MerkleRootFromShards (rdSha D) (rsEngine st) = cMerkleRoot (FinalCheckpt ?rep)"
    if "checkpointFinal ?rep" "img \<noteq> None" "holes = 0"
  proof -
    have "tailSet nodeID ?rep img = {}" using that rb(9) tailSet_empty by fastforce
    then have "eng_map ?mh (rsEngine st) k d = eng_map ?mh e1 k d" for k d
      by (intro option_ext) (use absorbs_keeps [OF rb(2)] absorbs_origin [OF rb(2)] in blast)
    then have "MerkleRootFromShards (rdSha D) (rsEngine st) = MerkleRootFromShards (rdSha D) e1"
      using rb(2) by (intro same_content(1) [OF _ rb(4)]) (auto simp: absorbs_def)
    then show ?thesis using rb(7) that(2) by simp
  qed
  have "RecoverEngineWithSnapshot D nodeID (Some f) store =
      Inr (rsEngine st, w, ?rep, witnessOf ?rep img slh (if ph > 0 then PhantomDots else reason0) ph st holes
        (HasCheckpoint ?rep \<and> checkpointFinal ?rep \<and> img \<noteq> None \<and> ph = 0 \<and> holes = 0))"
    using root
    by (simp add: RecoverEngineWithSnapshot_def Let_def rep li rb(1) w(1) flip: ph_def img del: not_None_eq) blast
  moreover have "itemsHigh items \<le> lamportCounter (rsEngine st)"
    using itemsHigh_initial rb(8) by (rule order_trans)
  moreover have "eng_ok ?mh (rsEngine st)" "lamport_ok (rsEngine st)" "\<not> closing (rsEngine st)"
    "localNodeID (rsEngine st) = nodeID"
    using rb(2,5,6) by (simp_all add: absorbs_def)
  moreover note absorbed_content [OF assms(2,8) refl rb(2,3)]
  ultimately show ?thesis
    using w(2) by (intro exI [of _ "rsEngine st"] exI [of _ w] exI conjI) (assumption | simp add: witnessOf_def)+
qed

text \<open>
  C6. Recovery restores exactly what was durable. Boot from a log file that holds the mutations,
  clock advances and checkpoints of a run, followed by any torn record, with every dot logged once,
  and from any snapshot store whose selected image is the state that the final checkpoint describes:
  the boot succeeds, the engine is well formed, it holds a record exactly when the log or the selected
  image holds it, its clock is not below any clock of the log, and the reopened log holds the same
  records, ready for the next append. When the image is missing, does not match the checkpoint or
  holds dots of this node which the log does not know, the state is that of the log alone.
\<close>

theorem recovery_restores:
  assumes "sort_ok (rdSort D)" "log_admissible nodeID items" "torn_ok (length items) torn"
    and "fbytes f = walHeader @ logBytes 0 items @ torn" "8 \<le> fsynced f"
    and "loadImage store (replayed items) \<noteq> Inl RecPanic"
    and "img = bootImage nodeID store (replayed items)" "honest (rdSha D) items img"
  shows "\<exists>e w wit. RecoverEngineWithSnapshot D nodeID (Some f) store = Inr (e, w, replayed items, wit) \<and>
    eng_ok (rdHash D) e \<and> lamport_ok e \<and> \<not> closing e \<and> localNodeID e = nodeID \<and>
    (Bounded wit \<longleftrightarrow> img \<noteq> None) \<and> itemsHigh items \<le> lamportCounter e \<and> wal_holds w items \<and>
    (\<forall>k d v. eng_map (rdHash D) e k d = Some v \<longleftrightarrow> (k, v) \<in> logRecords items \<union> imgSet img \<and> Dot v = d)"
  by (rule recovery_restores_lemma [OF assms])

text \<open>An example: the checkpoint of the empty engine with its image, one mutation, and a torn record.\<close>

definition ex_recover :: RecoverDeps where
  "ex_recover = \<lparr>rdHash = \<lambda>_ _. 0, rdSort = isortCmp, rdF64 = \<lambda>x. x, rdSha = \<lambda>_. replicate 32 7,
     rdSeeds = \<lambda>_. 0, rdRoute = 0, rdIdle = \<lambda>_. True\<rparr>"

definition ex_checkpoint :: WALCheckpoint where
  "ex_checkpoint = \<lparr>cMerkleRoot = replicate 32 0, cFingerprint = replicate 32 0, cLamportHigh = 4, cCutSeq = 0,
     cClockHigh = 4, cHasCutSeq = True, cHasFingerprint = False\<rparr>"

definition ex_image :: SnapshotImage where
  "ex_image = \<lparr>imgRecords = [], imgMerkleRoot = replicate 32 0, imgLamportHigh = 4, imgCutSeq = 0\<rparr>"

definition ex_store :: SnapshotStore where
  "ex_store = \<lparr>stExists = \<lambda>_. Some True, stLoad = \<lambda>_. Inr ex_image\<rparr>"

definition ex_run :: "WALItem list" where
  "ex_run = [ItemCheckpoint ex_checkpoint, ItemMutation ex_mutation]"

definition ex_file :: File where
  "ex_file = \<lparr>fbytes = walHeader @ logBytes 0 ex_run @ take 3 (encodeItem 2 (ItemAdvance 9)), fsynced = 8\<rparr>"

lemma ex_run_admissible: "log_admissible (replicate 16 1) ex_run"
proof -
  have "itemMutations ex_run = [ex_mutation]" by (simp add: ex_run_def itemMutations_def)
  moreover have "checkMutationRecord ex_mutation (replicate 16 1)" by code_simp
  moreover have "item_ok (ItemCheckpoint ex_checkpoint)" by code_simp
  moreover have "item_ok (ItemMutation ex_mutation)"
    using ex_mutation_valid
    by (simp add: ex_mutation_def NewWALMutation_def Wal_Damage.ex_entry_def zeroEntry_def sized_entry_def Let_def)
  ultimately show ?thesis by (simp add: log_admissible_def ex_run_def)
qed

lemma ex_run_image: "bootImage (replicate 16 1) (Some ex_store) (replayed ex_run) = Some ex_image"
  by code_simp

lemma ex_run_load: "loadImage (Some ex_store) (replayed ex_run) \<noteq> Inl RecPanic"
  by code_simp

lemma ex_run_checkpoint: "FinalCheckpt (replayed ex_run) = ex_checkpoint"
  by code_simp

lemma ex_image_honest: "honest (rdSha ex_recover) ex_run (Some ex_image)"
proof -
  let ?e = "newEngineAt ex_recover (replicate 16 1) 1"
  have ok: "eng_ok (rdHash ex_recover) ?e" by (rule newEngineAt_facts)
  have "(k, v) \<notin> set (stateRecords ?e)" for k v by (simp add: stateRecords_set [OF ok] newEngineAt_facts(8))
  then have "stateRecords ?e = []" by (metis list.set_intros(1) surj_pair list.exhaust)
  moreover from this have "MerkleRootFromShards (rdSha ex_recover) ?e = replicate 32 0"
    by (simp add: Merkle_records hashDotPairs_def)
  ultimately have "\<exists>mh ec. eng_ok mh ec \<and> stateRecords ec = [] \<and>
      replicate 32 0 = MerkleRootFromShards (rdSha ex_recover) ec" using ok by metis
  then show ?thesis
    by (simp add: honest_def image_honest_def ex_run_checkpoint ex_checkpoint_def ex_image_def)
qed

theorem recovery_restores_witness:
  "\<exists>e w wit. RecoverEngineWithSnapshot ex_recover (replicate 16 1) (Some ex_file) (Some ex_store) =
      Inr (e, w, replayed ex_run, wit) \<and> Bounded wit \<and> wal_holds w ex_run \<and>
    eng_map (rdHash ex_recover) e [65] (CausalDot (replicate 16 1) 5) = Some Wal_Damage.ex_entry"
proof -
  have t: "torn_ok (length ex_run) (take 3 (encodeItem 2 (ItemAdvance 9)))"
    unfolding torn_ok_def
    by (rule disjI2, rule exI [of _ "ItemAdvance 9"], rule exI [of _ 3]) (use ex_damage_len [of 2 9] in \<open>simp add: ex_run_def\<close>)
  have "([65], Wal_Damage.ex_entry) \<in> logRecords ex_run" by code_simp
  moreover have "Dot Wal_Damage.ex_entry = CausalDot (replicate 16 1) 5" by code_simp
  moreover note recovery_restores [OF _ ex_run_admissible t _ _ ex_run_load ex_run_image [symmetric] ex_image_honest,
      of ex_file]
  ultimately show ?thesis by (auto simp: ex_recover_def ex_file_def isortCmp_sort_ok)
qed

end
