(* ===== verification/Durable.thy ===== *)
theory Durable
  imports Bridge Recovery_Props
begin

text \<open>
  The durable node as one system: local writes, gossip, the periodic checkpoint, crashes and boots
  interleave at the points where the code touches the engine, the log or the image store. Writers run
  \<^verbatim>\<open>PutLocal\<close> or \<^verbatim>\<open>PutLocals\<close> (insert, write, flush), one runner executes \<^verbatim>\<open>AppendCheckpoint\<close>, whose
  walk reads one shard after the other. The steps are those of the code, without conditions that the code does not
  check; the flag \<^verbatim>\<open>dsClean\<close> records whether the inputs have stayed within the limits that the recovery needs, and
  \<^verbatim>\<open>sysClean\<close> whether the log was left alone after a torn write.
\<close>

section \<open>The system\<close>

datatype CkptPhase =
    CkIdle
  | CkWalk u64 "HAMT list"
  | CkReady WALCheckpoint SnapshotImage
  | CkAnchored nat SnapshotImage

record DurSys =
  dsEngine :: DeltaCRDTEngine
  dsLog :: LogSys
  dsPending :: "WALMutation list"
  dsCkpt :: CkptPhase
  dsLfs :: LocalFS
  dsClean :: bool

text \<open>
  The limits of the recovery: it refuses a log record of more than 4 MiB and a counter above
  \<^verbatim>\<open>maxPlausibleCounter\<close>, and the sequence numbers of the log have 64 bits.
\<close>

definition put_ok :: "gostring \<Rightarrow> CRDTEntry \<Rightarrow> DeltaCRDTEngine \<Rightarrow> bool" where
  "put_ok k entry e \<longleftrightarrow>
     sized_entry entry \<and> 153 + length k \<le> 4194304 \<and> lamportCounter e < maxPlausibleCounter"

definition log_room :: "LogSys \<Rightarrow> bool" where
  "log_room l \<longleftrightarrow> Suc (length (sysItems l)) < 2 ^ 64"

text \<open>
  Honest gossip: entries of any node, and of this node only records it already holds.
\<close>

definition delivery_ok :: "hasher \<Rightarrow> CRDTDelta \<Rightarrow> DeltaCRDTEngine \<Rightarrow> bool" where
  "delivery_ok mh delta e \<longleftrightarrow>
     (\<forall>(k, v)\<in>set (delta_entries delta). sized_entry v \<and>
        (DotNodeID v = localNodeID e \<longrightarrow> eng_map mh e k (Dot v) = Some v))"

inductive dur_step :: "RecoverDeps \<Rightarrow> bool \<Rightarrow> DurSys \<Rightarrow> DurSys \<Rightarrow> bool" for D snap where
  put_insert:
    "InsertLocal (rdHash D) k entry (dsEngine s) = Some (dot, e') \<Longrightarrow>
     validateV2 (NewWALMutation k dot entry) = None \<Longrightarrow>
     dur_step D snap s
       (s\<lparr>dsEngine := e', dsPending := dsPending s @ [NewWALMutation k dot entry],
          dsClean := dsClean s \<and> put_ok k entry (dsEngine s)\<rparr>)"
| put_refused:
    "InsertLocal (rdHash D) k entry (dsEngine s) = Some (dot, e') \<Longrightarrow>
     validateV2 (NewWALMutation k dot entry) \<noteq> None \<or> walFile (sysWal (dsLog s)) = None \<Longrightarrow>
     dur_step D snap s (s\<lparr>dsEngine := e', dsClean := dsClean s \<and> put_ok k entry (dsEngine s)\<rparr>)"
| put_write:
    "m \<in> set (dsPending s) \<Longrightarrow> logWrite (ItemMutation m) (dsLog s) l' \<Longrightarrow>
     dur_step D snap s
       (s\<lparr>dsLog := l', dsPending := remove1 m (dsPending s), dsClean := dsClean s \<and> log_room (dsLog s)\<rparr>)"
| put_write_fails:
    "m \<in> set (dsPending s) \<Longrightarrow> logWriteFails (ItemMutation m) (dsLog s) l' \<Longrightarrow>
     dur_step D snap s (s\<lparr>dsLog := l', dsPending := remove1 m (dsPending s)\<rparr>)"
| flush: "logFlush (dsLog s) l' \<Longrightarrow> dur_step D snap s (s\<lparr>dsLog := l'\<rparr>)"
| flush_fails: "logFlushFails (dsLog s) l' \<Longrightarrow> dur_step D snap s (s\<lparr>dsLog := l'\<rparr>)"
| receive:
    "Join (rdHash D) (rdSort D) (rdF64 D) delta (dsEngine s) = Some e' \<Longrightarrow>
     dur_step D snap s (s\<lparr>dsEngine := e', dsClean := dsClean s \<and> delivery_ok (rdHash D) delta (dsEngine s)\<rparr>)"
| advance_write:
    "logWrite (ItemAdvance (LamportCounter (dsEngine s))) (dsLog s) l' \<Longrightarrow>
     dur_step D snap s (s\<lparr>dsLog := l', dsClean := dsClean s \<and> log_room (dsLog s)\<rparr>)"
| advance_write_fails:
    "logWriteFails (ItemAdvance (LamportCounter (dsEngine s))) (dsLog s) l' \<Longrightarrow>
     dur_step D snap s (s\<lparr>dsLog := l'\<rparr>)"
| ckpt_begin:
    "dsCkpt s = CkIdle \<Longrightarrow>
     dur_step D snap s (s\<lparr>dsCkpt := CkWalk (NextSeq (sysWal (dsLog s))) []\<rparr>)"
| ckpt_shard:
    "dsCkpt s = CkWalk cutSeq shs \<Longrightarrow> length shs < length (shards (dsEngine s)) \<Longrightarrow>
     dur_step D snap s (s\<lparr>dsCkpt := CkWalk cutSeq (shs @ [shards (dsEngine s) ! length shs])\<rparr>)"
| ckpt_capture:
    "dsCkpt s = CkWalk cutSeq shs \<Longrightarrow> length shs = length (shards (dsEngine s)) \<Longrightarrow>
     CaptureShardsPinned (rdSha D) (captureFn snap) ((dsEngine s)\<lparr>shards := shs\<rparr>) ([], []) =
       (merkle, mx, recs, latest) \<Longrightarrow>
     dur_step D snap s
       (s\<lparr>dsCkpt := CkReady (checkpointOf (rdSha D) snap merkle mx recs cutSeq (LamportCounter (dsEngine s)))
                      (imageOf merkle mx recs cutSeq)\<rparr>)"
| ckpt_anchor:
    "dsCkpt s = CkReady c im \<Longrightarrow> logWrite (ItemCheckpoint c) (dsLog s) l' \<Longrightarrow>
     dur_step D snap s
       (s\<lparr>dsLog := l', dsCkpt := CkAnchored (length (sysItems (dsLog s))) im,
          dsClean := dsClean s \<and> log_room (dsLog s)\<rparr>)"
| ckpt_anchor_fails:
    "dsCkpt s = CkReady c im \<Longrightarrow> logWriteFails (ItemCheckpoint c) (dsLog s) l' \<Longrightarrow>
     dur_step D snap s (s\<lparr>dsLog := l', dsCkpt := CkIdle\<rparr>)"
| ckpt_image:
    "dsCkpt s = CkAnchored i im \<Longrightarrow> snap \<Longrightarrow> (i, it) \<in> sysAcked (dsLog s) \<Longrightarrow>
     WriteSnapshotImage oc im (dsLfs s) = (ok, lfs') \<Longrightarrow>
     dur_step D snap s
       (s\<lparr>dsLfs := lfs', dsCkpt := CkIdle, dsClean := dsClean s \<and> 136 * length (imgRecords im) \<le> 2 ^ 48\<rparr>)"
| image_lost: "dur_step D snap s (s\<lparr>dsLfs := Delete key (dsLfs s)\<rparr>)"
| ckpt_done: "dur_step D snap s (s\<lparr>dsCkpt := CkIdle\<rparr>)"
| crash:
    "walFile (sysWal (dsLog s)) = Some f \<Longrightarrow> fsynced f \<le> k \<Longrightarrow>
     RecoverEngineWithSnapshot D (localNodeID (dsEngine s)) (Some (crashImage k f))
       (Some (localStore (dsLfs s))) = Inr (e', w', rep, wit) \<Longrightarrow>
     dur_step D snap s
       (s\<lparr>dsEngine := e', dsPending := [], dsCkpt := CkIdle,
          dsLog := (dsLog s)\<lparr>sysWal := w', sysItems := take (RecordsVerified rep) (sysItems (dsLog s)),
                             sysFlight := {}, sysTorn := False\<rparr>\<rparr>)"

definition dur_start :: "RecoverDeps \<Rightarrow> bytes \<Rightarrow> DurSys" where
  "dur_start D nodeID =
     \<lparr>dsEngine = newEngineAt D nodeID 1, dsLog = log_start, dsPending = [], dsCkpt = CkIdle, dsLfs = [],
      dsClean = True\<rparr>"

text \<open>The run so far was within the limits and wrote nothing behind a torn record.\<close>

definition undisturbed :: "DurSys \<Rightarrow> bool" where
  "undisturbed s \<longleftrightarrow> dsClean s \<and> sysClean (dsLog s)"

section \<open>Log steps\<close>

lemma logWrite_step:
  assumes "logWrite it l l'" "log_inv l" "sysClean l'"
  shows "log_inv l'" "sysItems l' = sysItems l @ [it]" "sysAcked l' = sysAcked l" "item_ok it"
  using assms log_inv_write [OF assms(2,1,3)] by (auto simp: logWrite_def)

lemma logWriteFails_step:
  assumes "logWriteFails it l l'" "log_inv l" "sysClean l'"
  shows "log_inv l'" "sysItems l' = sysItems l" "sysAcked l' = sysAcked l"
  using assms log_inv_write_fails [OF assms(2,1,3)] by (auto simp: logWriteFails_def)

lemma logFlush_step:
  assumes "logFlush l l'" "log_inv l"
  shows "log_inv l'" "sysItems l' = sysItems l" "sysAcked l \<subseteq> sysAcked l'"
  using assms log_inv_sync [OF assms(2,1)] by (auto simp: logFlush_def)

lemma logFlushFails_step:
  assumes "logFlushFails l l'" "log_inv l"
  shows "log_inv l'" "sysItems l' = sysItems l" "sysAcked l' = sysAcked l"
  using assms log_inv_sync_fails [OF assms(2,1)] by (auto simp: logFlushFails_def)

lemmas log_half_defs = logWrite_def logWriteFails_def logFlush_def logFlushFails_def

lemma dur_step_undisturbed: "dur_step D snap s s' \<Longrightarrow> undisturbed s' \<Longrightarrow> undisturbed s"
  by (induction rule: dur_step.induct) (auto simp: undisturbed_def log_half_defs)

lemma log_acked:
  "log_inv l \<Longrightarrow> (i, it) \<in> sysAcked l \<Longrightarrow> i < length (sysItems l) \<and> sysItems l ! i = it"
  by (auto simp: log_inv_def)

section \<open>The invariant\<close>

definition isCkpt :: "WALItem \<Rightarrow> bool" where
  "isCkpt it \<longleftrightarrow> (\<exists>c. it = ItemCheckpoint c)"

text \<open>A cut that lies behind all checkpoints that the log already holds.\<close>

definition cut_after :: "u64 \<Rightarrow> WALItem list \<Rightarrow> bool" where
  "cut_after cutSeq items \<longleftrightarrow>
     unat cutSeq \<le> length items \<and> (\<forall>i<length items. isCkpt (items ! i) \<longrightarrow> i < unat cutSeq)"

definition cuts_ok :: "WALItem list \<Rightarrow> bool" where
  "cuts_ok items \<longleftrightarrow>
     (\<forall>i c. i < length items \<longrightarrow> items ! i = ItemCheckpoint c \<longrightarrow> cut_after (cCutSeq c) (take i items))"

text \<open>The mutations that were minted: those of the log and those on their way to it.\<close>

definition minted :: "DurSys \<Rightarrow> WALMutation list" where
  "minted s = itemMutations (sysItems (dsLog s)) @ dsPending s"

definition minted_ok :: "hasher \<Rightarrow> DeltaCRDTEngine \<Rightarrow> WALMutation \<Rightarrow> bool" where
  "minted_ok mh e m \<longleftrightarrow>
     item_ok (ItemMutation m) \<and> checkMutationRecord m (localNodeID e) \<and>
     eng_map mh e (mEntityID m) (mdot m) = Some (mFull m)"

definition engine_inv :: "hasher \<Rightarrow> DeltaCRDTEngine \<Rightarrow> bool" where
  "engine_inv mh e \<longleftrightarrow>
     eng_ok mh e \<and> lamport_ok e \<and> \<not> closing e \<and> length (localNodeID e) = 16 \<and>
     localNodeID e \<noteq> replicate 16 0 \<and> (\<forall>k d v. eng_map mh e k d = Some v \<longrightarrow> sized_entry v) \<and>
     (\<forall>k k' d. NodeID d = localNodeID e \<longrightarrow> eng_map mh e k d \<noteq> None \<longrightarrow> eng_map mh e k' d \<noteq> None \<longrightarrow> k = k')"

text \<open>The image and the checkpoint describe one state of an engine.\<close>

definition snapshot_ok :: "(bytes \<Rightarrow> bytes) \<Rightarrow> bytes \<Rightarrow> WALCheckpoint \<Rightarrow> SnapshotImage \<Rightarrow> bool" where
  "snapshot_ok sha256 nodeID c im \<longleftrightarrow>
     (\<exists>mh ec. eng_ok mh ec \<and> mset (imgRecords im) = mset (stateRecords ec) \<and>
        cMerkleRoot c = MerkleRootFromShards sha256 ec \<and>
        (cHasFingerprint c \<longrightarrow> cFingerprint c = fingerprintRecords sha256 (stateRecords ec))) \<and>
     imgMerkleRoot im = cMerkleRoot c \<and> imgCutSeq im = cCutSeq c \<and> imgLamportHigh im = cLamportHigh c \<and>
     (\<forall>(k, v)\<in>set (imgRecords im). sized_entry v \<and> (DotNodeID v = nodeID \<longrightarrow> DotCounter v \<le> cLamportHigh c))"

definition held :: "hasher \<Rightarrow> DeltaCRDTEngine \<Rightarrow> SnapshotImage \<Rightarrow> bool" where
  "held mh e im \<longleftrightarrow> (\<forall>(k, v)\<in>set (imgRecords im). eng_map mh e k (Dot v) = Some v)"

text \<open>What remains true of an image in the store when the engine has lost records in a crash.\<close>

definition image_agrees :: "DurSys \<Rightarrow> SnapshotImage \<Rightarrow> bool" where
  "image_agrees s im \<longleftrightarrow>
     (\<forall>(k, v)\<in>set (imgRecords im).
        (DotNodeID v = localNodeID (dsEngine s) \<longrightarrow> DotCounter v \<le> lamportCounter (dsEngine s)) \<and>
        (\<forall>m\<in>set (minted s). Dot v = mdot m \<longrightarrow> k = mEntityID m \<and> v = mFull m))"

definition stored_ok :: "(bytes \<Rightarrow> bytes) \<Rightarrow> DurSys \<Rightarrow> bytes \<Rightarrow> bool" where
  "stored_ok sha256 s data \<longleftrightarrow>
     (\<exists>im c i. image_ok im \<and> encodeSnapshotImage im = Some data \<and> (i, ItemCheckpoint c) \<in> sysAcked (dsLog s) \<and>
        snapshot_ok sha256 (localNodeID (dsEngine s)) c im \<and> image_agrees s im)"

text \<open>A shard that the walk has read: well formed, and everything in it is still in the engine.\<close>

definition shard_read :: "hasher \<Rightarrow> DeltaCRDTEngine \<Rightarrow> nat \<Rightarrow> HAMT \<Rightarrow> bool" where
  "shard_read mh e i h \<longleftrightarrow>
     hamt_ok mh h \<and>
     (\<forall>(k, es)\<in>set (hamt_binds h). routeShard mh e k = i \<and> leaf_ok es \<and>
        (\<forall>en\<in>set es. eng_map mh e k (Dot en) = Some en))"

definition phase_ok :: "RecoverDeps \<Rightarrow> bool \<Rightarrow> DurSys \<Rightarrow> bool" where
  "phase_ok D snap s \<longleftrightarrow>
     (case dsCkpt s of
        CkIdle \<Rightarrow> True
      | CkWalk cutSeq shs \<Rightarrow>
          cut_after cutSeq (sysItems (dsLog s)) \<and> length shs \<le> length (shards (dsEngine s)) \<and>
          (\<forall>i<length shs. shard_read (rdHash D) (dsEngine s) i (shs ! i))
      | CkReady c im \<Rightarrow>
          cut_after (cCutSeq c) (sysItems (dsLog s)) \<and>
          (snap \<longrightarrow> snapshot_ok (rdSha D) (localNodeID (dsEngine s)) c im \<and> held (rdHash D) (dsEngine s) im)
      | CkAnchored i im \<Rightarrow>
          (snap \<longrightarrow> (\<exists>c. i < length (sysItems (dsLog s)) \<and> sysItems (dsLog s) ! i = ItemCheckpoint c \<and>
             snapshot_ok (rdSha D) (localNodeID (dsEngine s)) c im \<and> held (rdHash D) (dsEngine s) im)))"

definition dur_inv :: "RecoverDeps \<Rightarrow> bool \<Rightarrow> DurSys \<Rightarrow> bool" where
  "dur_inv D snap s \<longleftrightarrow>
     log_inv (dsLog s) \<and> length (sysItems (dsLog s)) < 2 ^ 64 \<and> cuts_ok (sysItems (dsLog s)) \<and>
     engine_inv (rdHash D) (dsEngine s) \<and>
     (\<forall>m\<in>set (minted s). minted_ok (rdHash D) (dsEngine s) m) \<and> distinct (map mdot (minted s)) \<and>
     phase_ok D snap s \<and> (\<forall>data\<in>snd ` set (dsLfs s). stored_ok (rdSha D) s data)"

section \<open>Steps of the engine\<close>

definition grows :: "hasher \<Rightarrow> DeltaCRDTEngine \<Rightarrow> DeltaCRDTEngine \<Rightarrow> bool" where
  "grows mh e e' \<longleftrightarrow>
     routeSeed e' = routeSeed e \<and> length (shards e') = length (shards e) \<and> localNodeID e' = localNodeID e \<and>
     lamportCounter e \<le> lamportCounter e' \<and>
     (\<forall>k d v. eng_map mh e k d = Some v \<longrightarrow> eng_map mh e' k d = Some v)"

lemma grows_refl: "grows mh e e"
  by (simp add: grows_def)

lemma growsD:
  assumes "grows mh e e'"
  shows "localNodeID e' = localNodeID e" "length (shards e') = length (shards e)"
    "routeShard mh e' = routeShard mh e" "lamportCounter e \<le> lamportCounter e'"
    "eng_map mh e k d = Some v \<Longrightarrow> eng_map mh e' k d = Some v"
  using assms by (auto simp: grows_def intro: routeShard_cong)

lemma grows_keeps:
  assumes "grows mh e e'"
  shows "held mh e im \<Longrightarrow> held mh e' im" "minted_ok mh e m \<Longrightarrow> minted_ok mh e' m"
    "shard_read mh e i h \<Longrightarrow> shard_read mh e' i h"
  using growsD [OF assms] by (fastforce simp: held_def minted_ok_def shard_read_def)+

lemma Join_grows:
  assumes "sort_ok (rdSort D)" "engine_inv (rdHash D) e" "delivery_ok (rdHash D) delta e"
    and "Join (rdHash D) (rdSort D) (rdF64 D) delta e = Some e'"
  shows "grows (rdHash D) e e'" "engine_inv (rdHash D) e'"
proof -
  let ?mh = "rdHash D"
  have ok: "eng_ok ?mh e" "lamport_ok e" using assms(2) by (simp_all add: engine_inv_def)
  note fr = Join_frame [OF assms(4)] and js = Join_shards [OF ok(1) assms(1,4)]
    and jc = Join_cases [OF ok(1) assms(1,4)] and ab = Join_absorbs [OF ok assms(1,4)]
  show g: "grows ?mh e e'"
    using fr js(1) jc(1) ab by (auto simp: grows_def absorbs_def)
  have "sized_entry v" if "eng_map ?mh e' k d = Some v" for k d v
    using jc(2) [OF that] assms(2,3) by (auto simp: engine_inv_def delivery_ok_def)
  moreover have "eng_map ?mh e k d \<noteq> None" if "NodeID d = localNodeID e" "eng_map ?mh e' k d \<noteq> None" for k d
  proof -
    from that(2) have "\<exists>v. eng_map ?mh e' k d = Some v" by blast
    then show ?thesis using jc(2) that(1) assms(3) by (fastforce simp: delivery_ok_def Dot_def)
  qed
  ultimately show "engine_inv ?mh e'"
    using assms(2) ab growsD(1) [OF g] unfolding engine_inv_def absorbs_def by metis
qed

lemma InsertLocal_frame:
  "InsertLocal mh k entry e = Some (dot, e') \<Longrightarrow>
   routeSeed e' = routeSeed e \<and> length (shards e') = length (shards e) \<and> localNodeID e' = localNodeID e \<and>
   closing e' = closing e"
  using NextDot_spec [of e "fst (NextDot e)" "snd (NextDot e)"]
  by (auto simp: InsertLocal_def Let_def split: if_splits prod.splits)

lemma Insert_grows:
  assumes "engine_inv mh e" "InsertLocal mh k entry e = Some (dot, e')" "put_ok k entry e" "m = NewWALMutation k dot entry"
  shows "grows mh e e'" "engine_inv mh e'" "validateV2 m = None \<Longrightarrow> minted_ok mh e' m" "lamportCounter e < Counter (mdot m)"
proof -
  have ok: "eng_ok mh e" "lamport_ok e" "\<not> closing e" "length (localNodeID e) = 16" "localNodeID e \<noteq> replicate 16 0"
    using assms(1) by (simp_all add: engine_inv_def)
  have lim: "sized_entry entry" "153 + length k \<le> 4194304" "lamportCounter e < maxPlausibleCounter"
    using assms(3) by (simp_all add: put_ok_def)
  have mx: "lamportCounter e \<noteq> MaxUint64"
  proof
    assume "lamportCounter e = MaxUint64"
    moreover have "\<not> MaxUint64 < maxPlausibleCounter" by code_simp
    ultimately show False using lim(3) by simp
  qed
  then have lt: "lamportCounter e \<noteq> MaxUint64" "lamportCounter e + 1 \<le> maxPlausibleCounter" "lamportCounter e + 1 \<noteq> 0"
    using lim(3) less_plus_1 [OF mx] by (auto simp: inc_le)
  obtain e1 where e1: "InsertLocal mh k entry e = Some (CausalDot (localNodeID e) (lamportCounter e + 1), e1)"
    "eng_ok mh e1" "lamport_ok e1" "lamportCounter e1 = lamportCounter e + 1"
    "\<And>k'. eng_map mh e1 k' = (if k' = k then (eng_map mh e k)(Dot (stamped e entry) \<mapsto> stamped e entry)
        else eng_map mh e k')"
    by (rule InsertLocal_spec [OF ok(1,2) lt(1) ok(3), of k entry]) blast
  have d: "dot = CausalDot (localNodeID e) (lamportCounter e + 1)" "e1 = e'" using assms(2) e1(1) by simp_all
  note fr = InsertLocal_frame [OF assms(2)]
  have new: "eng_map mh e k' (CausalDot (localNodeID e) (lamportCounter e + 1)) = None" for k'
    by (rule fresh_dot [OF ok(1,2) lt(1)])
  have up: "lamportCounter e < lamportCounter e + 1" by (rule less_plus_1 [OF lt(1)])
  show g: "grows mh e e'"
    using fr e1(4,5) d(2) new up by (auto simp: grows_def Dot_stamped intro: less_imp_le)
  have m: "mFull m = stamped e entry" "mdot m = Dot (stamped e entry)" "mEntityID m = k"
    "mNodeID m = localNodeID e" "mCounter m = lamportCounter e + 1"
    using d(1) by (simp_all add: assms(4) NewWALMutation_def stamped_def mdot_def Dot_def Let_def)
  show "lamportCounter e < Counter (mdot m)" using m(2) up by (simp add: Dot_stamped)
  have sz: "sized_entry (stamped e entry)" using lim(1) ok(4) by (simp add: sized_entry_def stamped_def)
  show "minted_ok mh e' m" if v: "validateV2 m = None"
  proof -
    have "k \<noteq> []" using v m(3) by (auto simp: validateV2_def)
    then have "checkMutationRecord m (localNodeID e)"
      using m ok(5) lt(2,3) by (simp add: checkMutationRecord_def stamped_def not_less)
    moreover have "mEntry m = walEntryOf (mFull m)" by (simp add: assms(4) NewWALMutation_def Let_def)
    then have "item_ok (ItemMutation m)" using v sz m lim(2) ok(4) by simp
    ultimately show ?thesis using m e1(5) d(2) fr by (simp add: minted_ok_def)
  qed
  show "engine_inv mh e'"
    unfolding engine_inv_def
  proof (intro conjI allI impI)
    show "eng_ok mh e'" "lamport_ok e'" "\<not> closing e'" "length (localNodeID e') = 16" "localNodeID e' \<noteq> replicate 16 0"
      using e1(2,3) d(2) fr ok by simp_all
    show "sized_entry v" if "eng_map mh e' k' d' = Some v" for k' d' v
      using that sz assms(1) e1(5) d(2) by (auto simp: engine_inv_def split: if_splits)
    show "k1 = k2" if "NodeID d' = localNodeID e'" "eng_map mh e' k1 d' \<noteq> None" "eng_map mh e' k2 d' \<noteq> None" for k1 k2 d'
    proof (cases "d' = Dot (stamped e entry)")
      case True
      then show ?thesis using that(2,3) new e1(5) d(2) by (auto simp: Dot_stamped split: if_splits)
    next
      case False
      then show ?thesis
        using that assms(1) e1(5) d(2) fr by (auto simp: engine_inv_def split: if_splits)
    qed
  qed
qed

section \<open>Steps outside the checkpoint\<close>

lemma dur_invD:
  assumes "dur_inv D snap s"
  shows "log_inv (dsLog s)" "length (sysItems (dsLog s)) < 2 ^ 64" "cuts_ok (sysItems (dsLog s))"
    "engine_inv (rdHash D) (dsEngine s)" "m \<in> set (minted s) \<Longrightarrow> minted_ok (rdHash D) (dsEngine s) m"
    "distinct (map mdot (minted s))" "phase_ok D snap s"
    "data \<in> snd ` set (dsLfs s) \<Longrightarrow> stored_ok (rdSha D) s data"
  using assms unfolding dur_inv_def by blast+

lemma minted_below:
  assumes "engine_inv mh e" "minted_ok mh e m"
  shows "Counter (mdot m) \<le> lamportCounter e" "NodeID (mdot m) = localNodeID e"
proof -
  have ok: "eng_ok mh e" "lamport_ok e" using assms(1) by (simp_all add: engine_inv_def)
  have "eng_map mh e (mEntityID m) (mdot m) = Some (mFull m)" using assms(2) by (simp add: minted_ok_def)
  then show "Counter (mdot m) \<le> lamportCounter e" by (rule lamport_okD [OF ok])
  show "NodeID (mdot m) = localNodeID e"
    using assms(2) by (simp add: minted_ok_def checkMutationRecord_def mdot_def)
qed

lemma phase_ok_grows:
  assumes "phase_ok D snap s" "grows (rdHash D) (dsEngine s) e'"
  shows "phase_ok D snap (s\<lparr>dsEngine := e', dsPending := ps\<rparr>)"
  using assms(1) growsD(1,2) [OF assms(2)] grows_keeps(1,3) [OF assms(2)]
  by (cases "dsCkpt s") (auto simp: phase_ok_def)

lemma dur_inv_engine:
  assumes inv: "dur_inv D snap s" and g: "grows (rdHash D) (dsEngine s) e'" "engine_inv (rdHash D) e'"
    and ms: "\<And>m. m \<in> set ms \<Longrightarrow> minted_ok (rdHash D) e' m \<and> lamportCounter (dsEngine s) < Counter (mdot m)"
      "distinct (map mdot ms)"
  shows "dur_inv D snap (s\<lparr>dsEngine := e', dsPending := dsPending s @ ms\<rparr>)"
proof -
  let ?s = "s\<lparr>dsEngine := e', dsPending := dsPending s @ ms\<rparr>"
  have m: "minted ?s = minted s @ ms" by (simp add: minted_def)
  have old: "Counter (mdot x) \<le> lamportCounter (dsEngine s)" if "x \<in> set (minted s)" for x
    by (rule minted_below(1) [OF dur_invD(4) [OF inv] dur_invD(5) [OF inv that]])
  then have dis: "distinct (map mdot (minted ?s))"
    using dur_invD(6) [OF inv] ms unfolding m by (fastforce simp: leD)
  have agr: "image_agrees ?s im" if a: "image_agrees s im" for im
    unfolding image_agrees_def
  proof (clarify)
    fix k v assume kv: "(k, v) \<in> set (imgRecords im)"
    have c: "DotNodeID v = localNodeID (dsEngine s) \<longrightarrow> DotCounter v \<le> lamportCounter (dsEngine s)"
      and o: "\<forall>x\<in>set (minted s). Dot v = mdot x \<longrightarrow> k = mEntityID x \<and> v = mFull x"
      using a kv by (auto simp: image_agrees_def)
    have "Dot v \<noteq> mdot x" if x: "x \<in> set ms" for x
    proof
      assume e: "Dot v = mdot x"
      have "NodeID (mdot x) = localNodeID (dsEngine s)"
        using minted_below(2) [OF g(2)] ms(1) [OF x] growsD(1) [OF g(1)] by simp
      then have "Counter (Dot v) \<le> lamportCounter (dsEngine s)" using c e [symmetric] by (simp add: Dot_def)
      then show False using ms(1) [OF x] e by (simp add: leD)
    qed
    then show "(DotNodeID v = localNodeID (dsEngine ?s) \<longrightarrow> DotCounter v \<le> lamportCounter (dsEngine ?s)) \<and>
        (\<forall>x\<in>set (minted ?s). Dot v = mdot x \<longrightarrow> k = mEntityID x \<and> v = mFull x)"
      using c o growsD(1,4) [OF g(1)] unfolding m by fastforce
  qed
  have st: "stored_ok (rdSha D) ?s data" if "data \<in> snd ` set (dsLfs s)" for data
    using dur_invD(8) [OF inv that] agr growsD(1) [OF g(1)] unfolding stored_ok_def by fastforce
  have "minted_ok (rdHash D) e' x" if "x \<in> set (minted s)" for x
    by (rule grows_keeps(2) [OF g(1) dur_invD(5) [OF inv that]])
  then show ?thesis
    using inv g(2) ms(1) dis st phase_ok_grows [OF dur_invD(7) [OF inv] g(1), of "dsPending s @ ms"]
    unfolding dur_inv_def m by auto
qed

lemma cut_after_append:
  "cut_after c items \<Longrightarrow> \<not> isCkpt it \<Longrightarrow> cut_after c (items @ [it])"
  by (auto simp: cut_after_def nth_append less_Suc_eq)

lemma cuts_ok_append:
  assumes "cuts_ok items" "\<And>c. it = ItemCheckpoint c \<Longrightarrow> cut_after (cCutSeq c) items"
  shows "cuts_ok (items @ [it])"
  unfolding cuts_ok_def
proof (clarify)
  fix i c assume i: "i < length (items @ [it])" "(items @ [it]) ! i = ItemCheckpoint c"
  show "cut_after (cCutSeq c) (take i (items @ [it]))"
  proof (cases "i < length items")
    case True
    then show ?thesis using assms(1) i by (simp add: cuts_ok_def nth_append)
  next
    case False
    then have "i = length items" using i(1) by simp
    then show ?thesis using assms(2) i(2) by simp
  qed
qed

lemma phase_ok_append:
  assumes "phase_ok D snap s" "\<not> isCkpt it" "sysItems l' = sysItems (dsLog s) @ [it]"
  shows "phase_ok D snap (s\<lparr>dsLog := l', dsPending := ps\<rparr>)"
  using assms by (cases "dsCkpt s") (auto simp: phase_ok_def nth_append intro: cut_after_append)

lemma phase_ok_same:
  assumes "phase_ok D snap s" "sysItems l' = sysItems (dsLog s)"
  shows "phase_ok D snap (s\<lparr>dsLog := l', dsPending := ps\<rparr>)"
  using assms by (cases "dsCkpt s") (simp_all add: phase_ok_def)

lemma image_agrees_less:
  assumes "image_agrees s im" "set (minted s') \<subseteq> set (minted s)" "dsEngine s' = dsEngine s"
  shows "image_agrees s' im"
  using assms by (fastforce simp: image_agrees_def)

lemma stored_ok_less:
  assumes "stored_ok sha256 s data" "set (minted s') \<subseteq> set (minted s)" "dsEngine s' = dsEngine s"
    and "sysAcked (dsLog s) \<subseteq> sysAcked (dsLog s')"
  shows "stored_ok sha256 s' data"
  using assms image_agrees_less [OF _ assms(2,3)] unfolding stored_ok_def by (metis subsetD)

lemma distinct_mset_sub: "mset xs \<subseteq># mset ys \<Longrightarrow> distinct (map f ys) \<Longrightarrow> distinct (map f xs)"
proof -
  assume a: "mset xs \<subseteq># mset ys" and d: "distinct (map f ys)"
  obtain zs where zs: "mset ys - mset xs = mset zs" by (metis ex_mset)
  then have "mset ys = mset (xs @ zs)" using a by (metis mset_append subset_mset.add_diff_inverse)
  then have "mset (map f ys) = mset (map f (xs @ zs))" by (metis mset_map)
  then have "distinct (map f (xs @ zs))" using d by (metis mset_eq_imp_distinct_iff)
  then show ?thesis by simp
qed

text \<open>A step of the log on which the engine does not move.\<close>

lemma dur_inv_log:
  assumes inv: "dur_inv D snap s" and l: "log_inv l'" "sysAcked (dsLog s) \<subseteq> sysAcked l'"
    and items: "sysItems l' = sysItems (dsLog s) @ its" "length (sysItems l') < 2 ^ 64"
      "its = [] \<or> (\<exists>it. its = [it] \<and> \<not> isCkpt it)"
    and m: "mset (itemMutations (sysItems l') @ ps) \<subseteq># mset (minted s)"
  shows "dur_inv D snap (s\<lparr>dsLog := l', dsPending := ps\<rparr>)"
proof -
  let ?s = "s\<lparr>dsLog := l', dsPending := ps\<rparr>"
  have mm: "minted ?s = itemMutations (sysItems l') @ ps" by (simp add: minted_def)
  have sub: "set (minted ?s) \<subseteq> set (minted s)" using m unfolding mm by (metis set_mset_mset set_mset_mono)
  have cuts: "cuts_ok (sysItems l')"
    using items(1,3) dur_invD(3) [OF inv] cuts_ok_append by (auto simp: isCkpt_def)
  have phase: "phase_ok D snap ?s"
    using items(1,3) phase_ok_append [OF dur_invD(7) [OF inv]] phase_ok_same [OF dur_invD(7) [OF inv]] by auto
  have dis: "distinct (map mdot (minted ?s))" using distinct_mset_sub [OF m dur_invD(6) [OF inv]] mm by simp
  have "stored_ok (rdSha D) ?s data" if "data \<in> snd ` set (dsLfs s)" for data
    by (rule stored_ok_less [OF dur_invD(8) [OF inv that] sub]) (use l(2) in simp_all)
  then show ?thesis
    using l(1) items(2) cuts phase dis dur_invD(4) [OF inv] dur_invD(5) [OF inv] sub
    unfolding dur_inv_def by auto
qed

lemma itemMutations_append [simp]: "itemMutations (xs @ ys) = itemMutations xs @ itemMutations ys"
  by (simp add: itemMutations_def)

lemma itemMutations_single [simp]: "itemMutations [it] = itemMutation it"
  by (simp add: itemMutations_def)

lemma mset_remove1_sub: "mset (remove1 m ps) \<subseteq># mset ps"
  by simp

section \<open>Steps of the checkpoint\<close>

lemma dur_inv_phase:
  assumes "dur_inv D snap s" "phase_ok D snap (s\<lparr>dsCkpt := ph\<rparr>)"
  shows "dur_inv D snap (s\<lparr>dsCkpt := ph\<rparr>)"
  using assms by (simp add: dur_inv_def minted_def stored_ok_def image_agrees_def)

lemma phase_begin:
  assumes "dur_inv D snap s"
  shows "phase_ok D snap (s\<lparr>dsCkpt := CkWalk (NextSeq (sysWal (dsLog s))) []\<rparr>)"
proof -
  have "nextSeq (sysWal (dsLog s)) = of_nat (length (sysItems (dsLog s)))"
    using dur_invD(1) [OF assms] by (simp add: log_inv_def)
  then have "unat (NextSeq (sysWal (dsLog s))) = length (sysItems (dsLog s))"
    using dur_invD(2) [OF assms] by (simp add: NextSeq_def unat_of_nat)
  then show ?thesis by (simp add: phase_ok_def cut_after_def)
qed

lemma shard_read_live:
  assumes "eng_ok mh e" "i < length (shards e)"
  shows "shard_read mh e i (shards e ! i)"
proof -
  have "routeShard mh e k = i \<and> leaf_ok es \<and> (\<forall>en\<in>set es. eng_map mh e k (Dot en) = Some en)"
    if b: "(k, es) \<in> set (hamt_binds (shards e ! i))" for k es
  proof -
    have r: "routeShard mh e k = i" "leaf_ok es" using assms b by (auto simp: eng_ok_def)
    have "HAMT_Get mh (shards e ! i) k = es"
      using hm.binds_iff [OF eng_okD(1) [OF assms]] b by simp
    then have "PointGet mh k e = es" using PointGet_shard [OF assms(1), of k] r(1) by simp
    then show ?thesis using r dotmap_set [OF r(2)] by (auto simp: eng_map_def)
  qed
  then show ?thesis using eng_okD(1) [OF assms] by (auto simp: shard_read_def)
qed

lemma captureRecord_fst:
  "fst (fold (captureRecord k) es st) = fst st @ map (Pair k) es"
  by (induction es arbitrary: st) (auto simp: captureRecord_def split: prod.splits)

lemma capture_records:
  "fst (fold (\<lambda>(k, es) s. snd (captureFn True k es s)) kvs st) =
   fst st @ concat (map (\<lambda>(k, es). map (Pair k) es) kvs)"
  by (induction kvs arbitrary: st) (auto simp: captureFn_def captureRecord_fst)

text \<open>The state that the walk has read, although the engine moved on while it was reading.\<close>

lemma walked_engine:
  assumes "engine_inv mh e" "length shs = length (shards e)" "\<forall>i<length shs. shard_read mh e i (shs ! i)"
    and "ec = e\<lparr>shards := shs\<rparr>"
  shows "eng_ok mh ec" "(k, v) \<in> set (stateRecords ec) \<Longrightarrow> eng_map mh e k (Dot v) = Some v"
proof -
  have r: "routeShard mh ec = routeShard mh e" by (rule routeShard_cong) (simp_all add: assms(2,4))
  show ok: "eng_ok mh ec"
    using assms(1,2,3) unfolding eng_ok_def r by (fastforce simp: assms(4) engine_inv_def eng_ok_def shard_read_def)
  assume "(k, v) \<in> set (stateRecords ec)"
  then obtain es where es: "(k, es) \<in> set (all_binds ec)" "v \<in> set es" by (auto simp: stateRecords_def)
  then obtain h where "h \<in> set shs" "(k, es) \<in> set (hamt_binds h)" by (auto simp: all_binds_def assms(4))
  then obtain i where "i < length shs" "(k, es) \<in> set (hamt_binds (shs ! i))" by (metis in_set_conv_nth)
  then show "eng_map mh e k (Dot v) = Some v" using assms(3) es(2) by (fastforce simp: shard_read_def)
qed

lemma phase_capture:
  assumes inv: "dur_inv D snap s" and w: "dsCkpt s = CkWalk cutSeq shs" "length shs = length (shards (dsEngine s))"
    and c: "CaptureShardsPinned (rdSha D) (captureFn snap) ((dsEngine s)\<lparr>shards := shs\<rparr>) ([], []) =
       (merkle, mx, recs, latest)"
  shows "phase_ok D snap
       (s\<lparr>dsCkpt := CkReady (checkpointOf (rdSha D) snap merkle mx recs cutSeq (LamportCounter (dsEngine s)))
                      (imageOf merkle mx recs cutSeq)\<rparr>)"
proof -
  let ?e = "dsEngine s" and ?mh = "rdHash D"
  define ec where "ec = ?e\<lparr>shards := shs\<rparr>"
  have ei: "engine_inv ?mh ?e" by (rule dur_invD(4) [OF inv])
  have ph: "cut_after cutSeq (sysItems (dsLog s))" "\<forall>i<length shs. shard_read ?mh ?e i (shs ! i)"
    using dur_invD(7) [OF inv] w(1) by (simp_all add: phase_ok_def)
  note we = walked_engine [OF ei w(2) ph(2) ec_def]
  have cont: "\<And>k es s. fst (captureFn snap k es s)" by (simp add: captureFn_def)
  have cap: "merkle = MerkleRootFromShards (rdSha D) ec"
    "mx = maxLocal (localNodeID ?e) (concat (map snd (all_binds ec))) 0"
    "(recs, latest) = fold (\<lambda>(k, es) s. snd (captureFn snap k es s)) (all_binds ec) ([], [])"
    using c unfolding ec_def [symmetric] CaptureShardsPinned_continue [OF cont] by (simp_all add: ec_def)
  have "snapshot_ok (rdSha D) (localNodeID ?e)
      (checkpointOf (rdSha D) snap merkle mx recs cutSeq (LamportCounter ?e)) (imageOf merkle mx recs cutSeq) \<and>
    held ?mh ?e (imageOf merkle mx recs cutSeq)" if snap
  proof -
    have "recs = fst (fold (\<lambda>(k, es) s. snd (captureFn True k es s)) (all_binds ec) ([], []))"
      using arg_cong [OF cap(3), of fst] that by simp
    then have recs: "recs = stateRecords ec" unfolding capture_records by (simp add: stateRecords_def)
    have bound: "DotCounter v \<le> mx" if v: "(k, v) \<in> set recs" "DotNodeID v = localNodeID ?e" for k v
    proof -
      have "v \<in> set (concat (map snd (all_binds ec)))" using v(1) unfolding recs by (force simp: stateRecords_def)
      then show ?thesis unfolding cap(2) using v(2) by (rule maxLocal_bounds(1))
    qed
    have hold: "eng_map ?mh ?e k (Dot v) = Some v" if "(k, v) \<in> set recs" for k v
      using we(2) that recs by simp
    then have "sized_entry v" if "(k, v) \<in> set recs" for k v
      using that ei unfolding engine_inv_def by blast
    then have "\<forall>(k, v)\<in>set recs. sized_entry v \<and> (DotNodeID v = localNodeID ?e \<longrightarrow> DotCounter v \<le> mx)"
      using bound by blast
    moreover have "\<exists>mh ec. eng_ok mh ec \<and> mset recs = mset (stateRecords ec) \<and>
        merkle = MerkleRootFromShards (rdSha D) ec \<and>
        fingerprintRecords (rdSha D) recs = fingerprintRecords (rdSha D) (stateRecords ec)"
      using we(1) cap(1) recs by blast
    ultimately show ?thesis
      using that hold by (simp add: snapshot_ok_def held_def checkpointOf_def imageOf_def case_prod_unfold)
  qed
  then show ?thesis using ph(1) by (simp add: phase_ok_def checkpointOf_def)
qed

lemma dur_inv_anchor:
  assumes inv: "dur_inv D snap s" and c: "dsCkpt s = CkReady c im" and l: "logWrite (ItemCheckpoint c) (dsLog s) l'"
    and room: "sysClean l'" "log_room (dsLog s)"
  shows "dur_inv D snap (s\<lparr>dsLog := l', dsCkpt := CkAnchored (length (sysItems (dsLog s))) im\<rparr>)"
proof -
  let ?s = "s\<lparr>dsLog := l', dsCkpt := CkAnchored (length (sysItems (dsLog s))) im\<rparr>"
  note lw = logWrite_step [OF l dur_invD(1) [OF inv] room(1)]
  have ph: "cut_after (cCutSeq c) (sysItems (dsLog s))"
    "snap \<longrightarrow> snapshot_ok (rdSha D) (localNodeID (dsEngine s)) c im \<and> held (rdHash D) (dsEngine s) im"
    using dur_invD(7) [OF inv] c by (simp_all add: phase_ok_def)
  have m: "minted ?s = minted s" using lw(2) by (simp add: minted_def)
  have "cuts_ok (sysItems l')"
    unfolding lw(2) by (rule cuts_ok_append [OF dur_invD(3) [OF inv]]) (use ph(1) in simp)
  moreover have "phase_ok D snap ?s" using ph(2) lw(2) by (simp add: phase_ok_def nth_append)
  moreover have "stored_ok (rdSha D) ?s data" if "data \<in> snd ` set (dsLfs s)" for data
    by (rule stored_ok_less [OF dur_invD(8) [OF inv that]]) (use m lw(3) in simp_all)
  ultimately show ?thesis
    using lw(1,2) room(2) m dur_invD(4-6) [OF inv] unfolding dur_inv_def log_room_def by simp
qed

lemma dur_inv_lfs:
  assumes "dur_inv D snap s" "\<And>data. data \<in> snd ` set lfs' \<Longrightarrow> stored_ok (rdSha D) s data"
  shows "dur_inv D snap (s\<lparr>dsLfs := lfs'\<rparr>)"
proof -
  have "stored_ok (rdSha D) (s\<lparr>dsLfs := lfs'\<rparr>) = stored_ok (rdSha D) s"
    by (simp add: stored_ok_def image_agrees_def minted_def fun_eq_iff)
  moreover have "phase_ok D snap (s\<lparr>dsLfs := lfs'\<rparr>) = phase_ok D snap s"
    by (cases "dsCkpt s") (simp_all add: phase_ok_def)
  ultimately show ?thesis using assms unfolding dur_inv_def by (simp add: minted_def)
qed

lemma held_agrees:
  assumes inv: "dur_inv D snap s" and h: "held (rdHash D) (dsEngine s) im"
  shows "image_agrees s im"
  unfolding image_agrees_def
proof (clarify)
  fix k v assume kv: "(k, v) \<in> set (imgRecords im)"
  have ei: "engine_inv (rdHash D) (dsEngine s)" by (rule dur_invD(4) [OF inv])
  have v: "eng_map (rdHash D) (dsEngine s) k (Dot v) = Some v" using h kv by (auto simp: held_def)
  have "DotCounter v \<le> lamportCounter (dsEngine s)"
    using lamport_okD [OF _ _ v] ei by (simp add: engine_inv_def Dot_def)
  moreover have "k = mEntityID m \<and> v = mFull m" if m: "m \<in> set (minted s)" "Dot v = mdot m" for m
  proof -
    have mo: "minted_ok (rdHash D) (dsEngine s) m" by (rule dur_invD(5) [OF inv m(1)])
    then have em: "eng_map (rdHash D) (dsEngine s) (mEntityID m) (mdot m) = Some (mFull m)"
      by (simp add: minted_ok_def)
    have "k = mEntityID m"
      using ei minted_below(2) [OF ei mo] v em m(2) unfolding engine_inv_def by (metis option.distinct(1))
    then show ?thesis using v em m(2) by simp
  qed
  ultimately show "(DotNodeID v = localNodeID (dsEngine s) \<longrightarrow> DotCounter v \<le> lamportCounter (dsEngine s)) \<and>
      (\<forall>m\<in>set (minted s). Dot v = mdot m \<longrightarrow> k = mEntityID m \<and> v = mFull m)" by blast
qed

lemma snd_update: "snd ` set (AList.update k v xs) \<subseteq> insert v (snd ` set xs)"
  by (induction xs) auto

lemma WriteSnapshotImage_files:
  assumes "WriteSnapshotImage oc im lfs = (ok, lfs')"
  shows "lfs' = lfs \<or> (\<exists>data. encodeSnapshotImage im = Some data \<and> snd ` set lfs' \<subseteq> insert data (snd ` set lfs))"
proof (cases "encodeSnapshotImage im")
  case None
  then show ?thesis using assms by (simp add: WriteSnapshotImage_def)
next
  case (Some data)
  then have "lfs' = lfs \<or> lfs' = AList.update (snapshotKey (imgLamportHigh im)) data lfs"
    using assms by (cases oc) (simp_all add: WriteSnapshotImage_def Upload_def)
  then show ?thesis using Some snd_update by metis
qed

lemma dur_inv_image:
  assumes inv: "dur_inv D snap s" and c: "dsCkpt s = CkAnchored i im" "snap" "(i, it) \<in> sysAcked (dsLog s)"
    and sz: "136 * length (imgRecords im) \<le> 2 ^ 48" and w: "WriteSnapshotImage oc im (dsLfs s) = (ok, lfs')"
  shows "dur_inv D snap (s\<lparr>dsLfs := lfs', dsCkpt := CkIdle\<rparr>)"
proof -
  obtain ck where ck: "sysItems (dsLog s) ! i = ItemCheckpoint ck" "i < length (sysItems (dsLog s))"
    "snapshot_ok (rdSha D) (localNodeID (dsEngine s)) ck im" "held (rdHash D) (dsEngine s) im"
    using dur_invD(7) [OF inv] c(1,2) by (auto simp: phase_ok_def)
  have it: "it = ItemCheckpoint ck" using log_acked [OF dur_invD(1) [OF inv] c(3)] ck(1) by simp
  have "item_ok (ItemCheckpoint ck)"
    using dur_invD(1) [OF inv] ck(1,2) by (metis log_inv_def items_ok_def nth_mem)
  then have len: "length (imgMerkleRoot im) = 32" using ck(3) by (simp add: snapshot_ok_def)
  have new: "stored_ok (rdSha D) s data" if d: "encodeSnapshotImage im = Some data" for data
  proof -
    have "\<forall>r\<in>set (imgRecords im). record_ok r"
      using d ck(3) by (fastforce simp: encodeSnapshotImage_def Let_def record_ok_def snapshot_ok_def split: if_splits)
    then have "image_ok im" using len sz by (simp add: image_ok_def)
    then show ?thesis using d c(3) it ck(3) held_agrees [OF inv ck(4)] unfolding stored_ok_def by blast
  qed
  have "stored_ok (rdSha D) s data" if "data \<in> snd ` set lfs'" for data
    using WriteSnapshotImage_files [OF w] that new dur_invD(8) [OF inv] by blast
  then show ?thesis
    using inv by (simp add: dur_inv_def minted_def stored_ok_def image_agrees_def phase_ok_def)
qed

section \<open>Crash and boot\<close>

lemma replayItems_final:
  "HasCheckpoint (replayItems i items out) \<Longrightarrow>
   HasCheckpoint out \<and> FinalCheckpt (replayItems i items out) = FinalCheckpt out \<or>
   (\<exists>n c h. n < length items \<and> items ! n = ItemCheckpoint c \<and>
      FinalCheckpt (replayItems i items out) = clampCheckpoint h c)"
proof (induction items arbitrary: i out)
  case (Cons x xs)
  let ?o = "replayItem (of_nat i) x (countRecord (of_nat i) out)"
  have "HasCheckpoint (replayItems (Suc i) xs ?o)" using Cons.prems by simp
  from Cons.IH [OF this] consider
      "HasCheckpoint ?o" "FinalCheckpt (replayItems (Suc i) xs ?o) = FinalCheckpt ?o"
    | n c h where "n < length xs" "xs ! n = ItemCheckpoint c"
        "FinalCheckpt (replayItems (Suc i) xs ?o) = clampCheckpoint h c" by blast
  then show ?case
  proof cases
    case 1
    show ?thesis
    proof (cases x)
      case (ItemCheckpoint c)
      then have "FinalCheckpt ?o = clampCheckpoint (LamportHigh out) c" by (simp add: replayCheckpoint_def)
      then show ?thesis using 1(2) ItemCheckpoint by (metis length_Cons nth_Cons_0 replayItems.simps(2) zero_less_Suc)
    qed (use 1 in \<open>simp_all add: replayMutation_def replayAdvance_def\<close>)
  next
    case 2
    then show ?thesis by (metis Suc_less_eq length_Cons nth_Cons_Suc replayItems.simps(2))
  qed
qed simp

lemma replayed_final:
  assumes "HasCheckpoint (replayed items)"
  obtains n c h where "n < length items" "items ! n = ItemCheckpoint c"
    "FinalCheckpt (replayed items) = clampCheckpoint h c"
  using replayItems_final [of 0 items zeroReplayed] assms by (auto simp: replayed_def zeroReplayed_def)

lemma cuts_unique:
  assumes "cuts_ok items" "n < length items" "n' < length items"
    and "items ! n = ItemCheckpoint c" "items ! n' = ItemCheckpoint c'" "cCutSeq c = cCutSeq c'"
  shows "n = n'"
proof -
  have lt: "unat (cCutSeq x) \<le> a \<and> (\<forall>b<a. isCkpt (items ! b) \<longrightarrow> b < unat (cCutSeq x))"
    if "a < length items" "items ! a = ItemCheckpoint x" for a x
  proof -
    have "cut_after (cCutSeq x) (take a items)" using assms(1) that by (simp add: cuts_ok_def)
    then show ?thesis using that(1) by (simp add: cut_after_def)
  qed
  have "isCkpt (items ! n)" "isCkpt (items ! n')" using assms(4,5) by (simp_all add: isCkpt_def)
  then show ?thesis
    using lt [OF assms(2,4)] lt [OF assms(3,5)] assms(6) by (metis leD linorder_neqE_nat)
qed

lemma Load_stored:
  assumes "\<forall>data\<in>snd ` set lfs. stored_ok sha256 s data"
  shows "LoadSnapshotImage lh lfs \<noteq> Inl SnapPanic"
    and "LoadSnapshotImage lh lfs = Inr im' \<Longrightarrow>
      \<exists>im c i. im' = canonical im \<and> (i, ItemCheckpoint c) \<in> sysAcked (dsLog s) \<and>
        snapshot_ok sha256 (localNodeID (dsEngine s)) c im \<and> image_agrees s im"
proof -
  have "\<exists>im c i. decodeSnapshotImage data = Inr (canonical im) \<and> (i, ItemCheckpoint c) \<in> sysAcked (dsLog s) \<and>
      snapshot_ok sha256 (localNodeID (dsEngine s)) c im \<and> image_agrees s im"
    if "map_of lfs k = Some data" for k data
  proof -
    have "data \<in> snd ` set lfs" using map_of_SomeD [OF that] by force
    then obtain im c i where s: "image_ok im" "encodeSnapshotImage im = Some data"
      "(i, ItemCheckpoint c) \<in> sysAcked (dsLog s)" "snapshot_ok sha256 (localNodeID (dsEngine s)) c im"
      "image_agrees s im" using assms unfolding stored_ok_def by blast
    then have "decodeSnapshotImage data = Inr (canonical im)" using SnapshotImage_decodes [OF s(1)] by auto
    then show ?thesis using s(3-5) by blast
  qed
  note dec = this
  show "LoadSnapshotImage lh lfs \<noteq> Inl SnapPanic"
  proof (cases "map_of lfs (snapshotKey lh)")
    case (Some data)
    then show ?thesis using dec [OF Some] by (auto simp: LoadSnapshotImage_def Download_def split: if_splits)
  qed (simp add: LoadSnapshotImage_def Download_def)
  assume a: "LoadSnapshotImage lh lfs = Inr im'"
  then obtain data where d: "map_of lfs (snapshotKey lh) = Some data" "decodeSnapshotImage data = Inr im'"
    by (auto simp: LoadSnapshotImage_def Download_def split: option.splits sum.splits if_splits)
  then show "\<exists>im c i. im' = canonical im \<and> (i, ItemCheckpoint c) \<in> sysAcked (dsLog s) \<and>
        snapshot_ok sha256 (localNodeID (dsEngine s)) c im \<and> image_agrees s im"
    using dec [OF d(1)] by auto
qed

lemma bootImage_Some:
  assumes "bootImage nodeID (Some (localStore lfs)) rep = Some im"
  shows "HasCheckpoint rep" "LoadSnapshotImage (cLamportHigh (FinalCheckpt rep)) lfs = Inr im"
    "cHasCutSeq (FinalCheckpt rep) \<longrightarrow> imgCutSeq im = cCutSeq (FinalCheckpt rep)"
    "countPhantoms nodeID rep im = 0"
  using assms
  by (auto simp: bootImage_def loadImage_def localStore_def Let_def
        split: option.splits bool.splits sum.splits snapError.splits if_splits prod.splits)

lemma canonical_simps [simp]:
  "set (imgRecords (canonical im)) = set (imgRecords im)" "mset (imgRecords (canonical im)) = mset (imgRecords im)"
  "imgCutSeq (canonical im) = imgCutSeq im"
  by (simp_all add: canonical_def)

lemma clampCheckpoint_simps [simp]:
  "cCutSeq (clampCheckpoint h c) = cCutSeq c" "cMerkleRoot (clampCheckpoint h c) = cMerkleRoot c"
  "cHasFingerprint (clampCheckpoint h c) = cHasFingerprint c" "cFingerprint (clampCheckpoint h c) = cFingerprint c"
  "cHasCutSeq (clampCheckpoint h c) = cHasCutSeq c" "cLamportHigh (clampCheckpoint h c) = cLamportHigh c"
  by (simp_all add: clampCheckpoint_def)

lemma cuts_ok_take: "cuts_ok items \<Longrightarrow> cuts_ok (take j items)"
  by (auto simp: cuts_ok_def min_def)

lemma itemMutations_take: "\<exists>zs. itemMutations items = itemMutations (take j items) @ zs"
  by (rule exI [of _ "itemMutations (drop j items)"]) (metis append_take_drop_id itemMutations_append)

text \<open>The prefix of the log that a crash leaves is admissible, and the image that the boot selects is honest.\<close>

lemma crash_admissible:
  assumes inv: "dur_inv D snap s" and its: "items = take j (sysItems (dsLog s))"
    and acked: "\<forall>(i, it)\<in>sysAcked (dsLog s). i < j \<and> sysItems (dsLog s) ! i = it"
    and img: "img = bootImage (localNodeID (dsEngine s)) (Some (localStore (dsLfs s))) (replayed items)"
  shows "log_admissible (localNodeID (dsEngine s)) items" "set (itemMutations items) \<subseteq> set (minted s)"
    "loadImage (Some (localStore (dsLfs s))) (replayed items) \<noteq> Inl RecPanic"
    "honest (rdSha D) items img"
proof -
  let ?e = "dsEngine s" and ?rep = "replayed items"
  obtain zs where zs: "minted s = itemMutations items @ zs"
    using itemMutations_take [of "sysItems (dsLog s)" j] its by (auto simp: minted_def)
  then show sub: "set (itemMutations items) \<subseteq> set (minted s)" by simp
  have io: "items_ok items" using dur_invD(1) [OF inv] its items_ok_take by (auto simp: log_inv_def)
  have "checkMutationRecord m (localNodeID ?e)" if "m \<in> set (itemMutations items)" for m
    using dur_invD(5) [OF inv] sub that by (auto simp: minted_ok_def)
  then show "log_admissible (localNodeID ?e) items"
    using io dur_invD(6) [OF inv] zs by (simp add: log_admissible_def)
  have "\<forall>data\<in>snd ` set (dsLfs s). stored_ok (rdSha D) s data" using dur_invD(8) [OF inv] by blast
  note load = Load_stored [where lfs = "dsLfs s" and s = s, OF this]
  show "loadImage (Some (localStore (dsLfs s))) ?rep \<noteq> Inl RecPanic"
    using load(1) by (auto simp: loadImage_def localStore_def Let_def split: sum.splits snapError.splits bool.splits)
  show "honest (rdSha D) items img"
  proof (cases img)
    case None
    then show ?thesis by (simp add: honest_def)
  next
    case (Some im')
    note b = bootImage_Some [OF img [unfolded Some, symmetric]]
    obtain im c i where im: "im' = canonical im" "(i, ItemCheckpoint c) \<in> sysAcked (dsLog s)"
      "snapshot_ok (rdSha D) (localNodeID ?e) c im" "image_agrees s im" using load(2) [OF b(2)] by blast
    obtain n c' h where n: "n < length items" "items ! n = ItemCheckpoint c'" "FinalCheckpt ?rep = clampCheckpoint h c'"
      by (rule replayed_final [OF b(1)])
    have i: "i < length items" "items ! i = ItemCheckpoint c"
      using acked im(2) its log_acked [OF dur_invD(1) [OF inv] im(2)] by auto
    have "cCutSeq c' = cCutSeq c"
      using b(3) replayed_checkpoint [OF io b(1)] im(1,3) n(3) by (simp add: snapshot_ok_def)
    then have "n = i" using cuts_unique [OF _ n(1) i(1) n(2) i(2)] cuts_ok_take [OF dur_invD(3) [OF inv]] its by simp
    then have "c' = c" using n(2) i(2) by simp
    then have "image_honest (rdSha D) items (FinalCheckpt ?rep) im'"
      using im(1,3,4) n(3) sub unfolding image_honest_def snapshot_ok_def image_agrees_def by fastforce
    then show ?thesis by (simp add: honest_def Some)
  qed
qed

lemma Recover_reopens:
  assumes "RecoverEngineWithSnapshot D nodeID (Some f) store = Inr (e, w, rep, wit)"
    and "ReplayWAL (Some (fbytes f)) = Inr rep'"
  shows "OpenWAL None True f = Inr w"
  using assms
  by (auto simp: RecoverEngineWithSnapshot_def Let_def split: sum.splits prod.splits if_splits)

text \<open>What a boot after a crash finds: a prefix of the log with all acknowledged records, and its content.\<close>

definition boot_result :: "RecoverDeps \<Rightarrow> DurSys \<Rightarrow> nat \<Rightarrow> DeltaCRDTEngine \<Rightarrow> LogSys \<Rightarrow> bool" where
  "boot_result D s j e l \<longleftrightarrow>
     j \<le> length (sysItems (dsLog s)) \<and> log_inv l \<and> sysItems l = take j (sysItems (dsLog s)) \<and>
     sysAcked l = sysAcked (dsLog s) \<and> (\<forall>(i, it)\<in>sysAcked l. i < j \<and> sysItems (dsLog s) ! i = it) \<and>
     engine_inv (rdHash D) e \<and> localNodeID e = localNodeID (dsEngine s) \<and>
     itemsHigh (sysItems l) \<le> lamportCounter e \<and>
     (\<forall>m\<in>set (itemMutations (sysItems l)). minted_ok (rdHash D) e m) \<and>
     (\<forall>k d v. eng_map (rdHash D) e k d = Some v \<longrightarrow> NodeID d = localNodeID e \<longrightarrow>
        (\<exists>m\<in>set (itemMutations (sysItems l)). k = mEntityID m \<and> d = mdot m \<and> v = mFull m))"

lemma boot_engine:
  assumes adm: "log_admissible nodeID items" and hon: "honest sha256 items img"
    and img: "img = bootImage nodeID store (replayed items)" "store = Some (localStore lfs)"
    and sized: "\<And>k v. (k, v) \<in> imgSet img \<Longrightarrow> sized_entry v"
    and e: "eng_ok mh e" "lamport_ok e" "\<not> closing e" "localNodeID e = nodeID"
    and id: "length nodeID = 16" "nodeID \<noteq> replicate 16 0"
    and cont: "\<forall>k d v. eng_map mh e k d = Some v \<longleftrightarrow> (k, v) \<in> logRecords items \<union> imgSet img \<and> Dot v = d"
  shows "engine_inv mh e" "\<forall>m\<in>set (itemMutations items). minted_ok mh e m"
    "eng_map mh e k d = Some v \<Longrightarrow> NodeID d = localNodeID e \<Longrightarrow>
       \<exists>m\<in>set (itemMutations items). k = mEntityID m \<and> d = mdot m \<and> v = mFull m"
proof -
  have io: "item_ok (ItemMutation m)" if "m \<in> set (itemMutations items)" for m
    using adm that items_ok_mutation by (auto simp: log_admissible_def)
  have own: "\<exists>m\<in>set (itemMutations items). k = mEntityID m \<and> d = mdot m \<and> v = mFull m"
    if "eng_map mh e k d = Some v" "NodeID d = nodeID" for k d v
  proof (cases "(k, v) \<in> logRecords items")
    case True
    then obtain m where m: "m \<in> set (itemMutations items)" "k = mEntityID m" "v = mFull m"
      by (auto simp: logRecords_def)
    then show ?thesis using that(1) cont Dot_mFull [OF io [OF m(1)]] by auto
  next
    case False
    then have kv: "(k, v) \<in> imgSet img" "Dot v = d" using that(1) cont by auto
    then obtain im where im: "img = Some im" "(k, v) \<in> set (imgRecords im)" by (auto simp: imgSet_def split: option.splits)
    have "countPhantoms nodeID (replayed items) im = 0"
      using bootImage_Some(4) img im(1) by metis
    then have "Dot v \<in> set (localDots (replayed items))"
      using im(2) that(2) kv(2) by (fastforce simp: countPhantoms_def filter_empty_conv Dot_def)
    then obtain m where "m \<in> set (itemMutations items)" "Dot v = mdot m" by (auto simp: localDots_def mdot_def)
    then show ?thesis using honest_agrees [OF hon kv(1)] kv(2) by blast
  qed
  show "eng_map mh e k d = Some v \<Longrightarrow> NodeID d = localNodeID e \<Longrightarrow>
      \<exists>m\<in>set (itemMutations items). k = mEntityID m \<and> d = mdot m \<and> v = mFull m" using own e(4) by blast
  show "\<forall>m\<in>set (itemMutations items). minted_ok mh e m"
    using adm io cont e(4) Dot_mFull [OF io] by (auto simp: minted_ok_def log_admissible_def logRecords_def)
  have "sized_entry v" if "eng_map mh e k d = Some v" for k d v
    using that cont sized io by (fastforce simp: logRecords_def)
  moreover have "k1 = k2" if "NodeID d = nodeID" "eng_map mh e k1 d \<noteq> None" "eng_map mh e k2 d \<noteq> None" for k1 k2 d
    using that own mdot_unique [OF adm] by (metis option.exhaust)
  ultimately show "engine_inv mh e" using e id by (simp add: engine_inv_def)
qed

lemma crash_boot:
  assumes inv: "dur_inv D snap s" and so: "sort_ok (rdSort D)"
    and f: "walFile (sysWal (dsLog s)) = Some f" "fsynced f \<le> k"
  shows "\<exists>j e w wit. RecoverEngineWithSnapshot D (localNodeID (dsEngine s)) (Some (crashImage k f))
      (Some (localStore (dsLfs s))) = Inr (e, w, replayed (take j (sysItems (dsLog s))), wit) \<and>
    boot_result D s j e ((dsLog s)\<lparr>sysWal := w, sysItems := take j (sysItems (dsLog s)), sysFlight := {}, sysTorn := False\<rparr>)"
proof -
  let ?nid = "localNodeID (dsEngine s)" and ?store = "Some (localStore (dsLfs s))"
  note li = dur_invD(1) [OF inv]
  obtain j torn where j: "j \<le> length (sysItems (dsLog s))"
    "take k (fbytes f) = walHeader @ logBytes 0 (take j (sysItems (dsLog s))) @ torn"
    "torn_ok (length (take j (sysItems (dsLog s)))) torn" "items_ok (take j (sysItems (dsLog s)))"
    "\<forall>(i, it)\<in>sysAcked (dsLog s). i < j \<and> sysItems (dsLog s) ! i = it"
    by (rule log_inv_crash [OF li f])
  define items where "items = take j (sysItems (dsLog s))"
  define img where "img = bootImage ?nid ?store (replayed items)"
  note ca = crash_admissible [OF inv items_def j(5) img_def]
  have fb: "fbytes (crashImage k f) = walHeader @ logBytes 0 items @ torn"
    by (simp add: crashImage_def j(2) items_def)
  have "8 \<le> fsynced (crashImage k f)" using fb by (simp add: crashImage_def j(2))
  from recovery_restores_lemma [OF so ca(1) j(3) [folded items_def] fb this ca(3) img_def ca(4)]
  obtain e w wit where r: "RecoverEngineWithSnapshot D ?nid (Some (crashImage k f)) ?store = Inr (e, w, replayed items, wit)"
    "eng_ok (rdHash D) e" "lamport_ok e" "\<not> closing e" "localNodeID e = ?nid" "itemsHigh items \<le> lamportCounter e"
    "\<forall>k d v. eng_map (rdHash D) e k d = Some v \<longleftrightarrow> (k, v) \<in> logRecords items \<union> imgSet img \<and> Dot v = d" by blast
  have sized: "sized_entry v" if kv: "(k, v) \<in> imgSet img" for k v
  proof -
    obtain im where im: "img = Some im" "(k, v) \<in> set (imgRecords im)" using kv by (auto simp: imgSet_def split: option.splits)
    have "\<forall>data\<in>snd ` set (dsLfs s). stored_ok (rdSha D) s data" using dur_invD(8) [OF inv] by blast
    from Load_stored(2) [OF this bootImage_Some(2) [OF img_def [unfolded im(1), symmetric]]]
    show ?thesis using im(2) by (auto simp: snapshot_ok_def)
  qed
  have ei: "length ?nid = 16" "?nid \<noteq> replicate 16 0" using dur_invD(4) [OF inv] by (simp_all add: engine_inv_def)
  note be = boot_engine [OF ca(1,4) img_def refl sized r(2-5) ei r(7)]
  have "ReplayWAL (Some (fbytes (crashImage k f))) = Inr (replayed items)"
    unfolding fb using ReplayWAL_log [OF j(4,3)] by (simp add: items_def)
  note op = Recover_reopens [OF r(1) this]
  have sc: "fst (snd (scanRecords (take k (fbytes f)))) = j" using scanRecords_log [OF j(4,3)] j(1,2) by simp
  have "log_inv ((dsLog s)\<lparr>sysWal := w, sysItems := items, sysFlight := {}, sysTorn := False\<rparr>)"
    using log_inv_crash_step [OF li f op] unfolding sc by (simp add: items_def)
  then have "boot_result D s j e ((dsLog s)\<lparr>sysWal := w, sysItems := items, sysFlight := {}, sysTorn := False\<rparr>)"
    unfolding boot_result_def using j(1,5) be r(5,6) by (simp add: items_def)
  then show ?thesis using r(1) unfolding items_def by blast
qed

lemma itemsHigh_checkpoint:
  assumes "i < length items" "items ! i = ItemCheckpoint c"
  shows "cLamportHigh c \<le> itemsHigh items"
proof -
  have "itemHigh x \<le> fold (\<lambda>it. max (itemHigh it)) xs a" if "x \<in> set xs" for x xs a
    using that by (rule fold_max_ge2)
  then show ?thesis using assms unfolding itemsHigh_def by (metis itemHigh.simps(3) nth_mem)
qed

lemma dur_inv_boot:
  assumes inv: "dur_inv D snap s" and b: "boot_result D s j e l"
  shows "dur_inv D snap (s\<lparr>dsEngine := e, dsPending := [], dsCkpt := CkIdle, dsLog := l\<rparr>)"
proof -
  let ?s = "s\<lparr>dsEngine := e, dsPending := [], dsCkpt := CkIdle, dsLog := l\<rparr>"
  have its: "sysItems l = take j (sysItems (dsLog s))" and ack: "sysAcked l = sysAcked (dsLog s)"
    and li: "log_inv l" and ei: "engine_inv (rdHash D) e" "localNodeID e = localNodeID (dsEngine s)"
    and hi: "itemsHigh (sysItems l) \<le> lamportCounter e"
    and mo: "\<forall>m\<in>set (itemMutations (sysItems l)). minted_ok (rdHash D) e m"
    using b unfolding boot_result_def by blast+
  have m: "minted ?s = itemMutations (sysItems l)" by (simp add: minted_def)
  obtain zs where zs: "minted s = itemMutations (sysItems l) @ zs"
    using itemMutations_take [of "sysItems (dsLog s)" j] its by (auto simp: minted_def)
  have st: "stored_ok (rdSha D) ?s data" if dat: "data \<in> snd ` set (dsLfs s)" for data
  proof -
    obtain im c i where im: "image_ok im" "encodeSnapshotImage im = Some data"
      "(i, ItemCheckpoint c) \<in> sysAcked (dsLog s)" "snapshot_ok (rdSha D) (localNodeID e) c im" "image_agrees s im"
      using dur_invD(8) [OF inv dat] ei(2) unfolding stored_ok_def by auto
    have "cLamportHigh c \<le> lamportCounter e"
      using log_acked [OF li, of i "ItemCheckpoint c"] im(3) ack itemsHigh_checkpoint hi by (metis order_trans)
    then have "\<forall>(k, v)\<in>set (imgRecords im). DotNodeID v = localNodeID e \<longrightarrow> DotCounter v \<le> lamportCounter e"
      using im(4) order_trans unfolding snapshot_ok_def by blast
    then have "image_agrees ?s im" using im(5) zs unfolding image_agrees_def m by fastforce
    then show ?thesis using im(1-4) ack unfolding stored_ok_def by fastforce
  qed
  have "distinct (map mdot (minted ?s))" using dur_invD(6) [OF inv] zs m by simp
  moreover have "length (sysItems l) < 2 ^ 64" using dur_invD(2) [OF inv] its by simp
  moreover have "cuts_ok (sysItems l)" using cuts_ok_take [OF dur_invD(3) [OF inv]] its by simp
  ultimately show ?thesis
    using li ei(1) mo st unfolding dur_inv_def m by (simp add: phase_ok_def)
qed

lemma dur_start_inv:
  assumes "length nodeID = 16" "nodeID \<noteq> replicate 16 0"
  shows "dur_inv D snap (dur_start D nodeID)"
proof -
  have "engine_inv (rdHash D) (newEngineAt D nodeID 1)"
    using assms newEngineAt_facts [where D = D and nodeID = nodeID and c = 1] by (simp add: engine_inv_def)
  then show ?thesis
    using log_start_inv
    by (simp add: dur_inv_def dur_start_def minted_def itemMutations_def phase_ok_def cuts_ok_def log_start_def)
qed

lemma snd_delete: "snd ` set (AList.delete k xs) \<subseteq> snd ` set xs"
  by (induction xs) auto

lemma dur_inv_clean [simp]: "dur_inv D snap (s\<lparr>dsClean := c\<rparr>) = dur_inv D snap s"
  by (simp add: dur_inv_def minted_def phase_ok_def stored_ok_def image_agrees_def cong: CkptPhase.case_cong)

lemma dur_step_inv:
  "dur_step D snap s s' \<Longrightarrow> undisturbed s' \<Longrightarrow> sort_ok (rdSort D) \<Longrightarrow> dur_inv D snap s \<Longrightarrow> dur_inv D snap s'"
proof (induction rule: dur_step.induct)
  case (put_insert k entry s dot e')
  have "put_ok k entry (dsEngine s)" using put_insert(3) by (simp add: undisturbed_def)
  note g = Insert_grows [OF dur_invD(4) [OF put_insert(5)] put_insert(1) this refl]
  have "dur_inv D snap (s\<lparr>dsEngine := e', dsPending := dsPending s @ [NewWALMutation k dot entry]\<rparr>)"
    by (rule dur_inv_engine [OF put_insert(5) g(1,2)]) (use g(3) [OF put_insert(2)] g(4) in simp_all)
  then show ?case by simp
next
  case (put_refused k entry s dot e')
  have "put_ok k entry (dsEngine s)" using put_refused(3) by (simp add: undisturbed_def)
  note g = Insert_grows [OF dur_invD(4) [OF put_refused(5)] put_refused(1) this refl]
  have "dur_inv D snap (s\<lparr>dsEngine := e', dsPending := dsPending s @ []\<rparr>)"
    by (rule dur_inv_engine [OF put_refused(5) g(1,2)]) simp_all
  then show ?case by simp
next
  case (put_write m s l')
  have cl: "sysClean l'" "log_room (dsLog s)" using put_write(3) by (simp_all add: undisturbed_def)
  note lw = logWrite_step [OF put_write(2) dur_invD(1) [OF put_write(5)] cl(1)]
  have "dur_inv D snap (s\<lparr>dsLog := l', dsPending := remove1 m (dsPending s)\<rparr>)"
  proof (rule dur_inv_log [OF put_write(5) lw(1) _ lw(2)])
    show "mset (itemMutations (sysItems l') @ remove1 m (dsPending s)) \<subseteq># mset (minted s)"
      using put_write(1) lw(2) by (simp add: minted_def)
  qed (use lw(2,3) cl(2) in \<open>simp_all add: isCkpt_def log_room_def\<close>)
  then show ?case by simp
next
  case (put_write_fails m s l')
  have "sysClean l'" using put_write_fails(3) by (simp add: undisturbed_def)
  note lw = logWriteFails_step [OF put_write_fails(2) dur_invD(1) [OF put_write_fails(5)] this]
  show ?case
    by (rule dur_inv_log [where its = "[]", OF put_write_fails(5) lw(1)])
      (use lw(2,3) dur_invD(2) [OF put_write_fails(5)] in \<open>simp_all add: minted_def\<close>)
next
  case (flush s l')
  note lf = logFlush_step [OF flush(1) dur_invD(1) [OF flush(4)]]
  have "dur_inv D snap (s\<lparr>dsLog := l', dsPending := dsPending s\<rparr>)"
    by (rule dur_inv_log [where its = "[]", OF flush(4) lf(1,3)])
      (use lf(2) dur_invD(2) [OF flush(4)] in \<open>simp_all add: minted_def\<close>)
  then show ?case by simp
next
  case (flush_fails s l')
  note lf = logFlushFails_step [OF flush_fails(1) dur_invD(1) [OF flush_fails(4)]]
  have "dur_inv D snap (s\<lparr>dsLog := l', dsPending := dsPending s\<rparr>)"
    by (rule dur_inv_log [where its = "[]", OF flush_fails(4) lf(1)])
      (use lf(2,3) dur_invD(2) [OF flush_fails(4)] in \<open>simp_all add: minted_def\<close>)
  then show ?case by simp
next
  case (receive delta s e')
  have "delivery_ok (rdHash D) delta (dsEngine s)" using receive(2) by (simp add: undisturbed_def)
  note g = Join_grows [OF receive(3) dur_invD(4) [OF receive(4)] this receive(1)]
  have "dur_inv D snap (s\<lparr>dsEngine := e', dsPending := dsPending s @ []\<rparr>)"
    by (rule dur_inv_engine [OF receive(4) g]) simp_all
  then show ?case by simp
next
  case (advance_write s l')
  have cl: "sysClean l'" "log_room (dsLog s)" using advance_write(2) by (simp_all add: undisturbed_def)
  note lw = logWrite_step [OF advance_write(1) dur_invD(1) [OF advance_write(4)] cl(1)]
  have "dur_inv D snap (s\<lparr>dsLog := l', dsPending := dsPending s\<rparr>)"
    by (rule dur_inv_log [OF advance_write(4) lw(1) _ lw(2)])
      (use lw(2,3) cl(2) in \<open>simp_all add: minted_def isCkpt_def log_room_def\<close>)
  then show ?case by simp
next
  case (advance_write_fails s l')
  have "sysClean l'" using advance_write_fails(2) by (simp add: undisturbed_def)
  note lw = logWriteFails_step [OF advance_write_fails(1) dur_invD(1) [OF advance_write_fails(4)] this]
  have "dur_inv D snap (s\<lparr>dsLog := l', dsPending := dsPending s\<rparr>)"
    by (rule dur_inv_log [where its = "[]", OF advance_write_fails(4) lw(1)])
      (use lw(2,3) dur_invD(2) [OF advance_write_fails(4)] in \<open>simp_all add: minted_def\<close>)
  then show ?case by simp
next
  case (ckpt_begin s)
  show ?case by (rule dur_inv_phase [OF ckpt_begin(4) phase_begin [OF ckpt_begin(4)]])
next
  case (ckpt_shard s cutSeq shs)
  have "eng_ok (rdHash D) (dsEngine s)" using dur_invD(4) [OF ckpt_shard(5)] by (simp add: engine_inv_def)
  note sr = shard_read_live [OF this ckpt_shard(2)]
  show ?case
    by (rule dur_inv_phase [OF ckpt_shard(5)])
      (use dur_invD(7) [OF ckpt_shard(5)] ckpt_shard(1,2) sr in \<open>auto simp: phase_ok_def nth_append less_Suc_eq\<close>)
next
  case (ckpt_capture s cutSeq shs merkle mx recs latest)
  show ?case by (rule dur_inv_phase [OF ckpt_capture(6) phase_capture [OF ckpt_capture(6,1-3)]])
next
  case (ckpt_anchor s c im l')
  have cl: "sysClean l'" "log_room (dsLog s)" using ckpt_anchor(3) by (simp_all add: undisturbed_def)
  show ?case using dur_inv_anchor [OF ckpt_anchor(5,1,2) cl] by simp
next
  case (ckpt_anchor_fails s c im l')
  have "sysClean l'" using ckpt_anchor_fails(3) by (simp add: undisturbed_def)
  note lw = logWriteFails_step [OF ckpt_anchor_fails(2) dur_invD(1) [OF ckpt_anchor_fails(5)] this]
  have "dur_inv D snap (s\<lparr>dsLog := l', dsPending := dsPending s\<rparr>)"
    by (rule dur_inv_log [where its = "[]", OF ckpt_anchor_fails(5) lw(1)])
      (use lw(2,3) dur_invD(2) [OF ckpt_anchor_fails(5)] in \<open>simp_all add: minted_def\<close>)
  then show ?case using dur_inv_phase [of D snap "s\<lparr>dsLog := l'\<rparr>" CkIdle] by (simp add: phase_ok_def)
next
  case (ckpt_image s i im it oc ok lfs')
  have "136 * length (imgRecords im) \<le> 2 ^ 48" using ckpt_image(5) by (simp add: undisturbed_def)
  then show ?case using dur_inv_image [OF ckpt_image(7,1-3) _ ckpt_image(4)] by simp
next
  case (image_lost s key)
  have "stored_ok (rdSha D) s data" if "data \<in> snd ` set (Delete key (dsLfs s))" for data
    by (rule dur_invD(8) [OF image_lost(3) subsetD [OF snd_delete that [unfolded Delete_def]]])
  then show ?case by (rule dur_inv_lfs [OF image_lost(3)])
next
  case (ckpt_done s)
  then show ?case using dur_inv_phase [of D snap s CkIdle] by (simp add: phase_ok_def)
next
  case (crash s f k e' w' rep wit)
  let ?l = "\<lambda>j. (dsLog s)\<lparr>sysWal := w', sysItems := take j (sysItems (dsLog s)), sysFlight := {}, sysTorn := False\<rparr>"
  obtain j e w wit' where b:
    "RecoverEngineWithSnapshot D (localNodeID (dsEngine s)) (Some (crashImage k f)) (Some (localStore (dsLfs s))) =
      Inr (e, w, replayed (take j (sysItems (dsLog s))), wit')"
    "boot_result D s j e ((dsLog s)\<lparr>sysWal := w, sysItems := take j (sysItems (dsLog s)), sysFlight := {}, sysTorn := False\<rparr>)"
    using crash_boot [OF crash(6,5,1,2)] by blast
  have eq: "e = e'" "w = w'" "rep = replayed (take j (sysItems (dsLog s)))" using b(1) crash(3) by simp_all
  have "dur_inv D snap (s\<lparr>dsEngine := e', dsPending := [], dsCkpt := CkIdle, dsLog := ?l j\<rparr>)"
    by (rule dur_inv_boot [OF crash(6) b(2) [unfolded eq(1,2)]])
  moreover have "take (RecordsVerified rep) (sysItems (dsLog s)) = take j (sysItems (dsLog s))"
    by (simp add: eq(3) min_def)
  ultimately show ?case by simp
qed

lemma dur_step_node:
  "dur_step D snap s s' \<Longrightarrow> undisturbed s' \<Longrightarrow> sort_ok (rdSort D) \<Longrightarrow> dur_inv D snap s \<Longrightarrow>
  localNodeID (dsEngine s') = localNodeID (dsEngine s)"
proof (induction rule: dur_step.induct)
  case (crash s f k e' w' rep wit)
  then show ?case using crash_boot [OF crash(6,5,1,2)] by (auto simp: boot_result_def)
next
  case (put_insert k entry s dot e')
  then show ?case using InsertLocal_frame by fastforce
next
  case (put_refused k entry s dot e')
  then show ?case using InsertLocal_frame by fastforce
next
  case (receive delta s e')
  then show ?case using Join_frame by fastforce
qed simp_all

lemma dur_run_inv:
  assumes "(dur_step D snap)\<^sup>*\<^sup>* s s'" "undisturbed s'" "sort_ok (rdSort D)" "dur_inv D snap s"
  shows "dur_inv D snap s' \<and> localNodeID (dsEngine s') = localNodeID (dsEngine s)"
  using assms
proof (induction rule: rtranclp_induct)
  case (step y z)
  have "undisturbed y" by (rule dur_step_undisturbed [OF step(2,4)])
  then show ?case using step dur_step_inv [OF step(2,4,5)] dur_step_node [OF step(2,4,5)] by simp
qed simp

text \<open>
  C4. Acknowledged writes survive. Let a node run: local writes and batches, gossip, clock records,
  periodic checkpoints whose walk sees shards of different moments, failed and short writes, failed flushes, lost
  images, and any number of crashes with boots, in any interleaving. Suppose the run is \<^verbatim>\<open>undisturbed\<close>: after a write
  that stopped midway nothing was appended before the next boot, keys fit in 4 MiB, the clock stayed below
  2^60, the log below 2^64 records and images below 2^48 bytes, and gossip brought under this node's name only records that the node held; the code checks none of this.
  Then, whenever the node crashes and
  whatever part of the unflushed bytes the disk keeps, the next boot succeeds; the recovered engine is
  well formed and holds every write that was acknowledged, unchanged; it holds no record under this
  node's name that was not written before the crash; and its clock is not below any acknowledged dot,
  so that no acknowledged dot is issued again.
\<close>

theorem durable_writes_survive:
  assumes "sort_ok (rdSort D)" "length nodeID = 16" "nodeID \<noteq> replicate 16 0"
    and "(dur_step D snap)\<^sup>*\<^sup>* (dur_start D nodeID) s" "undisturbed s"
    and "walFile (sysWal (dsLog s)) = Some f" "fsynced f \<le> k"
  shows "\<exists>e w rep wit. RecoverEngineWithSnapshot D nodeID (Some (crashImage k f)) (Some (localStore (dsLfs s))) =
      Inr (e, w, rep, wit) \<and> eng_ok (rdHash D) e \<and> lamport_ok e \<and>
    (\<forall>i m. (i, ItemMutation m) \<in> sysAcked (dsLog s) \<longrightarrow>
       eng_map (rdHash D) e (mEntityID m) (mdot m) = Some (mFull m) \<and> mCounter m \<le> lamportCounter e) \<and>
    (\<forall>x d v. eng_map (rdHash D) e x d = Some v \<and> NodeID d = nodeID \<longrightarrow>
       eng_map (rdHash D) (dsEngine s) x d = Some v)"
proof -
  note run = dur_run_inv [OF assms(4,5,1) dur_start_inv [OF assms(2,3)]]
  have inv: "dur_inv D snap s" using run by simp
  have nid: "localNodeID (dsEngine s) = nodeID" using run newEngineAt_facts(4) by (simp add: dur_start_def)
  obtain j e w wit where b:
    "RecoverEngineWithSnapshot D nodeID (Some (crashImage k f)) (Some (localStore (dsLfs s))) =
       Inr (e, w, replayed (take j (sysItems (dsLog s))), wit)"
    "boot_result D s j e ((dsLog s)\<lparr>sysWal := w, sysItems := take j (sysItems (dsLog s)), sysFlight := {}, sysTorn := False\<rparr>)"
    using crash_boot [OF inv assms(1,6,7)] nid by blast
  let ?ms = "set (itemMutations (take j (sysItems (dsLog s))))"
  have ei: "engine_inv (rdHash D) e" "localNodeID e = nodeID" "\<forall>m\<in>?ms. minted_ok (rdHash D) e m"
    and own: "\<forall>k d v. eng_map (rdHash D) e k d = Some v \<longrightarrow> NodeID d = localNodeID e \<longrightarrow>
      (\<exists>m\<in>?ms. k = mEntityID m \<and> d = mdot m \<and> v = mFull m)"
    and ack: "\<forall>(i, it)\<in>sysAcked (dsLog s). i < j \<and> sysItems (dsLog s) ! i = it" and jl: "j \<le> length (sysItems (dsLog s))"
    using b(2) nid by (simp_all add: boot_result_def)
  have mem: "m \<in> ?ms" if "(i, ItemMutation m) \<in> sysAcked (dsLog s)" for i m
  proof -
    have "i < length (take j (sysItems (dsLog s)))" "take j (sysItems (dsLog s)) ! i = ItemMutation m"
      using ack jl that by auto
    then have "ItemMutation m \<in> set (take j (sysItems (dsLog s)))" by (metis nth_mem)
    then show ?thesis by (force simp: itemMutations_def)
  qed
  have acked: "eng_map (rdHash D) e (mEntityID m) (mdot m) = Some (mFull m) \<and> mCounter m \<le> lamportCounter e"
    if "(i, ItemMutation m) \<in> sysAcked (dsLog s)" for i m
    using ei(3) mem [OF that] minted_below(1) [OF ei(1)] by (auto simp: minted_ok_def mdot_def)
  have "eng_map (rdHash D) (dsEngine s) x d = Some v"
    if xv: "eng_map (rdHash D) e x d = Some v" "NodeID d = nodeID" for x d v
  proof -
    have "\<exists>m\<in>?ms. x = mEntityID m \<and> d = mdot m \<and> v = mFull m" using own xv ei(2) by simp
    then obtain m where m: "m \<in> ?ms" "x = mEntityID m" "d = mdot m" "v = mFull m" by blast
    moreover have "m \<in> set (minted s)"
      using m(1) itemMutations_take [of "sysItems (dsLog s)" j] by (auto simp: minted_def)
    ultimately show ?thesis using dur_invD(5) [OF inv, of m] by (simp add: minted_ok_def)
  qed
  moreover have "eng_ok (rdHash D) e" "lamport_ok e" using ei(1) by (simp_all add: engine_inv_def)
  ultimately show ?thesis using b(1) acked by blast
qed

section \<open>The bridge operations are runs of the system\<close>

definition bridge_view :: "bool \<Rightarrow> Bridge \<Rightarrow> DurSys \<Rightarrow> bool" where
  "bridge_view snap b s \<longleftrightarrow>
     bEngine b = dsEngine s \<and> bWal b = sysWal (dsLog s) \<and> bSnapshotter b = (if snap then Some (dsLfs s) else None)"

lemma noteMutations_frame:
  "noteMutations n b = (b', spawn) \<Longrightarrow> bEngine b' = bEngine b \<and> bWal b' = bWal b \<and> bSnapshotter b' = bSnapshotter b"
  by (auto simp: noteMutations_def designateCheckpoint_def Let_def split: if_splits designation.splits)

lemma PutLocal_parts:
  assumes "PutLocal mh sha256 wr ok ns k payload entry b = Some ((dot, err), b', spawn)"
  obtains e w where "InsertLocal mh k (entry\<lparr>PayloadDigest := sha256 payload\<rparr>) (bEngine b) = Some (dot, e)"
    "AppendMutation wr ok (NewWALMutation k dot (entry\<lparr>PayloadDigest := sha256 payload\<rparr>)) (bWal b) = (err, w)"
    "bEngine b' = e" "bWal b' = w" "bSnapshotter b' = bSnapshotter b"
proof -
  let ?entry = "entry\<lparr>PayloadDigest := sha256 payload\<rparr>"
  obtain e where ins: "InsertLocal mh k ?entry (bEngine b) = Some (dot, e)"
    using assms by (auto simp: PutLocal_def Let_def split: option.splits prod.splits)
  obtain res w where app: "AppendMutation wr ok (NewWALMutation k dot ?entry) (bWal b) = (res, w)" by fastforce
  have "err = res \<and> bEngine b' = e \<and> bWal b' = w \<and> bSnapshotter b' = bSnapshotter b"
    using assms ins app
    by (cases res) (auto simp: PutLocal_def noteCommit_def Let_def split: prod.splits dest: noteMutations_frame)
  then show thesis using that ins app by blast
qed

text \<open>The outcomes of one append: a closed log, a failed write, a failed flush, or success.\<close>

lemma append_halves:
  assumes "(case writeRecord wr (encodeItem (nextSeq (sysWal l)) it) (sysWal l) of
      (Some err, w1) \<Rightarrow> (Some err, w1) | (None, w1) \<Rightarrow> syncFile ok w1) = (res, w)"
  obtains (closed) "walFile (sysWal l) = None" "w = sysWal l" "res \<noteq> None"
  | (torn) l' where "logWriteFails it l l'" "sysWal l' = w" "res \<noteq> None"
  | (unflushed) l1 l2 where "logWrite it l l1" "logFlushFails l1 l2" "sysWal l2 = w" "res \<noteq> None"
  | (appended) l1 l2 where "logWrite it l l1" "logFlush l1 l2" "sysWal l2 = w" "res = None"
      "(length (sysItems l), it) \<in> sysAcked l2" "sysClean l2 \<longleftrightarrow> sysClean l \<and> \<not> sysTorn l \<and> item_ok it"
proof (cases "walFile (sysWal l)")
  case None
  show ?thesis by (rule closed) (use None assms in \<open>auto simp: writeRecord_def\<close>)
next
  case (Some f)
  let ?rec = "encodeItem (nextSeq (sysWal l)) it" and ?n = "length (sysItems l)"
  show ?thesis
  proof (cases wr)
    case wr: (Some n)
    let ?w = "(sysWal l)\<lparr>walFile := Some (f\<lparr>fbytes := fbytes f @ take n ?rec\<rparr>)\<rparr>"
    have wrote: "writeRecord (Some n) ?rec (sysWal l) = (Some ErrWrite, ?w)"
      using Some by (simp add: writeRecord_def fileWrite_def)
    have "w = ?w" "res \<noteq> None" using assms unfolding wr wrote by auto
    show ?thesis
    proof (rule torn)
      show "logWriteFails it l (l\<lparr>sysWal := ?w, sysTorn := sysTorn l \<or> 0 < n, sysClean := sysClean l \<and>
          (n = 0 \<or> \<not> sysTorn l \<and> item_ok it \<and> n < length ?rec)\<rparr>)"
        unfolding logWriteFails_def using wrote by blast
    qed (simp add: \<open>w = ?w\<close>, fact)
  next
    case None
    let ?w = "(sysWal l)\<lparr>walFile := Some (f\<lparr>fbytes := fbytes f @ ?rec\<rparr>), nextSeq := nextSeq (sysWal l) + 1\<rparr>"
    let ?l1 = "l\<lparr>sysWal := ?w, sysItems := sysItems l @ [it], sysFlight := insert ?n (sysFlight l),
      sysClean := sysClean l \<and> \<not> sysTorn l \<and> item_ok it\<rparr>"
    have wrote: "writeRecord None ?rec (sysWal l) = (None, ?w)" using Some by (simp add: writeRecord_def fileWrite_def)
    have lw: "logWrite it l ?l1" unfolding logWrite_def using wrote by blast
    have sync: "syncFile ok ?w = (res, w)" using assms unfolding None wrote by simp
    show ?thesis
    proof (cases ok)
      case True
      let ?l2 = "?l1\<lparr>sysWal := w, sysFlight := sysFlight ?l1 - {?n}, sysAcked := insert (?n, sysItems ?l1 ! ?n) (sysAcked ?l1)\<rparr>"
      have n: "res = None" using sync True by (auto simp: syncFile_def fileSync_def)
      have "logFlush ?l1 ?l2"
        unfolding logFlush_def by (intro exI [of _ ?n] exI [of _ w]) (use sync True n in simp)
      then show ?thesis by (rule appended [OF lw]) (simp_all add: n)
    next
      case False
      let ?l2 = "?l1\<lparr>sysWal := w, sysFlight := sysFlight ?l1 - {?n}\<rparr>"
      obtain e where e: "res = Some e" using sync False by (auto simp: syncFile_def fileSync_def)
      have "logFlushFails ?l1 ?l2"
        unfolding logFlushFails_def by (intro exI [of _ ?n] exI [of _ e] exI [of _ w]) (use sync False e in simp)
      then show ?thesis by (rule unflushed [OF lw]) (simp_all add: e)
    qed
  qed
qed

lemma item_ok_put:
  assumes "InsertLocal mh k entry e = Some (dot, e')" "m = NewWALMutation k dot entry" "validateV2 m = None"
    and "sized_entry entry" "153 + length k \<le> 4194304" "length (localNodeID e) = 16"
  shows "item_ok (ItemMutation m)"
proof -
  have "NodeID dot = localNodeID e"
    using assms(1) NextDot_spec [of e "fst (NextDot e)" "snd (NextDot e)"]
    by (auto simp: InsertLocal_def Let_def split: if_splits prod.splits)
  then show ?thesis using assms(2-6) by (simp add: NewWALMutation_def sized_entry_def Let_def)
qed

lemma PutLocal_run:
  assumes "bridge_view snap b s"
    and "PutLocal (rdHash D) (rdSha D) wr ok ns k payload entry b = Some ((dot, err), b', spawn)"
    and "m = NewWALMutation k dot (entry\<lparr>PayloadDigest := rdSha D payload\<rparr>)"
  shows "\<exists>s'. (dur_step D snap)\<^sup>*\<^sup>* s s' \<and> bridge_view snap b' s' \<and> mdot m = dot \<and>
    (err = None \<longrightarrow> (length (sysItems (dsLog s)), ItemMutation m) \<in> sysAcked (dsLog s')) \<and>
    (err = None \<and> undisturbed s \<and> \<not> sysTorn (dsLog s) \<and> log_room (dsLog s) \<and> length (localNodeID (dsEngine s)) = 16 \<and>
       put_ok k (entry\<lparr>PayloadDigest := rdSha D payload\<rparr>) (dsEngine s) \<longrightarrow> undisturbed s')"
proof -
  let ?entry = "entry\<lparr>PayloadDigest := rdSha D payload\<rparr>" and ?c = "dsClean s \<and> put_ok k (entry\<lparr>PayloadDigest := rdSha D payload\<rparr>) (dsEngine s)"
  have b: "bEngine b = dsEngine s" "bWal b = sysWal (dsLog s)" using assms(1) by (simp_all add: bridge_view_def)
  obtain e w where ins: "InsertLocal (rdHash D) k ?entry (dsEngine s) = Some (dot, e)"
    and app: "AppendMutation wr ok m (sysWal (dsLog s)) = (err, w)"
    and v: "bEngine b' = e" "bWal b' = w" "bSnapshotter b' = bSnapshotter b"
    by (rule PutLocal_parts [OF assms(2), unfolded b, folded assms(3)])
  have dot: "mdot m = dot" by (simp add: assms(3) NewWALMutation_def mdot_def Let_def)
  let ?s0 = "s\<lparr>dsEngine := e, dsClean := ?c\<rparr>" and ?s1 = "s\<lparr>dsEngine := e, dsPending := dsPending s @ [m], dsClean := ?c\<rparr>"
  have refused: ?thesis if "validateV2 m \<noteq> None \<or> walFile (sysWal (dsLog s)) = None" "w = sysWal (dsLog s)" "err \<noteq> None"
  proof -
    have "dur_step D snap s ?s0" by (rule put_refused [OF ins]) (use that(1) assms(3) in simp)
    moreover have "bridge_view snap b' ?s0" using v assms(1) that(2) by (simp add: bridge_view_def)
    ultimately show ?thesis using dot that(3) by blast
  qed
  show ?thesis
  proof (cases "validateV2 m")
    case (Some x)
    then have "err = Some x" "w = sysWal (dsLog s)" using app by (simp_all add: AppendMutation_def)
    then show ?thesis using Some by (intro refused) simp_all
  next
    case None
    have st1: "dur_step D snap s ?s1" unfolding assms(3) by (rule put_insert [OF ins]) (use None assms(3) in simp)
    have halves: "(case writeRecord wr (encodeItem (nextSeq (sysWal (dsLog s))) (ItemMutation m)) (sysWal (dsLog s)) of
        (Some err, w1) \<Rightarrow> (Some err, w1) | (None, w1) \<Rightarrow> syncFile ok w1) = (err, w)"
      using app None by (auto simp: AppendMutation_def split: option.splits prod.splits)
    from halves show ?thesis
    proof (cases rule: append_halves)
      case closed
      show ?thesis by (rule refused) (use closed in simp_all)
    next
      case (torn l')
      let ?s2 = "?s1\<lparr>dsLog := l', dsPending := remove1 m (dsPending ?s1)\<rparr>"
      have "dur_step D snap ?s1 ?s2" by (rule put_write_fails) (use torn(1) in simp_all)
      with st1 have "(dur_step D snap)\<^sup>*\<^sup>* s ?s2" by (meson converse_rtranclp_into_rtranclp rtranclp.rtrancl_refl)
      moreover have "bridge_view snap b' ?s2" using v assms(1) torn(2) by (simp add: bridge_view_def)
      ultimately show ?thesis using dot torn(3) by blast
    next
      case (unflushed l1 l2)
      let ?s2 = "?s1\<lparr>dsLog := l1, dsPending := remove1 m (dsPending ?s1), dsClean := dsClean ?s1 \<and> log_room (dsLog ?s1)\<rparr>"
      have "dur_step D snap ?s1 ?s2" by (rule put_write) (use unflushed(1) in simp_all)
      moreover have "dur_step D snap ?s2 (?s2\<lparr>dsLog := l2\<rparr>)" by (rule flush_fails) (use unflushed(2) in simp)
      ultimately have "(dur_step D snap)\<^sup>*\<^sup>* s (?s2\<lparr>dsLog := l2\<rparr>)"
        using st1 by (meson converse_rtranclp_into_rtranclp rtranclp.rtrancl_refl)
      moreover have "bridge_view snap b' (?s2\<lparr>dsLog := l2\<rparr>)"
        using v assms(1) unflushed(3) by (simp add: bridge_view_def)
      ultimately show ?thesis using dot unflushed(4) by blast
    next
      case (appended l1 l2)
      let ?s2 = "?s1\<lparr>dsLog := l1, dsPending := remove1 m (dsPending ?s1), dsClean := dsClean ?s1 \<and> log_room (dsLog ?s1)\<rparr>"
      have "dur_step D snap ?s1 ?s2" by (rule put_write) (use appended(1) in simp_all)
      moreover have "dur_step D snap ?s2 (?s2\<lparr>dsLog := l2\<rparr>)" by (rule flush) (use appended(2) in simp)
      ultimately have "(dur_step D snap)\<^sup>*\<^sup>* s (?s2\<lparr>dsLog := l2\<rparr>)"
        using st1 by (meson converse_rtranclp_into_rtranclp rtranclp.rtrancl_refl)
      moreover have "bridge_view snap b' (?s2\<lparr>dsLog := l2\<rparr>)"
        using v assms(1) appended(3) by (simp add: bridge_view_def)
      moreover have "item_ok (ItemMutation m)" if "put_ok k ?entry (dsEngine s)" "length (localNodeID (dsEngine s)) = 16"
        using item_ok_put [OF ins assms(3) None] that by (simp add: put_ok_def)
      then have "undisturbed s \<and> \<not> sysTorn (dsLog s) \<and> log_room (dsLog s) \<and> length (localNodeID (dsEngine s)) = 16 \<and>
          put_ok k ?entry (dsEngine s) \<longrightarrow> undisturbed (?s2\<lparr>dsLog := l2\<rparr>)"
        using appended(6) by (simp add: undisturbed_def)
      ultimately show ?thesis using dot appended(5)
        by (intro exI [of _ "?s2\<lparr>dsLog := l2\<rparr>"] conjI impI) (assumption | simp)+
    qed
  qed
qed

text \<open>
  C13. The bridge implements the durable node. Every call of \<^verbatim>\<open>PutLocal\<close>, in any state and whatever its write and its
  flush do, is a run of the node that ends in the state of the bridge after the call. When the call returns no error, the logged
  write carries the returned dot and is acknowledged there. When moreover the run up to the call was undisturbed, the log
  does not end in a torn record and the write is within the limits, the run is undisturbed after the call as well; so, by
  crash consistency, the write then survives every crash.
\<close>

theorem PutLocal_refines:
  assumes "bridge_view snap b s"
    and "PutLocal (rdHash D) (rdSha D) wr ok ns k payload entry b = Some ((dot, err), b', spawn)"
    and "m = NewWALMutation k dot (entry\<lparr>PayloadDigest := rdSha D payload\<rparr>)"
  shows "\<exists>s'. (dur_step D snap)\<^sup>*\<^sup>* s s' \<and> bridge_view snap b' s' \<and> mdot m = dot \<and>
    (err = None \<longrightarrow> (length (sysItems (dsLog s)), ItemMutation m) \<in> sysAcked (dsLog s')) \<and>
    (err = None \<and> undisturbed s \<and> \<not> sysTorn (dsLog s) \<and> log_room (dsLog s) \<and> length (localNodeID (dsEngine s)) = 16 \<and>
       put_ok k (entry\<lparr>PayloadDigest := rdSha D payload\<rparr>) (dsEngine s) \<longrightarrow> undisturbed s')"
  by (rule PutLocal_run [OF assms])

lemma PutLocal_example:
  "\<exists>dot b' spawn. PutLocal (rdHash ex_recover) (rdSha ex_recover) None True 0 [65] [] Wal_Damage.ex_entry
     ((NewBridge (newEngineAt ex_recover (replicate 16 1) 1) (sysWal log_start) 0)\<lparr>bSnapshotter := Some []\<rparr>) =
     Some ((dot, None), b', spawn)"
proof -
  let ?e = "newEngineAt ex_recover (replicate 16 1) 1" and ?x = "Wal_Damage.ex_entry\<lparr>PayloadDigest := rdSha ex_recover []\<rparr>"
  have i0: "dur_inv ex_recover True (dur_start ex_recover (replicate 16 1))"
    by (rule dur_start_inv) (simp_all add: numeral_eq_Suc)
  have ei: "engine_inv (rdHash ex_recover) ?e" using dur_invD(4) [OF i0] by (simp add: dur_start_def)
  have one: "(1 :: u64) \<noteq> MaxUint64" by code_simp
  obtain e1 where ins: "InsertLocal (rdHash ex_recover) [65] ?x ?e = Some (CausalDot (replicate 16 1) 2, e1)"
    using InsertLocal_spec [of "rdHash ex_recover" ?e "[65]" ?x] ei one newEngineAt_facts(4,5) by (metis engine_inv_def one_add_one)
  have "validateV2 (NewWALMutation [65] (CausalDot (replicate 16 1) 2) ?x) = None"
    by (simp add: validateV2_def NewWALMutation_def Let_def numeral_eq_Suc)
  then show ?thesis
    using ins
    by (auto simp: PutLocal_def NewBridge_def AppendMutation_def writeRecord_def fileWrite_def syncFile_def
        fileSync_def log_start_def noteMutations_def noteCommit_def Let_def)
qed

lemma ex_dur_limits:
  "bridge_view True ((NewBridge (newEngineAt ex_recover (replicate 16 1) 1) (sysWal log_start) 0)\<lparr>bSnapshotter := Some []\<rparr>)
     (dur_start ex_recover (replicate 16 1))"
  "undisturbed (dur_start ex_recover (replicate 16 1))" "\<not> sysTorn (dsLog (dur_start ex_recover (replicate 16 1)))"
  "log_room (dsLog (dur_start ex_recover (replicate 16 1)))" "length (sysItems (dsLog (dur_start ex_recover (replicate 16 1)))) = 0"
  "length (localNodeID (dsEngine (dur_start ex_recover (replicate 16 1)))) = 16"
  "put_ok [65] (Wal_Damage.ex_entry\<lparr>PayloadDigest := rdSha ex_recover []\<rparr>) (dsEngine (dur_start ex_recover (replicate 16 1)))"
proof -
  have "(1 :: u64) < maxPlausibleCounter" by code_simp
  then show "put_ok [65] (Wal_Damage.ex_entry\<lparr>PayloadDigest := rdSha ex_recover []\<rparr>) (dsEngine (dur_start ex_recover (replicate 16 1)))"
    by (simp add: put_ok_def dur_start_def newEngineAt_facts(5) sized_entry_def Wal_Damage.ex_entry_def zeroEntry_def ex_recover_def)
qed (simp_all add: bridge_view_def NewBridge_def dur_start_def undisturbed_def log_start_def log_room_def newEngineAt_facts(4))

theorem PutLocal_refines_witness:
  "\<exists>s' m. (dur_step ex_recover True)\<^sup>*\<^sup>* (dur_start ex_recover (replicate 16 1)) s' \<and>
     (0, ItemMutation m) \<in> sysAcked (dsLog s') \<and> undisturbed s'"
proof -
  obtain dot b' spawn where "PutLocal (rdHash ex_recover) (rdSha ex_recover) None True 0 [65] [] Wal_Damage.ex_entry
      ((NewBridge (newEngineAt ex_recover (replicate 16 1) 1) (sysWal log_start) 0)\<lparr>bSnapshotter := Some []\<rparr>) =
      Some ((dot, None), b', spawn)" using PutLocal_example by blast
  from PutLocal_refines [OF ex_dur_limits(1) this refl] show ?thesis using ex_dur_limits by auto
qed

lemma ex_durable_run:
  "\<exists>s m. (dur_step ex_recover True)\<^sup>*\<^sup>* (dur_start ex_recover (replicate 16 1)) s \<and> undisturbed s \<and>
     (0, ItemMutation m) \<in> sysAcked (dsLog s) \<and> mEntityID m = [65]"
proof -
  obtain dot b' spawn where p: "PutLocal (rdHash ex_recover) (rdSha ex_recover) None True 0 [65] [] Wal_Damage.ex_entry
      ((NewBridge (newEngineAt ex_recover (replicate 16 1) 1) (sysWal log_start) 0)\<lparr>bSnapshotter := Some []\<rparr>) =
      Some ((dot, None), b', spawn)" using PutLocal_example by blast
  have "mEntityID (NewWALMutation [65] dot (Wal_Damage.ex_entry\<lparr>PayloadDigest := rdSha ex_recover []\<rparr>)) = [65]"
    by (simp add: NewWALMutation_def Let_def)
  then show ?thesis using PutLocal_run [OF ex_dur_limits(1) p refl] ex_dur_limits by metis
qed

theorem durable_writes_survive_witness:
  "\<exists>s f m e w rep wit. (dur_step ex_recover True)\<^sup>*\<^sup>* (dur_start ex_recover (replicate 16 1)) s \<and>
     (0, ItemMutation m) \<in> sysAcked (dsLog s) \<and> walFile (sysWal (dsLog s)) = Some f \<and>
     RecoverEngineWithSnapshot ex_recover (replicate 16 1) (Some (crashImage (fsynced f) f))
       (Some (localStore (dsLfs s))) = Inr (e, w, rep, wit) \<and>
     eng_map (rdHash ex_recover) e [65] (mdot m) = Some (mFull m)"
proof -
  obtain s m where s: "(dur_step ex_recover True)\<^sup>*\<^sup>* (dur_start ex_recover (replicate 16 1)) s" "undisturbed s"
    "(0, ItemMutation m) \<in> sysAcked (dsLog s)" "mEntityID m = [65]" using ex_durable_run by blast
  have so: "sort_ok (rdSort ex_recover)" by (simp add: ex_recover_def isortCmp_sort_ok)
  have id: "length (replicate 16 (1 :: 8 word)) = 16" "replicate 16 (1 :: 8 word) \<noteq> replicate 16 0"
    by (simp_all add: numeral_eq_Suc)
  have "dur_inv ex_recover True s" using dur_run_inv [OF s(1,2) so dur_start_inv [OF id]] by simp
  then obtain f where f: "walFile (sysWal (dsLog s)) = Some f" by (auto simp: dur_inv_def log_inv_def)
  from durable_writes_survive [OF so id s(1,2) f order_refl] s f show ?thesis by metis
qed

section \<open>The checkpoint as a run\<close>

lemma walk_all:
  assumes "dsCkpt s = CkWalk c (take n (shards (dsEngine s)))" "n \<le> length (shards (dsEngine s))"
  shows "(dur_step D snap)\<^sup>*\<^sup>* s (s\<lparr>dsCkpt := CkWalk c (shards (dsEngine s))\<rparr>)"
  using assms
proof (induction "length (shards (dsEngine s)) - n" arbitrary: s n)
  case 0
  then have "s\<lparr>dsCkpt := CkWalk c (shards (dsEngine s))\<rparr> = s" by (cases s) simp
  then show ?case by simp
next
  case (Suc x)
  let ?sh = "shards (dsEngine s)"
  let ?s = "s\<lparr>dsCkpt := CkWalk c (take n ?sh @ [?sh ! length (take n ?sh)])\<rparr>"
  have lt: "n < length ?sh" using Suc(2) by simp
  have "dur_step D snap s ?s" by (rule ckpt_shard [OF Suc(3)]) (use lt in simp)
  moreover have "(dur_step D snap)\<^sup>*\<^sup>* ?s (?s\<lparr>dsCkpt := CkWalk c (shards (dsEngine ?s))\<rparr>)"
    by (rule Suc(1) [of ?s "Suc n"]) (use Suc(2) lt in \<open>simp_all add: take_Suc_conv_app_nth min_def\<close>)
  ultimately show ?case by (simp add: converse_rtranclp_into_rtranclp)
qed

lemma checkpointOf_ok:
  assumes "\<And>x. length (sha256 x) = 32" "length merkle = 32"
  shows "item_ok (ItemCheckpoint (checkpointOf sha256 snap merkle mx recs c ch))"
  using assms by (simp add: checkpointOf_def fingerprintRecords_def foldEntryDigests_def Let_def)

lemma length_capture_root:
  assumes "\<And>x. length (sha256 x) = 32" "CaptureShardsPinned sha256 fn e s = (merkle, mx, r)"
  shows "length merkle = 32"
  using assms by (auto simp: CaptureShardsPinned_def hashShardDotPairs_def Let_def split: prod.splits)

text \<open>The walk up to the record that is about to be logged.\<close>

lemma checkpoint_walk:
  assumes "dsCkpt s = CkIdle"
    and "CaptureShardsPinned (rdSha D) (captureFn snap) (dsEngine s) ([], []) = (merkle, mx, recs, latest)"
    and "c = checkpointOf (rdSha D) snap merkle mx recs (NextSeq (sysWal (dsLog s))) (LamportCounter (dsEngine s))"
    and "im = imageOf merkle mx recs (NextSeq (sysWal (dsLog s)))"
  shows "(dur_step D snap)\<^sup>*\<^sup>* s (s\<lparr>dsCkpt := CkReady c im\<rparr>)"
proof -
  let ?cut = "NextSeq (sysWal (dsLog s))" and ?sh = "shards (dsEngine s)"
  let ?s1 = "s\<lparr>dsCkpt := CkWalk ?cut []\<rparr>" and ?s2 = "s\<lparr>dsCkpt := CkWalk ?cut ?sh\<rparr>"
  have eq: "(dsEngine s)\<lparr>shards := ?sh\<rparr> = dsEngine s" by simp
  have "dur_step D snap s ?s1" by (rule ckpt_begin [OF assms(1)])
  moreover have "(dur_step D snap)\<^sup>*\<^sup>* ?s1 ?s2" using walk_all [of ?s1 ?cut 0 D snap] by simp
  moreover have "dur_step D snap ?s2 (s\<lparr>dsCkpt := CkReady c im\<rparr>)"
    using ckpt_capture [of ?s2 ?cut ?sh D snap merkle mx recs latest] assms(2) unfolding assms(3,4) by (simp add: eq)
  ultimately show ?thesis by (meson converse_rtranclp_into_rtranclp rtranclp.rtrancl_into_rtrancl)
qed

lemma AppendCheckpoint_parts:
  assumes "AppendCheckpoint sha256 io b = (err, b')" "snap \<longleftrightarrow> bSnapshotter b \<noteq> None"
    and "CaptureShardsPinned sha256 (captureFn snap) (bEngine b) ([], []) = (merkle, mx, recs, latest)"
  obtains res w where "AppendCheckpoint_wal (ioWrite io) (ioSync io)
        (checkpointOf sha256 snap merkle mx recs (NextSeq (bWal b)) (LamportCounter (bEngine b))) (bWal b) = (res, w)"
    "bEngine b' = bEngine b" "bWal b' = w" "res \<noteq> None \<longleftrightarrow> (\<exists>e. err = Some (CkptWAL e))"
    "bSnapshotter b' = bSnapshotter b \<and> (snap \<longrightarrow> err \<noteq> None) \<or>
     res = None \<and> (\<exists>lfs ok lfs'. bSnapshotter b = Some lfs \<and> bSnapshotter b' = Some lfs' \<and> (err = None \<longrightarrow> ok) \<and>
       WriteSnapshotImage (ioUpload io) (imageOf merkle mx recs (NextSeq (bWal b))) lfs = (ok, lfs'))"
proof -
  obtain res w where r: "AppendCheckpoint_wal (ioWrite io) (ioSync io)
      (checkpointOf sha256 snap merkle mx recs (NextSeq (bWal b)) (LamportCounter (bEngine b))) (bWal b) = (res, w)" by fastforce
  show thesis
  proof (rule that [OF r])
    show "bEngine b' = bEngine b" "bWal b' = w" "res \<noteq> None \<longleftrightarrow> (\<exists>e. err = Some (CkptWAL e))"
      "bSnapshotter b' = bSnapshotter b \<and> (snap \<longrightarrow> err \<noteq> None) \<or>
       res = None \<and> (\<exists>lfs ok lfs'. bSnapshotter b = Some lfs \<and> bSnapshotter b' = Some lfs' \<and> (err = None \<longrightarrow> ok) \<and>
         WriteSnapshotImage (ioUpload io) (imageOf merkle mx recs (NextSeq (bWal b))) lfs = (ok, lfs'))"
      using assms(1,3) r unfolding AppendCheckpoint_def Let_def assms(2)
      by (auto simp: commitQueryTierDelta_def split: prod.splits option.splits if_splits)
  qed
qed

text \<open>
  C14. A checkpoint is a run of the durable node. Every call of \<^verbatim>\<open>AppendCheckpoint\<close> while no other checkpoint is in progress,
  with or without an image store and whatever its file operations do, corresponds to the steps begin, one capture per
  shard, anchor, flush and then image write or abandonment: the bridge after it views a state that the node can
  reach. When the log accepted the anchor, it is acknowledged there with the root of the captured state, and the run is
  undisturbed if it was so before, the log does not end in a torn record and the limits hold; when the call returns no
  error, the image of the captured records has been written to the store of the state reached.
\<close>

theorem AppendCheckpoint_refines:
  assumes "bridge_view snap b s" "dsCkpt s = CkIdle" "AppendCheckpoint (rdSha D) io b = (err, b')"
    and "CaptureShardsPinned (rdSha D) (captureFn snap) (dsEngine s) ([], []) = (merkle, mx, recs, latest)"
  shows "\<exists>s'. (dur_step D snap)\<^sup>*\<^sup>* s s' \<and> bridge_view snap b' s' \<and> dsCkpt s' = CkIdle \<and>
    ((\<nexists>e. err = Some (CkptWAL e)) \<longrightarrow>
       (\<exists>c. (length (sysItems (dsLog s)), ItemCheckpoint c) \<in> sysAcked (dsLog s') \<and> cMerkleRoot c = merkle) \<and>
       (undisturbed s \<and> \<not> sysTorn (dsLog s) \<and> log_room (dsLog s) \<and> (\<forall>x. length (rdSha D x) = 32) \<and>
          136 * length recs \<le> 2 ^ 48 \<longrightarrow> undisturbed s')) \<and>
    (err = None \<and> snap \<longrightarrow> WriteSnapshotImage (ioUpload io)
        (imageOf merkle mx recs (NextSeq (sysWal (dsLog s)))) (dsLfs s) = (True, dsLfs s'))"
proof -
  let ?c = "checkpointOf (rdSha D) snap merkle mx recs (NextSeq (sysWal (dsLog s))) (LamportCounter (dsEngine s))"
  let ?im = "imageOf merkle mx recs (NextSeq (sysWal (dsLog s)))" and ?n = "length (sysItems (dsLog s))"
  let ?cl = "dsClean s \<and> log_room (dsLog s)"
  have b: "bEngine b = dsEngine s" "bWal b = sysWal (dsLog s)" "bSnapshotter b = (if snap then Some (dsLfs s) else None)"
    using assms(1) by (simp_all add: bridge_view_def)
  have sn: "snap \<longleftrightarrow> bSnapshotter b \<noteq> None" by (simp add: b(3))
  obtain res w where w: "AppendCheckpoint_wal (ioWrite io) (ioSync io) ?c (sysWal (dsLog s)) = (res, w)"
    "bEngine b' = dsEngine s" "bWal b' = w" "res \<noteq> None \<longleftrightarrow> (\<exists>e. err = Some (CkptWAL e))"
    "bSnapshotter b' = bSnapshotter b \<and> (snap \<longrightarrow> err \<noteq> None) \<or>
     res = None \<and> (\<exists>lfs ok lfs'. bSnapshotter b = Some lfs \<and> bSnapshotter b' = Some lfs' \<and> (err = None \<longrightarrow> ok) \<and>
       WriteSnapshotImage (ioUpload io) ?im lfs = (ok, lfs'))"
    using AppendCheckpoint_parts [OF assms(3) sn] assms(4) unfolding b(1,2) by metis
  note walk = checkpoint_walk [OF assms(2,4) refl refl]
  let ?r = "s\<lparr>dsCkpt := CkReady ?c ?im\<rparr>"
  have kept: "bSnapshotter b' = bSnapshotter b \<and> (snap \<longrightarrow> err \<noteq> None)" "\<exists>e. err = Some (CkptWAL e)" if "res \<noteq> None"
    using that w(4,5) by auto
  have halves: "(case writeRecord (ioWrite io) (encodeItem (nextSeq (sysWal (dsLog s))) (ItemCheckpoint ?c)) (sysWal (dsLog s)) of
      (Some err, w1) \<Rightarrow> (Some err, w1) | (None, w1) \<Rightarrow> syncFile (ioSync io) w1) = (res, w)"
    using w(1) by (auto simp: AppendCheckpoint_wal_def split: option.splits prod.splits)
  from halves show ?thesis
  proof (cases rule: append_halves)
    case closed
    then have "bridge_view snap b' s" using w(2,3) kept b(3) by (simp add: bridge_view_def)
    then show ?thesis using kept [OF closed(3)] assms(2) by (intro exI [of _ s]) auto
  next
    case (torn l')
    have "dur_step D snap ?r (?r\<lparr>dsLog := l', dsCkpt := CkIdle\<rparr>)" by (rule ckpt_anchor_fails) (use torn(1) in simp_all)
    with walk have "(dur_step D snap)\<^sup>*\<^sup>* s (s\<lparr>dsLog := l', dsCkpt := CkIdle\<rparr>)" by (simp add: rtranclp.rtrancl_into_rtrancl)
    moreover have "bridge_view snap b' (s\<lparr>dsLog := l', dsCkpt := CkIdle\<rparr>)"
      using w(2,3) torn(2) kept [OF torn(3)] b(3) by (simp add: bridge_view_def)
    ultimately show ?thesis using kept [OF torn(3)] by (intro exI [of _ "s\<lparr>dsLog := l', dsCkpt := CkIdle\<rparr>"]) auto
  next
    case (unflushed l1 l2)
    let ?a = "s\<lparr>dsLog := l1, dsCkpt := CkAnchored ?n ?im, dsClean := ?cl\<rparr>"
    let ?a2 = "s\<lparr>dsLog := l2, dsCkpt := CkAnchored ?n ?im, dsClean := ?cl\<rparr>" and ?z = "s\<lparr>dsLog := l2, dsCkpt := CkIdle, dsClean := ?cl\<rparr>"
    have "dur_step D snap ?r ?a" using ckpt_anchor [of ?r ?c ?im l1 D snap] unflushed(1) by simp
    moreover have "dur_step D snap ?a ?a2" using flush_fails [of ?a l2 D snap] unflushed(2) by (cases s) simp
    moreover have "dur_step D snap ?a2 ?z" using ckpt_done [of D snap ?a2] by (cases s) simp
    ultimately have "(dur_step D snap)\<^sup>*\<^sup>* s ?z" using walk by (meson rtranclp.rtrancl_into_rtrancl)
    moreover have "bridge_view snap b' ?z" using w(2,3) unflushed(3) kept [OF unflushed(4)] b(3) by (simp add: bridge_view_def)
    ultimately show ?thesis using kept [OF unflushed(4)] by (intro exI [of _ ?z]) auto
  next
    case (appended l1 l2)
    let ?a = "s\<lparr>dsLog := l1, dsCkpt := CkAnchored ?n ?im, dsClean := ?cl\<rparr>"
    let ?a2 = "s\<lparr>dsLog := l2, dsCkpt := CkAnchored ?n ?im, dsClean := ?cl\<rparr>"
    have "dur_step D snap ?r ?a" using ckpt_anchor [of ?r ?c ?im l1 D snap] appended(1) by simp
    moreover have "dur_step D snap ?a ?a2" using flush [of ?a l2 D snap] appended(2) by (cases s) simp
    ultimately have run: "(dur_step D snap)\<^sup>*\<^sup>* s ?a2" using walk by (meson rtranclp.rtrancl_into_rtrancl)
    have ack: "\<exists>c. (?n, ItemCheckpoint c) \<in> sysAcked l2 \<and> cMerkleRoot c = merkle"
      using appended(5) by (intro exI [of _ ?c]) (simp add: checkpointOf_def)
    have ok: "item_ok (ItemCheckpoint ?c)" if "\<forall>x. length (rdSha D x) = 32"
      using checkpointOf_ok length_capture_root [OF _ assms(4)] that by blast
    from w(5) show ?thesis
    proof (elim disjE exE conjE)
      assume k: "bSnapshotter b' = bSnapshotter b" "snap \<longrightarrow> err \<noteq> None"
      let ?z = "s\<lparr>dsLog := l2, dsCkpt := CkIdle, dsClean := ?cl\<rparr>"
      have "dur_step D snap ?a2 ?z" using ckpt_done [of D snap ?a2] by (cases s) simp
      with run have "(dur_step D snap)\<^sup>*\<^sup>* s ?z" by (rule rtranclp.rtrancl_into_rtrancl)
      moreover have "bridge_view snap b' ?z" using w(2,3) appended(3) k(1) b(3) by (simp add: bridge_view_def)
      ultimately show ?thesis using ack k(2) ok appended(6) by (intro exI [of _ ?z]) (auto simp: undisturbed_def)
    next
      fix lfs good lfs'
      assume im: "bSnapshotter b = Some lfs" "bSnapshotter b' = Some lfs'" "err = None \<longrightarrow> good"
        "WriteSnapshotImage (ioUpload io) ?im lfs = (good, lfs')"
      then have snap: "snap" "lfs = dsLfs s" using b(3) by (auto split: if_splits)
      let ?z = "s\<lparr>dsLog := l2, dsLfs := lfs', dsCkpt := CkIdle, dsClean := ?cl \<and> 136 * length recs \<le> 2 ^ 48\<rparr>"
      have "dur_step D snap ?a2 ?z"
        using ckpt_image [of ?a2 ?n ?im snap "ItemCheckpoint ?c" "ioUpload io" good lfs' D] appended(5) im(4) snap
        by (simp add: imageOf_def)
      with run have "(dur_step D snap)\<^sup>*\<^sup>* s ?z" by (rule rtranclp.rtrancl_into_rtrancl)
      moreover have "bridge_view snap b' ?z" using w(2,3) appended(3) im(2) snap by (simp add: bridge_view_def)
      ultimately show ?thesis using ack im(3,4) snap ok appended(6) by (intro exI [of _ ?z]) (auto simp: undisturbed_def)
    qed
  qed
qed

lemma AppendCheckpoint_appends:
  assumes "walFile (bWal b) = Some f" "ioWrite io = None" "ioSync io" "AppendCheckpoint sha256 io b = (err, b')"
  shows "\<nexists>e. err = Some (CkptWAL e)"
  using assms unfolding AppendCheckpoint_def Let_def
  by (auto simp: AppendCheckpoint_wal_def writeRecord_def fileWrite_def syncFile_def fileSync_def
      split: prod.splits option.splits if_splits)

theorem AppendCheckpoint_refines_witness:
  "\<exists>s' c. (dur_step ex_recover True)\<^sup>*\<^sup>* (dur_start ex_recover (replicate 16 1)) s' \<and>
     (0, ItemCheckpoint c) \<in> sysAcked (dsLog s')"
proof -
  let ?D = ex_recover and ?s = "dur_start ex_recover (replicate 16 1)"
  let ?b = "(NewBridge (newEngineAt ?D (replicate 16 1) 1) (sysWal log_start) 0)\<lparr>bSnapshotter := Some []\<rparr>"
  let ?io = "\<lparr>ioWrite = None, ioSync = True, ioUpload = UploadDone, ioMemTable = True, ioFlush = True, ioOrder = \<lambda>r. r\<rparr>"
  have idle: "dsCkpt ?s = CkIdle" by (simp add: dur_start_def)
  obtain err b' where r: "AppendCheckpoint (rdSha ?D) ?io ?b = (err, b')" by (metis surj_pair)
  obtain f where "walFile (bWal ?b) = Some f" by (simp add: NewBridge_def log_start_def)
  then have e: "\<nexists>e. err = Some (CkptWAL e)" by (rule AppendCheckpoint_appends [OF _ _ _ r]) simp_all
  obtain merkle mx recs latest where
    c: "CaptureShardsPinned (rdSha ?D) (captureFn True) (dsEngine ?s) ([], []) = (merkle, mx, recs, latest)"
    by (metis surj_pair)
  show ?thesis using AppendCheckpoint_refines [OF ex_dur_limits(1) idle r c] e ex_dur_limits(5) by auto
qed

end
