(* ===== verification/Lsm_Store.thy ===== *)
theory Lsm_Store
  imports Snapshot
begin

text \<open>
  The objects of the query tier in \<^verbatim>\<open>internal/database\<close>: rows, the names of files and manifests
  (\<^verbatim>\<open>l0_flusher.go\<close>, \<^verbatim>\<open>l1_compactor.go\<close>), the manifest format, and the parser of the first system time in a
  name (\<^verbatim>\<open>query.go\<close>). Shown: a name gives back its time, and a manifest its keys.

  An \<^verbatim>\<open>int64\<close> time is an integer; its range is stated where the code converts it. The Arrow library is a
  parameter: opening a file gives the record batches, \<^verbatim>\<open>None\<close> for a damaged batch, and writing gives the bytes.
\<close>

section \<open>Rows\<close>

record TriTemporalEvent =
  tEntityID :: gostring
  tSystemTime :: int
  tValidTimeStart :: int
  tValidTimeEnd :: int
  tAssertionTime :: int
  tH3Index :: u64
  tPayload :: bytes
  tPayloadDigest :: bytes

text \<open>One row of \<^verbatim>\<open>ArrowSchema\<close>, column by column.\<close>

record ArrowRow =
  rHash :: bytes
  rSys :: int
  rVs :: int
  rVe :: int
  rAst :: int
  rH3 :: u64
  rDigest :: bytes
  rEid :: gostring
  rPld :: bytes

record ArrowLib =
  arOpen :: "bytes \<Rightarrow> ArrowRow list option list option"
  arWrite :: "ArrowRow list \<Rightarrow> bytes"

definition i64_ok :: "int \<Rightarrow> bool" where
  "i64_ok n \<longleftrightarrow> - (2 ^ 63) \<le> n \<and> n < 2 ^ 63"

definition row_ok :: "ArrowRow \<Rightarrow> bool" where
  "row_ok r \<longleftrightarrow> length (rHash r) = 16 \<and> length (rDigest r) = 32 \<and>
     i64_ok (rSys r) \<and> i64_ok (rVs r) \<and> i64_ok (rVe r) \<and> i64_ok (rAst r)"

text \<open>What the code relies on: a file that was written opens, with one batch of the written rows.\<close>

definition arrow_ok :: "ArrowLib \<Rightarrow> bool" where
  "arrow_ok L \<longleftrightarrow>
     (\<forall>rows. (\<forall>r\<in>set rows. row_ok r) \<longrightarrow> arWrite L rows \<noteq> [] \<and> arOpen L (arWrite L rows) = Some [Some rows])"

definition rowEvent :: "ArrowRow \<Rightarrow> TriTemporalEvent" where
  "rowEvent r =
     \<lparr>tEntityID = rEid r, tSystemTime = rSys r, tValidTimeStart = rVs r, tValidTimeEnd = rVe r,
      tAssertionTime = rAst r, tH3Index = rH3 r, tPayload = rPld r, tPayloadDigest = copyArray 32 (rDigest r)\<rparr>"

section \<open>Names\<close>

definition str :: "string \<Rightarrow> bytes" where
  "str s = map of_char s"

text \<open>\<^verbatim>\<open>strconv.FormatInt(n, 10)\<close> and \<^verbatim>\<open>strconv.ParseInt(s, 10, 64)\<close>.\<close>

definition FormatInt :: "int \<Rightarrow> bytes" where
  "FormatInt n = (if n < 0 then 45 # decDigits (nat (- n)) else decDigits (nat n))"

definition isDigit :: "byte \<Rightarrow> bool" where
  "isDigit b \<longleftrightarrow> 48 \<le> b \<and> b \<le> 57"

definition digitsValue :: "bytes \<Rightarrow> nat" where
  "digitsValue ds = foldl (\<lambda>v b. 10 * v + (unat b - 48)) 0 ds"

definition ParseInt :: "bytes \<Rightarrow> int option" where
  "ParseInt s =
     (let neg = (s \<noteq> [] \<and> hd s = 45);
          ds = (if s \<noteq> [] \<and> (hd s = 45 \<or> hd s = 43) then tl s else s);
          v = digitsValue ds
      in if ds = [] \<or> \<not> list_all isDigit ds then None
         else if neg then (if v > 2 ^ 63 then None else Some (- int v))
         else if v \<ge> 2 ^ 63 then None else Some (int v))"

definition hexDigit :: "nat \<Rightarrow> byte" where
  "hexDigit n = (if n < 10 then of_nat (48 + n) else of_nat (87 + n))"

definition hexEncode :: "bytes \<Rightarrow> bytes" where
  "hexEncode bs = concat (map (\<lambda>b. [hexDigit (unat b div 16), hexDigit (unat b mod 16)]) bs)"

definition l0Prefix :: "bytes \<Rightarrow> gostring" where
  "l0Prefix hash8 = str ''l0/'' @ hexEncode hash8 @ str ''/''"

definition l1Prefix :: "bytes \<Rightarrow> gostring" where
  "l1Prefix hash8 = str ''l1/'' @ hexEncode hash8 @ str ''/''"

definition manifestsPrefix :: "bytes \<Rightarrow> gostring" where
  "manifestsPrefix hash8 = str ''compaction/'' @ hexEncode hash8 @ str ''/''"

definition l0KeyFor :: "bytes \<Rightarrow> int \<Rightarrow> gostring" where
  "l0KeyFor hash8 firstSys = l0Prefix hash8 @ FormatInt firstSys @ str ''.arrow''"

definition l1KeyFor :: "bytes \<Rightarrow> int \<Rightarrow> gostring" where
  "l1KeyFor hash8 firstSys = l1Prefix hash8 @ FormatInt firstSys @ str ''.arrow''"

definition manifestKeyFor :: "bytes \<Rightarrow> int \<Rightarrow> gostring" where
  "manifestKeyFor hash8 firstSys = manifestsPrefix hash8 @ FormatInt firstSys @ str ''.manifest''"

text \<open>\<^verbatim>\<open>strings.LastIndexByte\<close>; \<^verbatim>\<open>None\<close> is the result -1.\<close>

fun lastIndexByte :: "byte \<Rightarrow> bytes \<Rightarrow> nat option" where
  "lastIndexByte c [] = None"
| "lastIndexByte c (b # bs) =
     (case lastIndexByte c bs of
        Some i \<Rightarrow> Some (Suc i)
      | None \<Rightarrow> if b = c then Some 0 else None)"

definition parseFirstSysFromKey :: "gostring \<Rightarrow> int option" where
  "parseFirstSysFromKey key =
     (case lastIndexByte 47 key of
        None \<Rightarrow> None
      | Some slash \<Rightarrow>
          if slash = length key - 1 then None
          else
            let rest = drop (slash + 1) key in
            (case lastIndexByte 46 rest of
               None \<Rightarrow> None
             | Some dot \<Rightarrow>
                 if dot \<le> 0 then None
                 else
                   (case ParseInt (take dot rest) of
                      None \<Rightarrow> None
                    | Some n \<Rightarrow> if n < 0 then None else Some n)))"

section \<open>Manifests\<close>

definition buildManifest :: "gostring \<Rightarrow> gostring list \<Rightarrow> bytes" where
  "buildManifest l1Key l0Keys = l1Key @ [10] @ concat (map (\<lambda>k. k @ [10]) l0Keys)"

text \<open>\<^verbatim>\<open>strings.TrimSpace\<close>: the encodings of the white space characters of Unicode, at both ends.\<close>

definition spaceRunes :: "bytes list" where
  "spaceRunes =
     [[9], [10], [11], [12], [13], [32], [0xC2, 0x85], [0xC2, 0xA0], [0xE1, 0x9A, 0x80]] @
     map (\<lambda>i. [0xE2, 0x80, of_nat (128 + i)]) [0..<11] @
     [[0xE2, 0x80, 0xA8], [0xE2, 0x80, 0xA9], [0xE2, 0x80, 0xAF], [0xE2, 0x81, 0x9F], [0xE3, 0x80, 0x80]]"

lemma prefix_shrinks: "r \<noteq> [] \<Longrightarrow> take (length r) s = r \<Longrightarrow> length s - length r < length s"
  by (cases s) auto

function trimWith :: "bytes list \<Rightarrow> bytes \<Rightarrow> bytes" where
  "trimWith runes s =
     (case find (\<lambda>r. r \<noteq> [] \<and> take (length r) s = r) runes of
        None \<Rightarrow> s
      | Some r \<Rightarrow> trimWith runes (drop (length r) s))"
  by pat_completeness auto
termination
  by (relation "measure (\<lambda>(_, s). length s)") (auto dest!: find_Some_set intro: prefix_shrinks)

declare trimWith.simps [simp del]

definition TrimSpace :: "bytes \<Rightarrow> bytes" where
  "TrimSpace s = rev (trimWith (map rev spaceRunes) (rev (trimWith spaceRunes s)))"

definition hasPrefix :: "bytes \<Rightarrow> bytes \<Rightarrow> bool" where
  "hasPrefix s p \<longleftrightarrow> take (length p) s = p"

definition hasSuffix :: "bytes \<Rightarrow> bytes \<Rightarrow> bool" where
  "hasSuffix s p \<longleftrightarrow> length p \<le> length s \<and> drop (length s - length p) s = p"

function parseManifestFrom :: "bytes \<Rightarrow> bool \<Rightarrow> gostring \<Rightarrow> gostring list \<Rightarrow> gostring \<times> gostring list" where
  "parseManifestFrom s first l1Key l0Keys =
     (if s = [] then (l1Key, l0Keys)
      else
        let e = (case find_index (\<lambda>b. b = 10) s of None \<Rightarrow> length s | Some i \<Rightarrow> i);
            ln = TrimSpace (take e s);
            rest = drop (e + 1) s
        in if ln = [] then parseManifestFrom rest first l1Key l0Keys
           else if first then parseManifestFrom rest False ln l0Keys
           else if l1Key = [] \<and> hasPrefix ln (str ''l1/'') then parseManifestFrom rest first ln l0Keys
           else if hasPrefix ln (str ''l0/'') then parseManifestFrom rest first l1Key (l0Keys @ [ln])
           else parseManifestFrom rest first l1Key l0Keys)"
  by pat_completeness auto
termination
  by (relation "measure (\<lambda>(s, _). length s)") auto

declare parseManifestFrom.simps [simp del]

definition ParseManifest :: "bytes \<Rightarrow> gostring \<times> gostring list" where
  "ParseManifest body = parseManifestFrom body True [] []"

section \<open>Names give back their times\<close>

lemma unat_byte_add: "numeral m + k < (256 :: nat) \<Longrightarrow> unat (numeral m + of_nat k :: byte) = numeral m + k"
  using unat_of_nat [of "numeral m + k", where 'a = 8] by simp

lemma decDigits_digits: "list_all isDigit (decDigits n)" "decDigits n \<noteq> []"
proof (induction n rule: decDigits.induct)
  case (1 n)
  have d: "isDigit (of_nat (48 + k))" if "k < 10" for k
    using that by (simp add: isDigit_def word_le_nat_alt unat_byte_add)
  show "list_all isDigit (decDigits n)"
    using 1 d by (subst decDigits.simps) (auto simp: d [of "n mod 10", simplified])
  show "decDigits n \<noteq> []" by (subst decDigits.simps) auto
qed

lemma digitsValue_decDigits [simp]: "digitsValue (decDigits n) = n"
proof (induction n rule: decDigits.induct)
  case (1 n)
  have v: "unat (of_nat (48 + k) :: byte) - 48 = k" if "k < 10" for k
    using that by (simp add: unat_byte_add)
  show ?case
  proof (cases "n < 10")
    case True
    then show ?thesis using v [of n] by (subst decDigits.simps) (simp add: digitsValue_def)
  next
    case False
    then have "digitsValue (decDigits n) = 10 * digitsValue (decDigits (n div 10)) + (unat (of_nat (48 + n mod 10) :: byte) - 48)"
      by (subst decDigits.simps) (simp add: digitsValue_def)
    then show ?thesis using 1 False v [of "n mod 10"] by simp
  qed
qed

lemma hd_decDigits: "hd (decDigits n) \<noteq> 45" "hd (decDigits n) \<noteq> 43"
  using decDigits_digits [of n] by (cases "decDigits n"; auto simp: isDigit_def word_le_nat_alt)+

lemma ParseInt_FormatInt [simp]: "i64_ok n \<Longrightarrow> ParseInt (FormatInt n) = Some n"
  using decDigits_digits [of "nat n"] decDigits_digits [of "nat (- n)"] hd_decDigits [of "nat n"]
  by (auto simp: ParseInt_def FormatInt_def i64_ok_def Let_def nat_le_iff)

lemma lastIndexByte_append:
  "c \<notin> set ys \<Longrightarrow> lastIndexByte c (xs @ c # ys) = Some (length xs)"
proof (induction xs)
  case Nil
  then have "lastIndexByte c ys = None" by (induction ys) auto
  then show ?case by simp
qed simp

lemma FormatInt_bytes: "b \<in> set (FormatInt n) \<Longrightarrow> isDigit b \<or> b = 45" "FormatInt n \<noteq> []"
  using decDigits_digits [of "nat n"] decDigits_digits [of "nat (- n)"]
  by (auto simp: FormatInt_def list_all_iff split: if_splits)

lemma FormatInt_no: "47 \<notin> set (FormatInt n)" "46 \<notin> set (FormatInt n)" "10 \<notin> set (FormatInt n)"
  by (auto dest!: FormatInt_bytes(1) simp: isDigit_def word_le_nat_alt)

text \<open>The parser reads the time of every kind of file name; it refuses negative times.\<close>

lemma parseFirstSys_name:
  assumes "i64_ok n" "pre = p @ [47]" "46 \<notin> set suf" "47 \<notin> set suf"
  shows "parseFirstSysFromKey (pre @ FormatInt n @ 46 # suf) = (if n < 0 then None else Some n)"
proof -
  have "lastIndexByte 47 (p @ 47 # (FormatInt n @ 46 # suf)) = Some (length p)"
    using assms(4) FormatInt_no by (intro lastIndexByte_append) auto
  moreover have "lastIndexByte 46 (FormatInt n @ 46 # suf) = Some (length (FormatInt n))"
    using assms(3) by (intro lastIndexByte_append)
  ultimately show ?thesis
    using FormatInt_bytes(2) [of n] assms(1,2) by (simp add: parseFirstSysFromKey_def Let_def)
qed

lemma parseFirstSys_key:
  assumes "i64_ok n" "0 \<le> n"
  shows "parseFirstSysFromKey (l0KeyFor h n) = Some n" "parseFirstSysFromKey (l1KeyFor h n) = Some n"
    "parseFirstSysFromKey (manifestKeyFor h n) = Some n"
proof -
  have s: "str ''.arrow'' = 46 # str ''arrow''" "str ''.manifest'' = 46 # str ''manifest''" "str ''/'' = [47]"
    by code_simp+
  have n: "46 \<notin> set (str ''arrow'')" "47 \<notin> set (str ''arrow'')"
    "46 \<notin> set (str ''manifest'')" "47 \<notin> set (str ''manifest'')" by code_simp+
  show "parseFirstSysFromKey (l0KeyFor h n) = Some n"
    using parseFirstSys_name [OF assms(1) _ n(1,2), of "l0Prefix h" "str ''l0/'' @ hexEncode h"] assms(2)
    by (simp add: l0KeyFor_def l0Prefix_def s)
  show "parseFirstSysFromKey (l1KeyFor h n) = Some n"
    using parseFirstSys_name [OF assms(1) _ n(1,2), of "l1Prefix h" "str ''l1/'' @ hexEncode h"] assms(2)
    by (simp add: l1KeyFor_def l1Prefix_def s)
  show "parseFirstSysFromKey (manifestKeyFor h n) = Some n"
    using parseFirstSys_name [OF assms(1) _ n(3,4), of "manifestsPrefix h" "str ''compaction/'' @ hexEncode h"] assms(2)
    by (simp add: manifestKeyFor_def manifestsPrefix_def s)
qed

section \<open>Manifests give back their keys\<close>

definition plain :: "byte \<Rightarrow> bool" where
  "plain b \<longleftrightarrow> 33 \<le> b \<and> b < 127"

lemma spaceRunes_ends: "r \<in> set spaceRunes \<Longrightarrow> r \<noteq> [] \<and> \<not> plain (hd r) \<and> \<not> plain (last r)"
  by (auto simp: spaceRunes_def plain_def word_le_nat_alt word_less_nat_alt unat_byte_add)

lemma trimWith_id:
  assumes "\<And>r. r \<in> set runes \<Longrightarrow> r \<noteq> [] \<Longrightarrow> \<not> plain (hd r)" "s \<noteq> []" "plain (hd s)"
  shows "trimWith runes s = s"
proof -
  have "find (\<lambda>r. r \<noteq> [] \<and> take (length r) s = r) runes = None"
    unfolding find_None_iff
  proof clarify
    fix r assume r: "r \<in> set runes" "r \<noteq> []" "take (length r) s = r"
    then have "hd r = hd s" using assms(2) by (metis hd_take length_greater_0_conv)
    then show False using assms(1) [OF r(1,2)] assms(3) by simp
  qed
  then show ?thesis by (subst trimWith.simps) simp
qed

lemma TrimSpace_plain:
  assumes "s \<noteq> []" "plain (hd s)" "plain (last s)"
  shows "TrimSpace s = s"
proof -
  have "trimWith spaceRunes s = s" by (rule trimWith_id) (use assms spaceRunes_ends in auto)
  moreover have "trimWith (map rev spaceRunes) (rev s) = rev s"
    by (rule trimWith_id) (use assms spaceRunes_ends in \<open>auto simp: hd_rev\<close>)
  ultimately show ?thesis by (simp add: TrimSpace_def)
qed

definition key_ok :: "gostring \<Rightarrow> bool" where
  "key_ok k \<longleftrightarrow> k \<noteq> [] \<and> plain (hd k) \<and> plain (last k) \<and> 10 \<notin> set k"

lemma find_index_newline: "10 \<notin> set k \<Longrightarrow> find_index (\<lambda>b. b = (10 :: byte)) (k @ 10 # rest) = Some (length k)"
  by (induction k) auto

lemma parseManifest_line:
  assumes "key_ok k"
  shows "parseManifestFrom (k @ 10 # rest) first l1Key l0Keys =
    (if first then parseManifestFrom rest False k l0Keys
     else if l1Key = [] \<and> hasPrefix k (str ''l1/'') then parseManifestFrom rest first k l0Keys
     else if hasPrefix k (str ''l0/'') then parseManifestFrom rest first l1Key (l0Keys @ [k])
     else parseManifestFrom rest first l1Key l0Keys)"
  using assms TrimSpace_plain [of k]
  by (subst parseManifestFrom.simps) (simp add: key_ok_def find_index_newline Let_def)

lemma parseManifest_l0s:
  assumes "l1Key \<noteq> []" "\<forall>k\<in>set ks. key_ok k \<and> hasPrefix k (str ''l0/'')"
  shows "parseManifestFrom (concat (map (\<lambda>k. k @ [10]) ks)) False l1Key acc = (l1Key, acc @ ks)"
  using assms(2)
proof (induction ks arbitrary: acc)
  case Nil
  then show ?case by (subst parseManifestFrom.simps) simp
next
  case (Cons k ks)
  then show ?case using assms(1) by (simp add: parseManifest_line)
qed

lemma ParseManifest_buildManifest:
  assumes "key_ok l1Key" "\<forall>k\<in>set ks. key_ok k \<and> hasPrefix k (str ''l0/'')"
  shows "ParseManifest (buildManifest l1Key ks) = (l1Key, ks)"
  using parseManifest_l0s [OF _ assms(2), of l1Key "[]"] assms(1)
  by (simp add: ParseManifest_def buildManifest_def parseManifest_line) (simp add: key_ok_def)

end
