(* ===== verification/Query.thy ===== *)
theory Query
  imports Lsm_Store "HOL-Library.Product_Lexorder"
begin

text \<open>
  The bitemporal resolver of \<^verbatim>\<open>internal/database/query.go\<close>: point queries (\<^verbatim>\<open>AsOf\<close>), window queries (\<^verbatim>\<open>Range\<close>)
  and their coalescing, over the files of an object store and a live source. Shown: a point query returns
  a row of greatest system time among all matching rows of the files it must read, skipping files by name
  and hiding superseded files do not change the answer, and a window query returns every matching row.

  The object store is the pair of interfaces \<^verbatim>\<open>S3Lister\<close> and \<^verbatim>\<open>S3Downloader\<close>: listing and reading may fail, and a
  read may stop before the end of the object. The checks of the context are a record of their outcomes.
\<close>

section \<open>Interfaces and configuration\<close>

record S3 =
  s3List :: "gostring \<Rightarrow> gostring list option"
  s3Get :: "gostring \<Rightarrow> (bytes \<times> bool) option"

record Ctx =
  cxStart :: bool
  cxKey :: "gostring \<Rightarrow> bool"
  cxRec :: "gostring \<Rightarrow> nat \<Rightarrow> bool"

record LiveEvent =
  lPayload :: bytes
  lPayloadDigest :: bytes
  lSystemTime :: int
  lValidTimeStart :: int
  lValidTimeEnd :: int
  lAssertionTime :: int
  lH3Index :: u64

type_synonym LiveSource = "gostring \<Rightarrow> int \<Rightarrow> LiveEvent list option"

record Resolver =
  MaxL0Files :: int
  MaxRangeRows :: int
  EnableFirstSysSkip :: bool
  pruningFrontierObserved :: int
  liveSource :: "LiveSource option"

definition DefaultResolver :: Resolver where
  "DefaultResolver =
     \<lparr>MaxL0Files = 1000, MaxRangeRows = 4096, EnableFirstSysSkip = True, pruningFrontierObserved = 0, liveSource = None\<rparr>"

definition NewResolver :: "int \<Rightarrow> int \<Rightarrow> bool \<Rightarrow> LiveSource option \<Rightarrow> Resolver" where
  "NewResolver maxL0 maxRows skip live =
     \<lparr>MaxL0Files = (if maxL0 \<le> 0 then 1000 else maxL0), MaxRangeRows = (if maxRows < 0 then 0 else maxRows),
      EnableFirstSysSkip = skip, pruningFrontierObserved = 0, liveSource = live\<rparr>"

definition SetLiveSource :: "LiveSource option \<Rightarrow> Resolver \<Rightarrow> Resolver" where
  "SetLiveSource src r = r\<lparr>liveSource := src\<rparr>"

definition observeQueryTxTime :: "int \<Rightarrow> Resolver \<Rightarrow> Resolver" where
  "observeQueryTxTime tx r =
     (if pruningFrontierObserved r \<ge> tx then r else r\<lparr>pruningFrontierObserved := tx\<rparr>)"

definition QueryTxTimeFrontier :: "Resolver \<Rightarrow> int" where
  "QueryTxTimeFrontier r = pruningFrontierObserved r"

datatype queryError = EmptyEntityID | Cancelled | ListFailed | ErrEntityNotFound

datatype scanError = DownloadFailed | ReadFailed | OpenFailed

section \<open>Scanning for a point query\<close>

text \<open>The coordinates of a point query: hash prefix, entity, valid time and transaction time.\<close>

record Point =
  pHash :: bytes
  pEid :: gostring
  pVt :: int
  pTx :: int

fun scanRows :: "Point \<Rightarrow> int \<Rightarrow> ArrowRow list \<Rightarrow> ArrowRow option \<times> int \<Rightarrow> ArrowRow option \<times> int" where
  "scanRows p cur [] st = st"
| "scanRows p cur (r # rs) (best, bestSys) =
     (if rHash r \<noteq> pHash p then scanRows p cur rs (best, bestSys)
      else if rSys r > pTx p then scanRows p cur rs (best, bestSys)
      else if pVt p < rVs r \<or> pVt p \<ge> rVe r then scanRows p cur rs (best, bestSys)
      else if rEid r \<noteq> pEid p then scanRows p cur rs (best, bestSys)
      else if rSys r \<le> cur \<or> rSys r \<le> bestSys then scanRows p cur rs (best, bestSys)
      else scanRows p cur rs (Some r, rSys r))"

definition scanRecordBatch :: "Point \<Rightarrow> int \<Rightarrow> ArrowRow list \<Rightarrow> TriTemporalEvent option \<times> int" where
  "scanRecordBatch p cur rows =
     (if rows = [] then (None, 0)
      else case scanRows p cur rows (None, 0) of (best, bestSys) \<Rightarrow> (map_option rowEvent best, bestSys))"

definition better :: "'a option \<times> int \<Rightarrow> 'a option \<times> int \<Rightarrow> 'a option \<times> int" where
  "better st m = (if fst m \<noteq> None \<and> snd m > snd st then m else st)"

fun scanBatches ::
  "Point \<Rightarrow> (nat \<Rightarrow> bool) \<Rightarrow> nat \<Rightarrow> ArrowRow list option list \<Rightarrow> TriTemporalEvent option \<times> int \<Rightarrow>
     TriTemporalEvent option \<times> int" where
  "scanBatches p cancelled i [] st = st"
| "scanBatches p cancelled i (b # bs) st =
     (if cancelled i then st
      else case b of
        None \<Rightarrow> scanBatches p cancelled (Suc i) bs st
      | Some rows \<Rightarrow> scanBatches p cancelled (Suc i) bs (better st (scanRecordBatch p (snd st) rows)))"

text \<open>Download, full read and opening of a file; an empty object has no batches.\<close>

definition openFile :: "ArrowLib \<Rightarrow> S3 \<Rightarrow> gostring \<Rightarrow> scanError + ArrowRow list option list" where
  "openFile L s3 key =
     (case s3Get s3 key of
        None \<Rightarrow> Inl DownloadFailed
      | Some (data, full) \<Rightarrow>
          if \<not> full then Inl ReadFailed
          else if data = [] then Inr []
          else case arOpen L data of None \<Rightarrow> Inl OpenFailed | Some batches \<Rightarrow> Inr batches)"

definition scanFile ::
  "ArrowLib \<Rightarrow> S3 \<Rightarrow> Ctx \<Rightarrow> gostring \<Rightarrow> Point \<Rightarrow> scanError + TriTemporalEvent option \<times> int" where
  "scanFile L s3 cx key p =
     (case openFile L s3 key of
        Inl err \<Rightarrow> Inl err
      | Inr batches \<Rightarrow> Inr (scanBatches p (cxRec cx key) 0 batches (None, 0)))"

section \<open>Which files are read\<close>

definition skipsKey :: "Resolver \<Rightarrow> int \<Rightarrow> gostring \<Rightarrow> bool" where
  "skipsKey r tx key \<longleftrightarrow>
     EnableFirstSysSkip r \<and> (case parseFirstSysFromKey key of None \<Rightarrow> False | Some firstSys \<Rightarrow> firstSys > tx)"

definition manifestL0Keys :: "S3 \<Rightarrow> gostring \<Rightarrow> gostring list" where
  "manifestL0Keys s3 mk =
     (case s3Get s3 mk of None \<Rightarrow> [] | Some (body, _) \<Rightarrow> snd (ParseManifest body))"

definition loadSupersededL0Keys :: "S3 \<Rightarrow> Resolver \<Rightarrow> bytes \<Rightarrow> int \<Rightarrow> gostring list" where
  "loadSupersededL0Keys s3 r hash8 tx =
     (case s3List s3 (manifestsPrefix hash8) of
        None \<Rightarrow> []
      | Some keys \<Rightarrow> concat (map (manifestL0Keys s3) (filter (\<lambda>mk. \<not> skipsKey r tx mk) keys)))"

definition capTail :: "int \<Rightarrow> gostring list \<Rightarrow> gostring list" where
  "capTail maxL0 tailKeys =
     (if maxL0 > 0 \<and> int (length tailKeys) > maxL0
      then drop (length tailKeys - nat maxL0) (sort tailKeys) else tailKeys)"

text \<open>The keys in the order of the scan; with nothing but superseded files these are read after all.\<close>

definition scanKeysOf :: "S3 \<Rightarrow> Resolver \<Rightarrow> bytes \<Rightarrow> int \<Rightarrow> gostring list \<Rightarrow> gostring list \<Rightarrow> gostring list" where
  "scanKeysOf s3 r hash8 tx l1Keys l0Keys =
     (let superseded = loadSupersededL0Keys s3 r hash8 tx;
          tailKeys = capTail (MaxL0Files r) (filter (\<lambda>k. k \<notin> set superseded) l0Keys);
          scanKeys = (if l1Keys = [] \<and> tailKeys = [] then l0Keys else l1Keys)
      in rev (sort (scanKeys @ tailKeys)))"

fun asofLoop ::
  "ArrowLib \<Rightarrow> S3 \<Rightarrow> Ctx \<Rightarrow> Resolver \<Rightarrow> Point \<Rightarrow> gostring list \<Rightarrow> TriTemporalEvent option \<times> int \<Rightarrow>
     queryError + TriTemporalEvent option \<times> int" where
  "asofLoop L s3 cx r p [] st = Inr st"
| "asofLoop L s3 cx r p (key # keys) st =
     (if cxKey cx key then Inl Cancelled
      else if skipsKey r (pTx p) key then asofLoop L s3 cx r p keys st
      else case scanFile L s3 cx key p of
        Inl _ \<Rightarrow> asofLoop L s3 cx r p keys st
      | Inr m \<Rightarrow> asofLoop L s3 cx r p keys (better st m))"

definition liveToEvent :: "gostring \<Rightarrow> LiveEvent \<Rightarrow> TriTemporalEvent" where
  "liveToEvent eid le =
     \<lparr>tEntityID = eid, tSystemTime = lSystemTime le, tValidTimeStart = lValidTimeStart le,
      tValidTimeEnd = lValidTimeEnd le, tAssertionTime = lAssertionTime le, tH3Index = lH3Index le,
      tPayload = lPayload le, tPayloadDigest = lPayloadDigest le\<rparr>"

fun liveLoop :: "Point \<Rightarrow> LiveEvent list \<Rightarrow> TriTemporalEvent option \<times> int \<Rightarrow> TriTemporalEvent option \<times> int" where
  "liveLoop p [] st = st"
| "liveLoop p (le # les) st =
     (if lSystemTime le > pTx p then liveLoop p les st
      else if pVt p < lValidTimeStart le \<or> pVt p \<ge> lValidTimeEnd le then liveLoop p les st
      else if lSystemTime le > snd st then liveLoop p les (Some (liveToEvent (pEid p) le), lSystemTime le)
      else liveLoop p les st)"

definition mergeLive :: "Resolver \<Rightarrow> Point \<Rightarrow> TriTemporalEvent option \<times> int \<Rightarrow> TriTemporalEvent option \<times> int" where
  "mergeLive r p st =
     (case liveSource r of
        None \<Rightarrow> st
      | Some src \<Rightarrow> (case src (pEid p) (pTx p) of None \<Rightarrow> st | Some lcs \<Rightarrow> liveLoop p lcs st))"

definition AsOf ::
  "(bytes \<Rightarrow> bytes) \<Rightarrow> ArrowLib \<Rightarrow> S3 \<Rightarrow> Ctx \<Rightarrow> gostring \<Rightarrow> int \<Rightarrow> int \<Rightarrow> Resolver \<Rightarrow>
     (queryError + TriTemporalEvent) \<times> Resolver" where
  "AsOf sha256 L s3 cx eid vt tx r0 =
     (if eid = [] then (Inl EmptyEntityID, r0)
      else
        let hp = take 16 (sha256 eid); h8 = take 8 hp; r = observeQueryTxTime tx r0;
            p = \<lparr>pHash = hp, pEid = eid, pVt = vt, pTx = tx\<rparr>
        in
        if cxStart cx then (Inl Cancelled, r)
        else case s3List s3 (l1Prefix h8) of
          None \<Rightarrow> (Inl ListFailed, r)
        | Some l1Keys \<Rightarrow>
        (case s3List s3 (l0Prefix h8) of
          None \<Rightarrow> (Inl ListFailed, r)
        | Some l0Keys \<Rightarrow>
            if l1Keys = [] \<and> l0Keys = [] \<and> liveSource r = None then (Inl ErrEntityNotFound, r)
            else case asofLoop L s3 cx r p (scanKeysOf s3 r h8 tx l1Keys l0Keys) (None, 0) of
              Inl err \<Rightarrow> (Inl err, r)
            | Inr st \<Rightarrow>
                (case fst (mergeLive r p st) of
                   None \<Rightarrow> (Inl ErrEntityNotFound, r)
                 | Some ev \<Rightarrow> (Inr ev, r))))"

section \<open>Window queries\<close>

record Window =
  wHash :: bytes
  wEid :: gostring
  wLo :: int
  wHi :: int
  wTx :: int

fun scanWindowRecordBatch ::
  "Window \<Rightarrow> int \<Rightarrow> ArrowRow list \<Rightarrow> TriTemporalEvent list \<Rightarrow> TriTemporalEvent list \<times> bool" where
  "scanWindowRecordBatch w maxRows [] out = (out, False)"
| "scanWindowRecordBatch w maxRows (r # rs) out =
     (if rHash r \<noteq> wHash w then scanWindowRecordBatch w maxRows rs out
      else if rSys r > wTx w then scanWindowRecordBatch w maxRows rs out
      else if rVs r \<ge> wHi w \<or> rVe r \<le> wLo w then scanWindowRecordBatch w maxRows rs out
      else if rEid r \<noteq> wEid w then scanWindowRecordBatch w maxRows rs out
      else if maxRows > 0 \<and> int (length out) \<ge> maxRows then (out, True)
      else scanWindowRecordBatch w maxRows rs (out @ [rowEvent r]))"

fun scanWindowBatches ::
  "Window \<Rightarrow> int \<Rightarrow> (nat \<Rightarrow> bool) \<Rightarrow> nat \<Rightarrow> ArrowRow list option list \<Rightarrow> TriTemporalEvent list \<Rightarrow>
     TriTemporalEvent list \<times> bool" where
  "scanWindowBatches w maxRows cancelled i [] out = (out, False)"
| "scanWindowBatches w maxRows cancelled i (b # bs) out =
     (if cancelled i then (out, False)
      else case b of
        None \<Rightarrow> scanWindowBatches w maxRows cancelled (Suc i) bs out
      | Some rows \<Rightarrow>
          (case scanWindowRecordBatch w maxRows rows out of
             (out', stop) \<Rightarrow>
               if stop then (out', True) else scanWindowBatches w maxRows cancelled (Suc i) bs out'))"

definition scanWindowFile ::
  "ArrowLib \<Rightarrow> S3 \<Rightarrow> Ctx \<Rightarrow> gostring \<Rightarrow> Window \<Rightarrow> int \<Rightarrow> TriTemporalEvent list \<Rightarrow>
     scanError + TriTemporalEvent list \<times> bool" where
  "scanWindowFile L s3 cx key w maxRows out =
     (case openFile L s3 key of
        Inl err \<Rightarrow> Inl err
      | Inr batches \<Rightarrow> Inr (scanWindowBatches w maxRows (cxRec cx key) 0 batches out))"

fun rangeLoop ::
  "ArrowLib \<Rightarrow> S3 \<Rightarrow> Ctx \<Rightarrow> Resolver \<Rightarrow> Window \<Rightarrow> gostring list \<Rightarrow> TriTemporalEvent list \<Rightarrow>
     queryError + TriTemporalEvent list \<times> bool" where
  "rangeLoop L s3 cx r w [] out = Inr (out, False)"
| "rangeLoop L s3 cx r w (key # keys) out =
     (if cxKey cx key then Inl Cancelled
      else if skipsKey r (wTx w) key then rangeLoop L s3 cx r w keys out
      else case scanWindowFile L s3 cx key w (MaxRangeRows r) out of
        Inl _ \<Rightarrow> rangeLoop L s3 cx r w keys out
      | Inr (out', stop) \<Rightarrow> if stop then Inr (out', True) else rangeLoop L s3 cx r w keys out')"

text \<open>The live rows that are no twins of a collected row, by system time and digest.\<close>

fun liveMerge ::
  "Window \<Rightarrow> int \<Rightarrow> LiveEvent list \<Rightarrow> (int \<times> bytes) set \<Rightarrow> TriTemporalEvent list \<Rightarrow> TriTemporalEvent list \<times> bool" where
  "liveMerge w maxRows [] seen out = (out, False)"
| "liveMerge w maxRows (le # les) seen out =
     (if lSystemTime le > wTx w then liveMerge w maxRows les seen out
      else if lValidTimeStart le \<ge> wHi w \<or> lValidTimeEnd le \<le> wLo w then liveMerge w maxRows les seen out
      else if (lSystemTime le, lPayloadDigest le) \<in> seen then liveMerge w maxRows les seen out
      else if maxRows > 0 \<and> int (length out) \<ge> maxRows then (out, True)
      else liveMerge w maxRows les (insert (lSystemTime le, lPayloadDigest le) seen)
             (out @ [liveToEvent (wEid w) le]))"

definition mergeLiveRows ::
  "Resolver \<Rightarrow> Window \<Rightarrow> TriTemporalEvent list \<times> bool \<Rightarrow> TriTemporalEvent list \<times> bool" where
  "mergeLiveRows r w st =
     (case liveSource r of
        None \<Rightarrow> st
      | Some src \<Rightarrow>
          (case src (wEid w) (wTx w) of
             None \<Rightarrow> st
           | Some lcs \<Rightarrow>
               (case liveMerge w (MaxRangeRows r) lcs
                       ((\<lambda>d. (tSystemTime d, tPayloadDigest d)) ` set (fst st)) (fst st) of
                  (out, stop) \<Rightarrow> (out, snd st \<or> stop))))"

definition Range ::
  "(bytes \<Rightarrow> bytes) \<Rightarrow> ArrowLib \<Rightarrow> S3 \<Rightarrow> Ctx \<Rightarrow> gostring \<Rightarrow> int \<Rightarrow> int \<Rightarrow> int \<Rightarrow> Resolver \<Rightarrow>
     queryError + TriTemporalEvent list \<times> bool" where
  "Range sha256 L s3 cx eid lo hi tx r =
     (if eid = [] then Inl EmptyEntityID
      else if \<not> hi > lo then Inl ErrEntityNotFound
      else
        let hp = take 16 (sha256 eid); h8 = take 8 hp;
            w = \<lparr>wHash = hp, wEid = eid, wLo = lo, wHi = hi, wTx = tx\<rparr>
        in
        if cxStart cx then Inl Cancelled
        else case s3List s3 (l1Prefix h8) of
          None \<Rightarrow> Inl ListFailed
        | Some l1Keys \<Rightarrow>
        (case s3List s3 (l0Prefix h8) of
          None \<Rightarrow> Inl ListFailed
        | Some l0Keys \<Rightarrow>
            if l1Keys = [] \<and> l0Keys = [] \<and> liveSource r = None then Inl ErrEntityNotFound
            else case rangeLoop L s3 cx r w (scanKeysOf s3 r h8 tx l1Keys l0Keys) [] of
              Inl err \<Rightarrow> Inl err
            | Inr st \<Rightarrow>
                (case mergeLiveRows r w st of
                   (out, truncated) \<Rightarrow>
                     if out = [] then Inl ErrEntityNotFound
                     else Inr (sort_key tValidTimeStart out, truncated))))"

fun firstOfStart :: "int option \<Rightarrow> TriTemporalEvent list \<Rightarrow> TriTemporalEvent list" where
  "firstOfStart lastStart [] = []"
| "firstOfStart lastStart (r # rs) =
     (if lastStart \<noteq> Some (tValidTimeStart r) then r # firstOfStart (Some (tValidTimeStart r)) rs
      else firstOfStart lastStart rs)"

definition CoalesceRange :: "TriTemporalEvent list \<Rightarrow> TriTemporalEvent list" where
  "CoalesceRange rows =
     (if length rows \<le> 1 then rows
      else firstOfStart None (sort_key (\<lambda>r. (tValidTimeStart r, - tSystemTime r)) rows))"

section \<open>The files of a query\<close>

text \<open>
  Which files a query must read, without reference to how it finds them: all level-1 files, and the level-0
  files that no manifest at or before the transaction time names, of these the newest by name up to the limit; when there
  are neither, all level-0 files.
\<close>

definition superseded :: "S3 \<Rightarrow> Resolver \<Rightarrow> bytes \<Rightarrow> int \<Rightarrow> gostring \<Rightarrow> bool" where
  "superseded s3 r hash8 tx k \<longleftrightarrow>
     (case s3List s3 (manifestsPrefix hash8) of
        None \<Rightarrow> False
      | Some mks \<Rightarrow>
          \<exists>mk\<in>set mks.
            \<not> (EnableFirstSysSkip r \<and> (case parseFirstSysFromKey mk of None \<Rightarrow> False | Some n \<Rightarrow> tx < n)) \<and>
            (case s3Get s3 mk of None \<Rightarrow> False | Some (body, _) \<Rightarrow> k \<in> set (snd (ParseManifest body))))"

definition must_read :: "S3 \<Rightarrow> Resolver \<Rightarrow> bytes \<Rightarrow> int \<Rightarrow> gostring list \<Rightarrow> gostring list \<Rightarrow> gostring list \<Rightarrow> bool" where
  "must_read s3 r hash8 tx l1Keys l0Keys keys \<longleftrightarrow>
     (let live = filter (\<lambda>k. \<not> superseded s3 r hash8 tx k) l0Keys in
      \<exists>newest older.
        mset live = mset older + mset newest \<and> (\<forall>a\<in>set older. \<forall>b\<in>set newest. a \<le> b) \<and>
        length newest = (if MaxL0Files r > 0 then min (nat (MaxL0Files r)) (length live) else length live) \<and>
        mset keys = mset (if l1Keys = [] \<and> live = [] then l0Keys else l1Keys) + mset newest \<and>
        sorted (rev keys))"

lemma superseded_iff: "superseded s3 r h8 tx k \<longleftrightarrow> k \<in> set (loadSupersededL0Keys s3 r h8 tx)"
proof -
  have "k \<in> set (manifestL0Keys s3 mk) \<longleftrightarrow> (case s3Get s3 mk of None \<Rightarrow> False | Some (body, _) \<Rightarrow> k \<in> set (snd (ParseManifest body)))" for mk
    by (simp add: manifestL0Keys_def split: option.split)
  then show ?thesis
    by (simp add: superseded_def loadSupersededL0Keys_def skipsKey_def split: option.split cong: option.case_cong) blast
qed

lemma capTail_split:
  "\<exists>older. mset live = mset older + mset (capTail m live) \<and> (\<forall>a\<in>set older. \<forall>b\<in>set (capTail m live). a \<le> b) \<and>
     length (capTail m live) = (if m > 0 then min (nat m) (length live) else length live)"
proof (cases "m > 0 \<and> int (length live) > m")
  case True
  let ?n = "length live - nat m"
  have "mset live = mset (take ?n (sort live)) + mset (drop ?n (sort live))"
    by (metis append_take_drop_id mset_append mset_sort)
  moreover have "a \<le> b" if "a \<in> set (take ?n (sort live))" "b \<in> set (drop ?n (sort live))" for a b
    using that sorted_append [of "take ?n (sort live)" "drop ?n (sort live)"] by simp
  ultimately show ?thesis using True by (intro exI [of _ "take ?n (sort live)"]) (auto simp: capTail_def)
next
  case False
  then have "capTail m live = live" by (simp only: capTail_def if_False)
  then show ?thesis using False by (intro exI [of _ "[]"]) auto
qed

lemma capTail_unique:
  assumes "mset live = mset older + mset newest" "\<forall>a\<in>set older. \<forall>b\<in>set newest. a \<le> b"
    and "length newest = (if m > 0 then min (nat m) (length live) else length live)"
  shows "mset newest = mset (capTail m live)"
proof (cases "m > 0 \<and> int (length live) > m")
  case True
  have "sorted (sort older @ sort newest)" using assms(2) by (auto simp: sorted_append)
  then have s: "sort live = sort older @ sort newest"
    using assms(1) by (intro properties_for_sort) simp_all
  have "length live = length older + length newest" using arg_cong [OF assms(1), of size] by simp
  moreover have "length newest = nat m" using assms(3) True by auto
  ultimately have "drop (length live - nat m) (sort live) = sort newest" unfolding s by simp
  then show ?thesis using True by (simp add: capTail_def)
next
  case False
  then have "length newest = length live" using assms(3) by auto
  moreover have "length live = length older + length newest" using arg_cong [OF assms(1), of size] by simp
  ultimately have "older = []" by simp
  then have "mset newest = mset live" using assms(1) by simp
  moreover have "capTail m live = live" using False by (simp only: capTail_def if_False)
  ultimately show ?thesis by simp
qed

text \<open>The code reads exactly these files, in descending order.\<close>

lemma must_read_iff: "must_read s3 r h8 tx l1Keys l0Keys keys \<longleftrightarrow> keys = scanKeysOf s3 r h8 tx l1Keys l0Keys"
proof -
  define live where "live = filter (\<lambda>k. \<not> superseded s3 r h8 tx k) l0Keys"
  let ?tail = "capTail (MaxL0Files r) live" and ?first = "if l1Keys = [] \<and> live = [] then l0Keys else l1Keys"
  obtain older where o: "mset live = mset older + mset ?tail" "\<forall>a\<in>set older. \<forall>b\<in>set ?tail. a \<le> b"
    "length ?tail = (if MaxL0Files r > 0 then min (nat (MaxL0Files r)) (length live) else length live)"
    using capTail_split by blast
  have "?tail = [] \<longleftrightarrow> live = []" using o(3) by (auto simp: min_def split: if_splits)
  then have sk: "scanKeysOf s3 r h8 tx l1Keys l0Keys = rev (sort (?first @ ?tail))"
    by (auto simp: scanKeysOf_def live_def superseded_iff Let_def)
  have mr: "must_read s3 r h8 tx l1Keys l0Keys keys \<longleftrightarrow> (\<exists>newest older. mset live = mset older + mset newest \<and>
      (\<forall>a\<in>set older. \<forall>b\<in>set newest. a \<le> b) \<and>
      length newest = (if MaxL0Files r > 0 then min (nat (MaxL0Files r)) (length live) else length live) \<and>
      mset keys = mset ?first + mset newest \<and> sorted (rev keys))"
    unfolding must_read_def Let_def live_def ..
  show ?thesis
  proof
    assume "must_read s3 r h8 tx l1Keys l0Keys keys"
    then obtain newest older' where n: "mset live = mset older' + mset newest" "\<forall>a\<in>set older'. \<forall>b\<in>set newest. a \<le> b"
      "length newest = (if MaxL0Files r > 0 then min (nat (MaxL0Files r)) (length live) else length live)"
      "mset keys = mset ?first + mset newest" "sorted (rev keys)" unfolding mr by blast
    have "mset (rev keys) = mset (?first @ ?tail)" using n(4) capTail_unique [OF n(1-3)] by simp
    then have "sort (?first @ ?tail) = rev keys" by (rule properties_for_sort [OF _ n(5)])
    then show "keys = scanKeysOf s3 r h8 tx l1Keys l0Keys" unfolding sk by (metis rev_rev_ident)
  next
    assume "keys = scanKeysOf s3 r h8 tx l1Keys l0Keys"
    then have "mset keys = mset ?first + mset ?tail" "sorted (rev keys)" unfolding sk by simp_all
    then show "must_read s3 r h8 tx l1Keys l0Keys keys" unfolding mr using o by blast
  qed
qed

section \<open>The answer of a point query\<close>

definition matches :: "Point \<Rightarrow> ArrowRow \<Rightarrow> bool" where
  "matches p r \<longleftrightarrow>
     rHash r = pHash p \<and> rSys r \<le> pTx p \<and> rVs r \<le> pVt p \<and> pVt p < rVe r \<and> rEid r = pEid p"

text \<open>A result is best for a set of events: one of greatest system time, or none when no time is positive.\<close>

definition best_of :: "TriTemporalEvent set \<Rightarrow> TriTemporalEvent option \<times> int \<Rightarrow> bool" where
  "best_of C st \<longleftrightarrow>
     0 \<le> snd st \<and> (\<forall>c\<in>C. tSystemTime c \<le> snd st) \<and>
     (case fst st of None \<Rightarrow> snd st = 0 | Some ev \<Rightarrow> ev \<in> C \<and> tSystemTime ev = snd st \<and> 0 < snd st)"

lemma best_of_empty [simp]: "best_of {} (None, 0)"
  by (simp add: best_of_def)

lemma rowEvent_sel [simp]:
  "tSystemTime (rowEvent r) = rSys r" "tValidTimeStart (rowEvent r) = rVs r" "tValidTimeEnd (rowEvent r) = rVe r"
  "tEntityID (rowEvent r) = rEid r"
  by (simp_all add: rowEvent_def)

lemma scanRows_spec:
  assumes "scanRows p cur rows (b0, s0) = (b, s)"
  shows "s0 \<le> s \<and> (\<forall>r\<in>set rows. matches p r \<longrightarrow> rSys r \<le> max cur s) \<and>
    (b = b0 \<and> s = s0 \<or> (\<exists>r\<in>set rows. b = Some r \<and> s = rSys r \<and> matches p r \<and> cur < s \<and> s0 < s))"
  using assms
proof (induction rows arbitrary: b0 s0)
  case (Cons r rows)
  show ?case
  proof (cases "matches p r \<and> \<not> (rSys r \<le> cur \<or> rSys r \<le> s0)")
    case True
    then have "scanRows p cur rows (Some r, rSys r) = (b, s)" using Cons.prems by (simp add: matches_def)
    from Cons.IH [OF this] True show ?thesis by fastforce
  next
    case False
    then have "scanRows p cur rows (b0, s0) = (b, s)" using Cons.prems by (auto simp: matches_def split: if_splits)
    from Cons.IH [OF this] False show ?thesis by fastforce
  qed
qed simp

lemma scanRecordBatch_best:
  assumes "best_of C st"
  shows "best_of (C \<union> rowEvent ` {r \<in> set rows. matches p r}) (better st (scanRecordBatch p (snd st) rows))"
proof (cases "rows = []")
  case True
  then show ?thesis using assms by (simp add: scanRecordBatch_def better_def)
next
  case False
  obtain b s where bs: "scanRows p (snd st) rows (None, 0) = (b, s)" by force
  note spec = scanRows_spec [OF bs]
  have e: "scanRecordBatch p (snd st) rows = (map_option rowEvent b, s)" using False bs by (simp add: scanRecordBatch_def)
  show ?thesis
    using spec assms unfolding e better_def best_of_def
    by (cases b) (fastforce split: option.splits)+
qed

definition batchRows :: "ArrowRow list option list \<Rightarrow> ArrowRow list" where
  "batchRows bs = concat (map (\<lambda>b. case b of None \<Rightarrow> [] | Some rows \<Rightarrow> rows) bs)"

lemma scanBatches_best:
  assumes "\<And>i. \<not> cancelled i" "best_of C st"
  shows "best_of (C \<union> rowEvent ` {r \<in> set (batchRows bs). matches p r}) (scanBatches p cancelled i bs st)"
  using assms(2)
proof (induction bs arbitrary: i C st)
  case Nil
  then show ?case by (simp add: batchRows_def)
next
  case (Cons b bs)
  show ?case
  proof (cases b)
    case None
    then show ?thesis using Cons assms(1) by (simp add: batchRows_def)
  next
    case (Some rows)
    have "C \<union> rowEvent ` {r \<in> set (batchRows (b # bs)). matches p r} =
        (C \<union> rowEvent ` {r \<in> set rows. matches p r}) \<union> rowEvent ` {r \<in> set (batchRows bs). matches p r}"
      using Some by (auto simp: batchRows_def)
    then show ?thesis
      using Cons.IH [OF scanRecordBatch_best [OF Cons.prems]] Some assms(1) by simp
  qed
qed

lemma better_best:
  assumes "best_of C st" "best_of D m"
  shows "best_of (C \<union> D) (better st m)"
  using assms by (cases st; cases m) (fastforce simp: best_of_def better_def split: option.splits)

text \<open>The rows of an object: those of its readable batches, none when it cannot be read.\<close>

definition keyRows :: "ArrowLib \<Rightarrow> S3 \<Rightarrow> gostring \<Rightarrow> ArrowRow list" where
  "keyRows L s3 key = (case openFile L s3 key of Inl _ \<Rightarrow> [] | Inr bs \<Rightarrow> batchRows bs)"

definition keysRows :: "ArrowLib \<Rightarrow> S3 \<Rightarrow> gostring list \<Rightarrow> ArrowRow set" where
  "keysRows L s3 keys = (\<Union>k\<in>set keys. set (keyRows L s3 k))"

definition answers :: "Point \<Rightarrow> ArrowRow set \<Rightarrow> TriTemporalEvent set" where
  "answers p R = rowEvent ` {r \<in> R. matches p r}"

lemma answers_Un [simp]: "answers p (A \<union> B) = answers p A \<union> answers p B"
  by (auto simp: answers_def)

lemma answers_empty [simp]: "answers p {} = {}"
  by (simp add: answers_def)

text \<open>Times in names are lower bounds of the times in the file.\<close>

definition name_bound :: "ArrowLib \<Rightarrow> S3 \<Rightarrow> gostring \<Rightarrow> bool" where
  "name_bound L s3 key \<longleftrightarrow>
     (\<forall>n r. parseFirstSysFromKey key = Some n \<longrightarrow> r \<in> set (keyRows L s3 key) \<longrightarrow> n \<le> rSys r)"

lemma skipsKey_no_answers:
  assumes "skipsKey r (pTx p) key" "name_bound L s3 key"
  shows "answers p (set (keyRows L s3 key)) = {}"
  using assms by (fastforce simp: skipsKey_def name_bound_def answers_def matches_def split: option.splits)

lemma asofLoop_best:
  assumes "\<And>k. \<not> cxKey cx k" "\<And>k i. \<not> cxRec cx k i" "\<forall>k\<in>set keys. name_bound L s3 k" "best_of C st"
  shows "\<exists>st'. asofLoop L s3 cx r p keys st = Inr st' \<and> best_of (C \<union> answers p (keysRows L s3 keys)) st'"
  using assms(3,4)
proof (induction keys arbitrary: C st)
  case Nil
  then show ?case by (simp add: keysRows_def)
next
  case (Cons key keys)
  have rows: "keysRows L s3 (key # keys) = set (keyRows L s3 key) \<union> keysRows L s3 keys" by (simp add: keysRows_def)
  consider "skipsKey r (pTx p) key" | "\<not> skipsKey r (pTx p) key" "\<exists>e. openFile L s3 key = Inl e"
    | bs where "\<not> skipsKey r (pTx p) key" "openFile L s3 key = Inr bs" by (cases "openFile L s3 key") auto
  then show ?case
  proof cases
    case 1
    then show ?thesis
      using Cons.IH [OF _ Cons.prems(2)] Cons.prems(1) skipsKey_no_answers [OF 1] assms(1) by (simp add: rows)
  next
    case 2
    then show ?thesis
      using Cons.IH [OF _ Cons.prems(2)] Cons.prems(1) assms(1) by (auto simp: rows keyRows_def scanFile_def)
  next
    case (3 bs)
    let ?m = "scanBatches p (cxRec cx key) 0 bs (None, 0)"
    have "best_of (answers p (set (keyRows L s3 key))) ?m"
      using scanBatches_best [of "cxRec cx key" "{}" "(None, 0)" bs p 0] assms(2) 3
      by (simp add: keyRows_def answers_def)
    from better_best [OF Cons.prems(2) this] have b: "best_of (C \<union> answers p (set (keyRows L s3 key))) (better st ?m)" .
    then show ?thesis
      using Cons.IH [OF _ b] Cons.prems(1) 3 assms(1) by (simp add: rows scanFile_def Un_assoc)
  qed
qed

definition liveAnswers :: "Resolver \<Rightarrow> Point \<Rightarrow> TriTemporalEvent set" where
  "liveAnswers r p =
     (case liveSource r of
        None \<Rightarrow> {}
      | Some src \<Rightarrow>
          (case src (pEid p) (pTx p) of
             None \<Rightarrow> {}
           | Some lcs \<Rightarrow> liveToEvent (pEid p) `
               {le \<in> set lcs. lSystemTime le \<le> pTx p \<and> lValidTimeStart le \<le> pVt p \<and> pVt p < lValidTimeEnd le}))"

lemma liveLoop_best:
  assumes "best_of C st"
  shows "best_of (C \<union> liveToEvent (pEid p) `
      {le \<in> set lcs. lSystemTime le \<le> pTx p \<and> lValidTimeStart le \<le> pVt p \<and> pVt p < lValidTimeEnd le})
    (liveLoop p lcs st)"
  using assms
proof (induction lcs arbitrary: C st)
  case (Cons le les)
  let ?ok = "\<lambda>le. lSystemTime le \<le> pTx p \<and> lValidTimeStart le \<le> pVt p \<and> pVt p < lValidTimeEnd le"
  let ?f = "liveToEvent (pEid p)"
  show ?case
  proof (cases "?ok le")
    case True
    define st' where "st' = better st (Some (?f le), lSystemTime le)"
    have "best_of {?f le} (if 0 < lSystemTime le then (Some (?f le), lSystemTime le) else (None, 0))"
      by (simp add: best_of_def liveToEvent_def)
    from better_best [OF Cons.prems this] have "best_of (C \<union> {?f le}) st'"
      using Cons.prems by (auto simp: st'_def better_def best_of_def split: if_splits)
    note ih = Cons.IH [OF this]
    have s: "C \<union> {?f le} \<union> ?f ` {x \<in> set les. ?ok x} = C \<union> ?f ` {x \<in> set (le # les). ?ok x}"
      using True by auto
    have l: "liveLoop p (le # les) st = liveLoop p les st'" using True by (simp add: st'_def better_def not_less not_le)
    show ?thesis unfolding l using ih unfolding s .
  next
    case False
    then have s: "{x \<in> set (le # les). ?ok x} = {x \<in> set les. ?ok x}" by auto
    have l: "liveLoop p (le # les) st = liveLoop p les st" using False by (auto simp: not_less not_le)
    show ?thesis unfolding s l by (rule Cons.IH [OF Cons.prems])
  qed
qed simp

lemma mergeLive_best: "best_of C st \<Longrightarrow> best_of (C \<union> liveAnswers r p) (mergeLive r p st)"
  using liveLoop_best by (auto simp: mergeLive_def liveAnswers_def split: option.splits)

definition asofPoint :: "(bytes \<Rightarrow> bytes) \<Rightarrow> gostring \<Rightarrow> int \<Rightarrow> int \<Rightarrow> Point" where
  "asofPoint sha256 eid vt tx = \<lparr>pHash = take 16 (sha256 eid), pEid = eid, pVt = vt, pTx = tx\<rparr>"

definition quiet :: "Ctx \<Rightarrow> bool" where
  "quiet cx \<longleftrightarrow> \<not> cxStart cx \<and> (\<forall>k. \<not> cxKey cx k) \<and> (\<forall>k i. \<not> cxRec cx k i)"

text \<open>The same resolver for the rest of the query.\<close>

lemma observe_sel [simp]:
  "liveSource (observeQueryTxTime tx r) = liveSource r" "MaxL0Files (observeQueryTxTime tx r) = MaxL0Files r"
  "EnableFirstSysSkip (observeQueryTxTime tx r) = EnableFirstSysSkip r"
  "MaxRangeRows (observeQueryTxTime tx r) = MaxRangeRows r"
  by (simp_all add: observeQueryTxTime_def)

lemma skipsKey_observe [simp]: "skipsKey (observeQueryTxTime tx r) = skipsKey r"
  by (simp add: skipsKey_def fun_eq_iff)

lemma scanKeysOf_observe [simp]: "scanKeysOf s3 (observeQueryTxTime tx r) = scanKeysOf s3 r"
  by (simp add: scanKeysOf_def loadSupersededL0Keys_def fun_eq_iff)

lemma liveAnswers_observe [simp]: "liveAnswers (observeQueryTxTime tx r) = liveAnswers r"
  by (simp add: liveAnswers_def fun_eq_iff)

lemma AsOf_answer:
  assumes "eid \<noteq> []" "quiet cx" "h8 = take 8 (take 16 (sha256 eid))"
    and "s3List s3 (l1Prefix h8) = Some l1Keys" "s3List s3 (l0Prefix h8) = Some l0Keys"
    and "keys = scanKeysOf s3 r h8 tx l1Keys l0Keys" "\<forall>k\<in>set keys. name_bound L s3 k"
    and "p = asofPoint sha256 eid vt tx" "C = answers p (keysRows L s3 keys) \<union> liveAnswers r p"
  shows "case fst (AsOf sha256 L s3 cx eid vt tx r) of
      Inr ev \<Rightarrow> ev \<in> C \<and> 0 < tSystemTime ev \<and> (\<forall>c\<in>C. tSystemTime c \<le> tSystemTime ev)
    | Inl err \<Rightarrow> err = ErrEntityNotFound \<and> (\<forall>c\<in>C. tSystemTime c \<le> 0)"
proof (cases "l1Keys = [] \<and> l0Keys = [] \<and> liveSource r = None")
  case True
  then have "keys = []" using assms(6) by (simp add: scanKeysOf_def capTail_def)
  then have "C = {}" using True assms(9) by (simp add: keysRows_def liveAnswers_def)
  moreover have "fst (AsOf sha256 L s3 cx eid vt tx r) = Inl ErrEntityNotFound"
    using True assms(1-5) by (simp add: AsOf_def quiet_def Let_def)
  ultimately show ?thesis by simp
next
  case False
  obtain st where st: "asofLoop L s3 cx (observeQueryTxTime tx r) p keys (None, 0) = Inr st"
    "best_of (answers p (keysRows L s3 keys)) st"
    using asofLoop_best [of cx keys L s3 "{}" "(None, 0)" "observeQueryTxTime tx r" p] assms(2,7)
    by (auto simp: quiet_def)
  define m where "m = mergeLive (observeQueryTxTime tx r) p st"
  have b: "best_of C m" using mergeLive_best [OF st(2), of "observeQueryTxTime tx r" p] by (simp add: m_def assms(9))
  have "fst (AsOf sha256 L s3 cx eid vt tx r) = (case fst m of None \<Rightarrow> Inl ErrEntityNotFound | Some ev \<Rightarrow> Inr ev)"
    using False assms(1-5) st(1)
    by (simp add: AsOf_def quiet_def Let_def m_def assms(6,8) asofPoint_def split: option.splits)
  then show ?thesis using b by (auto simp: best_of_def split: option.splits)
qed

text \<open>
  C16. A point query answers correctly. When the listings succeed and the query is not cancelled, \<^verbatim>\<open>AsOf\<close>
  returns an event that matches all four coordinates, comes from a file the query must read (all level-1 files and the
  newest level-0 files, up to the limit, that no manifest supersedes) or from the
  live source, and has the greatest system time of all such events; and it reports that nothing was found
  exactly when no such event has a positive system time. Files that cannot be read contribute no rows,
  and files that are skipped because of the time in their name would contribute none, as the times in names are lower bounds.
\<close>

theorem AsOf_correct:
  assumes "eid \<noteq> []" "quiet cx" "h8 = take 8 (take 16 (sha256 eid))"
    and "s3List s3 (l1Prefix h8) = Some l1Keys" "s3List s3 (l0Prefix h8) = Some l0Keys"
    and "must_read s3 r h8 tx l1Keys l0Keys keys" "\<forall>k\<in>set keys. name_bound L s3 k"
    and "p = asofPoint sha256 eid vt tx" "C = answers p (keysRows L s3 keys) \<union> liveAnswers r p"
  shows "(\<forall>ev. fst (AsOf sha256 L s3 cx eid vt tx r) = Inr ev \<longrightarrow>
      ev \<in> C \<and> 0 < tSystemTime ev \<and> (\<forall>c\<in>C. tSystemTime c \<le> tSystemTime ev)) \<and>
    (\<forall>err. fst (AsOf sha256 L s3 cx eid vt tx r) = Inl err \<longrightarrow> err = ErrEntityNotFound) \<and>
    (fst (AsOf sha256 L s3 cx eid vt tx r) = Inl ErrEntityNotFound \<longleftrightarrow> (\<forall>c\<in>C. tSystemTime c \<le> 0))"
  using AsOf_answer [OF assms(1-5) assms(6) [unfolded must_read_iff] assms(7-9)] by (cases "fst (AsOf sha256 L s3 cx eid vt tx r)") force+

definition ex_row :: "int \<Rightarrow> ArrowRow" where
  "ex_row n = \<lparr>rHash = replicate 16 1, rSys = n, rVs = 0, rVe = 100, rAst = n, rH3 = 0, rDigest = replicate 32 0,
     rEid = [97], rPld = [1]\<rparr>"

definition ex_lib :: ArrowLib where
  "ex_lib = \<lparr>arOpen = \<lambda>_. Some [Some [ex_row 5, ex_row 7, ex_row 9]], arWrite = \<lambda>_. [1]\<rparr>"

definition ex_s3 :: S3 where
  "ex_s3 = \<lparr>s3List = \<lambda>pre. Some (if pre = l0Prefix (replicate 8 1) then [l0KeyFor (replicate 8 1) 5] else []),
            s3Get = \<lambda>_. Some ([1], True)\<rparr>"

definition ex_cx :: Ctx where
  "ex_cx = \<lparr>cxStart = False, cxKey = \<lambda>_. False, cxRec = \<lambda>_ _. False\<rparr>"

lemma prefixes_differ:
  "l1Prefix h \<noteq> l0Prefix h'" "manifestsPrefix h \<noteq> l0Prefix h'" "manifestsPrefix h \<noteq> l1Prefix h'"
  by (simp_all add: l1Prefix_def l0Prefix_def manifestsPrefix_def str_def)

lemma ex_s3_scan:
  "scanKeysOf ex_s3 r (replicate 8 1) tx [] [l0KeyFor (replicate 8 1) 5] = [l0KeyFor (replicate 8 1) 5]"
  by (simp add: scanKeysOf_def loadSupersededL0Keys_def ex_s3_def prefixes_differ capTail_def)

lemma ex_s3_read: "must_read ex_s3 r (replicate 8 1) tx [] [l0KeyFor (replicate 8 1) 5] [l0KeyFor (replicate 8 1) 5]"
  by (simp add: must_read_iff ex_s3_scan)

lemma ex_s3_rows: "keyRows ex_lib ex_s3 k = [ex_row 5, ex_row 7, ex_row 9]"
  by (simp add: keyRows_def openFile_def ex_s3_def ex_lib_def batchRows_def)

theorem AsOf_correct_witness:
  "\<exists>ev. fst (AsOf (\<lambda>_. replicate 32 1) ex_lib ex_s3 ex_cx [97] 50 8 DefaultResolver) = Inr ev \<and> tSystemTime ev = 7"
proof -
  let ?p = "asofPoint (\<lambda>_. replicate 32 1) [97] 50 8" and ?k = "l0KeyFor (replicate 8 1) 5"
  let ?C = "answers ?p (keysRows ex_lib ex_s3 [?k]) \<union> liveAnswers DefaultResolver ?p"
  have h: "replicate 8 1 = take 8 (take 16 ((\<lambda>_. replicate 32 (1 :: byte)) [97 :: byte]))" by simp
  have l: "s3List ex_s3 (l1Prefix (replicate 8 1)) = Some []" "s3List ex_s3 (l0Prefix (replicate 8 1)) = Some [?k]"
    by (simp_all add: ex_s3_def prefixes_differ)
  have q: "quiet ex_cx" by (simp add: quiet_def ex_cx_def)
  have "parseFirstSysFromKey ?k = Some 5" by (rule parseFirstSys_key) (simp_all add: i64_ok_def)
  then have nb: "\<forall>k\<in>set [?k]. name_bound ex_lib ex_s3 k" by (auto simp: name_bound_def ex_s3_rows ex_row_def)
  have C: "?C = {rowEvent (ex_row 5), rowEvent (ex_row 7)}"
    by (auto simp: answers_def keysRows_def ex_s3_rows liveAnswers_def DefaultResolver_def matches_def asofPoint_def ex_row_def)
  have e: "[97 :: byte] \<noteq> []" by simp
  note a = AsOf_correct [where ?sha256.0 = "\<lambda>_. replicate 32 1" and r = DefaultResolver and tx = 8 and vt = 50 and L = ex_lib,
      OF e q h l ex_s3_read nb refl refl, unfolded C]
  show ?thesis
    using a by (cases "fst (AsOf (\<lambda>_. replicate 32 1) ex_lib ex_s3 ex_cx [97] 50 8 DefaultResolver)") (auto simp: ex_row_def)
qed

section \<open>The answer of a window query\<close>

definition inWindow :: "Window \<Rightarrow> ArrowRow \<Rightarrow> bool" where
  "inWindow w r \<longleftrightarrow>
     rHash r = wHash w \<and> rSys r \<le> wTx w \<and> rVs r < wHi w \<and> wLo w < rVe r \<and> rEid r = wEid w"

text \<open>Rows up to the limit, and whether the limit cut any off; a limit of 0 is none.\<close>

definition capped :: "int \<Rightarrow> 'a list \<Rightarrow> 'a list \<times> bool" where
  "capped maxRows xs = (if maxRows > 0 \<and> int (length xs) > maxRows then (take (nat maxRows) xs, True) else (xs, False))"

definition fits :: "int \<Rightarrow> 'a list \<Rightarrow> bool" where
  "fits maxRows xs \<longleftrightarrow> \<not> (maxRows > 0 \<and> int (length xs) > maxRows)"

lemma scanWindowRecordBatch_capped:
  assumes "fits maxRows out"
  shows "scanWindowRecordBatch w maxRows rows out = capped maxRows (out @ map rowEvent (filter (inWindow w) rows))"
  using assms
proof (induction rows arbitrary: out)
  case Nil
  then show ?case by (simp add: capped_def fits_def)
next
  case (Cons r rows)
  show ?case
  proof (cases "inWindow w r")
    case True
    show ?thesis
    proof (cases "maxRows > 0 \<and> int (length out) \<ge> maxRows")
      case True2: True
      then have "capped maxRows (out @ map rowEvent (filter (inWindow w) (r # rows))) = (out, True)"
        using Cons.prems True by (auto simp: capped_def fits_def)
      moreover have "scanWindowRecordBatch w maxRows (r # rows) out = (out, True)"
        using True True2 by (simp add: inWindow_def)
      ultimately show ?thesis by simp
    next
      case False
      then have "fits maxRows (out @ [rowEvent r])" by (auto simp: fits_def)
      note ih = Cons.IH [OF this]
      have "scanWindowRecordBatch w maxRows (r # rows) out = scanWindowRecordBatch w maxRows rows (out @ [rowEvent r])"
        using True False by (auto simp: inWindow_def)
      then show ?thesis using ih True by simp
    qed
  next
    case False
    then have "scanWindowRecordBatch w maxRows (r # rows) out = scanWindowRecordBatch w maxRows rows out"
      by (auto simp: inWindow_def)
    then show ?thesis using Cons False by simp
  qed
qed

lemma capped_True: "capped m xs = (ys, True) \<Longrightarrow> capped m (xs @ zs) = (ys, True)"
  by (auto simp: capped_def split: if_splits)

lemma fits_capped: "fits m xs \<Longrightarrow> capped m xs = (xs, False)"
  by (auto simp: capped_def fits_def)

lemma scanWindowBatches_capped:
  assumes "\<And>i. \<not> cancelled i" "fits maxRows out"
  shows "scanWindowBatches w maxRows cancelled i bs out =
    capped maxRows (out @ map rowEvent (filter (inWindow w) (batchRows bs)))"
  using assms(2)
proof (induction bs arbitrary: i out)
  case Nil
  then show ?case by (simp add: batchRows_def fits_capped)
next
  case (Cons b bs)
  show ?case
  proof (cases b)
    case None
    then show ?thesis using Cons assms(1) by (simp add: batchRows_def)
  next
    case (Some rows)
    let ?r = "out @ map rowEvent (filter (inWindow w) rows)"
    have all: "out @ map rowEvent (filter (inWindow w) (batchRows (b # bs))) =
        ?r @ map rowEvent (filter (inWindow w) (batchRows bs))" using Some by (simp add: batchRows_def)
    have s: "scanWindowBatches w maxRows cancelled i (b # bs) out =
        (case capped maxRows ?r of (out', stop) \<Rightarrow>
           if stop then (out', True) else scanWindowBatches w maxRows cancelled (Suc i) bs out')"
      using Some assms(1) by (simp add: scanWindowRecordBatch_capped [OF Cons.prems])
    show ?thesis
    proof (cases "fits maxRows ?r")
      case True
      show ?thesis unfolding s all fits_capped [OF True] by (simp add: Cons.IH [OF True])
    next
      case False
      then have c: "capped maxRows ?r = (take (nat maxRows) ?r, True)" by (simp add: capped_def fits_def)
      show ?thesis unfolding s all capped_True [OF c] unfolding c by simp
    qed
  qed
qed

definition windowRows :: "ArrowLib \<Rightarrow> S3 \<Rightarrow> Window \<Rightarrow> gostring list \<Rightarrow> TriTemporalEvent list" where
  "windowRows L s3 w keys = concat (map (\<lambda>k. map rowEvent (filter (inWindow w) (keyRows L s3 k))) keys)"

lemma skipsKey_no_window:
  assumes "skipsKey r (wTx w) key" "name_bound L s3 key"
  shows "filter (inWindow w) (keyRows L s3 key) = []"
  using assms by (fastforce simp: skipsKey_def name_bound_def inWindow_def filter_empty_conv split: option.splits)

lemma rangeLoop_capped:
  assumes "\<And>k. \<not> cxKey cx k" "\<And>k i. \<not> cxRec cx k i" "\<forall>k\<in>set keys. name_bound L s3 k" "fits (MaxRangeRows r) out"
  shows "rangeLoop L s3 cx r w keys out = Inr (capped (MaxRangeRows r) (out @ windowRows L s3 w keys))"
  using assms(3,4)
proof (induction keys arbitrary: out)
  case Nil
  then show ?case by (simp add: windowRows_def fits_capped)
next
  case (Cons key keys)
  have nb: "\<forall>k\<in>set keys. name_bound L s3 k" using Cons.prems(1) by simp
  let ?m = "MaxRangeRows r" and ?r = "out @ map rowEvent (filter (inWindow w) (keyRows L s3 key))"
  have all: "out @ windowRows L s3 w (key # keys) = ?r @ windowRows L s3 w keys" by (simp add: windowRows_def)
  consider "skipsKey r (wTx w) key" | e where "\<not> skipsKey r (wTx w) key" "openFile L s3 key = Inl e"
    | bs where "\<not> skipsKey r (wTx w) key" "openFile L s3 key = Inr bs" by (cases "openFile L s3 key") auto
  then show ?case
  proof cases
    case 1
    then have "?r = out" using skipsKey_no_window [OF 1] Cons.prems(1) by simp
    then show ?thesis unfolding all using Cons.IH [OF nb Cons.prems(2)] 1 assms(1) by simp
  next
    case (2 e)
    then have "?r = out" by (simp add: keyRows_def)
    then show ?thesis unfolding all using Cons.IH [OF nb Cons.prems(2)] 2 assms(1) by (simp add: scanWindowFile_def)
  next
    case (3 bs)
    then have r: "scanWindowFile L s3 cx key w ?m out = Inr (capped ?m ?r)"
      using scanWindowBatches_capped [of "cxRec cx key" ?m out w 0 bs] assms(2) Cons.prems(2)
      by (simp add: scanWindowFile_def keyRows_def)
    show ?thesis
    proof (cases "fits ?m ?r")
      case True
      show ?thesis unfolding all using Cons.IH [OF nb True] 3(1) assms(1) by (simp add: r fits_capped [OF True])
    next
      case False
      then have c: "capped ?m ?r = (take (nat ?m) ?r, True)" by (simp add: capped_def fits_def)
      show ?thesis unfolding all capped_True [OF c] using 3(1) assms(1) by (simp add: r c)
    qed
  qed
qed

text \<open>The live rows of the window whose system time and digest have not been seen.\<close>

fun liveFresh :: "Window \<Rightarrow> LiveEvent list \<Rightarrow> (int \<times> bytes) set \<Rightarrow> TriTemporalEvent list" where
  "liveFresh w [] seen = []"
| "liveFresh w (le # les) seen =
     (if lSystemTime le \<le> wTx w \<and> lValidTimeStart le < wHi w \<and> wLo w < lValidTimeEnd le \<and>
         (lSystemTime le, lPayloadDigest le) \<notin> seen
      then liveToEvent (wEid w) le # liveFresh w les (insert (lSystemTime le, lPayloadDigest le) seen)
      else liveFresh w les seen)"

lemma liveMerge_capped:
  assumes "fits maxRows out"
  shows "liveMerge w maxRows lcs seen out = capped maxRows (out @ liveFresh w lcs seen)"
  using assms
proof (induction lcs arbitrary: seen out)
  case Nil
  then show ?case by (simp add: fits_capped)
next
  case (Cons le les)
  let ?new = "lSystemTime le \<le> wTx w \<and> lValidTimeStart le < wHi w \<and> wLo w < lValidTimeEnd le \<and>
     (lSystemTime le, lPayloadDigest le) \<notin> seen"
  consider "\<not> ?new" | "?new" "maxRows > 0 \<and> int (length out) \<ge> maxRows" | "?new" "\<not> (maxRows > 0 \<and> int (length out) \<ge> maxRows)"
    by blast
  then show ?case
  proof cases
    case 1
    then have "liveMerge w maxRows (le # les) seen out = liveMerge w maxRows les seen out" by auto
    moreover have "liveFresh w (le # les) seen = liveFresh w les seen" using 1 by auto
    ultimately show ?thesis using Cons.IH [OF Cons.prems] by simp
  next
    case 2
    then have "liveMerge w maxRows (le # les) seen out = (out, True)" by auto
    moreover have "capped maxRows (out @ y # ys) = (out, True)" for y ys
      using 2 Cons.prems by (auto simp: capped_def fits_def)
    moreover have "\<exists>y ys. liveFresh w (le # les) seen = y # ys" using 2 by simp
    ultimately show ?thesis by force
  next
    case 3
    then have "fits maxRows (out @ [liveToEvent (wEid w) le])" by (auto simp: fits_def)
    note ih = Cons.IH [OF this]
    have "\<not> lSystemTime le > wTx w" "\<not> (lValidTimeStart le \<ge> wHi w \<or> lValidTimeEnd le \<le> wLo w)"
      "(lSystemTime le, lPayloadDigest le) \<notin> seen" using 3(1) by auto
    then have m: "liveMerge w maxRows (le # les) seen out =
        liveMerge w maxRows les (insert (lSystemTime le, lPayloadDigest le) seen) (out @ [liveToEvent (wEid w) le])"
      using 3(2) by (simp only: liveMerge.simps if_False)
    show ?thesis unfolding m ih using 3(1) by simp
  qed
qed

definition freshRows :: "Resolver \<Rightarrow> Window \<Rightarrow> TriTemporalEvent list \<Rightarrow> TriTemporalEvent list" where
  "freshRows r w out =
     (case liveSource r of
        None \<Rightarrow> []
      | Some src \<Rightarrow>
          (case src (wEid w) (wTx w) of
             None \<Rightarrow> []
           | Some lcs \<Rightarrow> liveFresh w lcs ((\<lambda>d. (tSystemTime d, tPayloadDigest d)) ` set out)))"

lemma mergeLiveRows_capped:
  "mergeLiveRows r w (capped (MaxRangeRows r) full) = capped (MaxRangeRows r) (full @ freshRows r w full)"
proof (cases "fits (MaxRangeRows r) full")
  case True
  then show ?thesis
    by (auto simp: mergeLiveRows_def freshRows_def fits_capped liveMerge_capped split: option.splits)
next
  case False
  let ?m = "MaxRangeRows r" and ?t = "take (nat (MaxRangeRows r)) full"
  have c: "capped ?m full = (?t, True)" using False by (simp add: capped_def fits_def)
  have f: "fits ?m ?t" using False by (auto simp: fits_def)
  have g: "fst (capped ?m (?t @ ys)) = ?t" for ys
    using False by (cases ys) (auto simp: capped_def fits_def)
  have "mergeLiveRows r w (?t, True) = (?t, True)"
    unfolding mergeLiveRows_def fst_conv snd_conv liveMerge_capped [OF f]
    by (auto simp: case_prod_beta g split: option.splits)
  then show ?thesis unfolding capped_True [OF c] unfolding c .
qed

definition rangeWindow :: "(bytes \<Rightarrow> bytes) \<Rightarrow> gostring \<Rightarrow> int \<Rightarrow> int \<Rightarrow> int \<Rightarrow> Window" where
  "rangeWindow sha256 eid lo hi tx = \<lparr>wHash = take 16 (sha256 eid), wEid = eid, wLo = lo, wHi = hi, wTx = tx\<rparr>"

text \<open>
  C17. A window query is complete on the files that it must read, up to its limit. When the listings succeed and the query is not
  cancelled, \<^verbatim>\<open>Range\<close> reads exactly all level-1 files and, newest by name first, up to \<^verbatim>\<open>MaxL0Files\<close> of the level-0 files that no manifest
  supersedes (older ones are left out, and this is not reported as truncation). From these it collects, in the order of the
  scan, every row whose validity
  overlaps the window and that was known at the transaction time, then every such live row that is no
  twin of one before; it returns the first of these up to the row limit in order of the start of validity,
  keeping the order of rows with equal start, reports truncation exactly when the row limit cut some of them off, and
  reports that nothing was found exactly when there is none.
\<close>

theorem Range_complete:
  assumes "eid \<noteq> []" "lo < hi" "quiet cx" "h8 = take 8 (take 16 (sha256 eid))" "0 \<le> MaxRangeRows r"
    and "s3List s3 (l1Prefix h8) = Some l1Keys" "s3List s3 (l0Prefix h8) = Some l0Keys"
    and "must_read s3 r h8 tx l1Keys l0Keys keys" "\<forall>k\<in>set keys. name_bound L s3 k"
    and "w = rangeWindow sha256 eid lo hi tx" "durable = windowRows L s3 w keys" "rows = durable @ freshRows r w durable"
  shows "Range sha256 L s3 cx eid lo hi tx r =
    (if rows = [] then Inl ErrEntityNotFound
     else if MaxRangeRows r = 0 \<or> int (length rows) \<le> MaxRangeRows r then Inr (sort_key tValidTimeStart rows, False)
     else Inr (sort_key tValidTimeStart (take (nat (MaxRangeRows r)) rows), True))"
proof -
  have keys: "keys = scanKeysOf s3 r h8 tx l1Keys l0Keys" using assms(8) by (simp add: must_read_iff)
  show ?thesis
  proof (cases "l1Keys = [] \<and> l0Keys = [] \<and> liveSource r = None")
    case True
    then have "keys = []" using keys by (simp add: scanKeysOf_def capTail_def)
    then have "rows = []" using True assms(11,12) by (simp add: windowRows_def freshRows_def)
    moreover have "Range sha256 L s3 cx eid lo hi tx r = Inl ErrEntityNotFound"
      using True assms(1-7) by (simp add: Range_def quiet_def Let_def)
    ultimately show ?thesis by simp
  next
    case False
    have f: "fits (MaxRangeRows r) []" using assms(5) by (simp add: fits_def)
    have "rangeLoop L s3 cx r w keys [] = Inr (capped (MaxRangeRows r) durable)"
      using rangeLoop_capped [of cx keys L s3 r "[]" w] assms(3,9) f by (simp add: quiet_def assms(11))
    then have "Range sha256 L s3 cx eid lo hi tx r =
        (case capped (MaxRangeRows r) rows of
           (out, truncated) \<Rightarrow> if out = [] then Inl ErrEntityNotFound else Inr (sort_key tValidTimeStart out, truncated))"
      using False assms(1-7) mergeLiveRows_capped [of r w durable]
      by (auto simp: Range_def quiet_def Let_def keys assms(10,12) rangeWindow_def)
    then show ?thesis using assms(5) by (auto simp: capped_def)
  qed
qed

theorem Range_complete_witness:
  "Range (\<lambda>_. replicate 32 1) ex_lib ex_s3 ex_cx [97] 50 60 8 DefaultResolver =
     Inr ([rowEvent (ex_row 5), rowEvent (ex_row 7)], False)"
proof -
  let ?w = "rangeWindow (\<lambda>_. replicate 32 1) [97] 50 60 8" and ?k = "l0KeyFor (replicate 8 1) 5"
  have h: "replicate 8 1 = take 8 (take 16 ((\<lambda>_. replicate 32 (1 :: byte)) [97 :: byte]))" by simp
  have l: "s3List ex_s3 (l1Prefix (replicate 8 1)) = Some []" "s3List ex_s3 (l0Prefix (replicate 8 1)) = Some [?k]"
    by (simp_all add: ex_s3_def prefixes_differ)
  have q: "quiet ex_cx" by (simp add: quiet_def ex_cx_def)
  have "parseFirstSysFromKey ?k = Some 5" by (rule parseFirstSys_key) (simp_all add: i64_ok_def)
  then have nb: "\<forall>k\<in>set [?k]. name_bound ex_lib ex_s3 k" by (auto simp: name_bound_def ex_s3_rows ex_row_def)
  have d: "windowRows ex_lib ex_s3 ?w [?k] = [rowEvent (ex_row 5), rowEvent (ex_row 7)]"
    by (simp add: windowRows_def ex_s3_rows inWindow_def rangeWindow_def ex_row_def)
  have fr: "freshRows DefaultResolver ?w rs = []" for rs by (simp add: freshRows_def DefaultResolver_def)
  have e: "[97 :: byte] \<noteq> []" "(50 :: int) < 60" "0 \<le> MaxRangeRows DefaultResolver" by (simp_all add: DefaultResolver_def)
  note a = Range_complete [where ?sha256.0 = "\<lambda>_. replicate 32 1" and r = DefaultResolver and tx = 8 and L = ex_lib,
      OF e(1,2) q h e(3) l ex_s3_read nb refl refl refl, unfolded d fr]
  show ?thesis using a by (simp add: DefaultResolver_def ex_row_def)
qed

section \<open>Coalescing\<close>

text \<open>Coalescing keeps one row for every start of validity, the one with the greatest system time.\<close>

lemma firstOfStart_spec:
  assumes "sorted (map (\<lambda>r. (tValidTimeStart r, - tSystemTime r)) rows)"
    and "\<forall>r\<in>set rows. \<forall>v. lastStart = Some v \<longrightarrow> v \<le> tValidTimeStart r"
  shows "sorted_wrt (<) (map tValidTimeStart (firstOfStart lastStart rows)) \<and>
    (\<forall>x\<in>set (firstOfStart lastStart rows). x \<in> set rows \<and> (\<forall>v. lastStart = Some v \<longrightarrow> v < tValidTimeStart x) \<and>
       (\<forall>r\<in>set rows. tValidTimeStart r = tValidTimeStart x \<longrightarrow> tSystemTime r \<le> tSystemTime x)) \<and>
    (\<forall>r\<in>set rows. lastStart = Some (tValidTimeStart r) \<or>
       tValidTimeStart r \<in> tValidTimeStart ` set (firstOfStart lastStart rows))"
  using assms
proof (induction rows arbitrary: lastStart)
  case (Cons r rows)
  have s: "sorted (map (\<lambda>r. (tValidTimeStart r, - tSystemTime r)) rows)" using Cons.prems(1) by simp
  have le: "\<forall>x\<in>set rows. tValidTimeStart r \<le> tValidTimeStart x \<and>
      (tValidTimeStart x = tValidTimeStart r \<longrightarrow> tSystemTime x \<le> tSystemTime r)"
    using Cons.prems(1) by (auto simp: less_eq_prod_def)
  show ?case
  proof (cases "lastStart = Some (tValidTimeStart r)")
    case True
    then show ?thesis using Cons.IH [OF s, of lastStart] Cons.prems(2) by fastforce
  next
    case False
    have "\<forall>x\<in>set rows. \<forall>v. Some (tValidTimeStart r) = Some v \<longrightarrow> v \<le> tValidTimeStart x" using le by simp
    note ih = Cons.IH [OF s this]
    have lt: "\<forall>v. lastStart = Some v \<longrightarrow> v < tValidTimeStart r" using False Cons.prems(2) by fastforce
    show ?thesis using ih le lt False by (fastforce intro: less_trans)
  qed
qed simp

lemma CoalesceRange_spec:
  "sorted_wrt (<) (map tValidTimeStart (CoalesceRange rows)) \<and>
   tValidTimeStart ` set (CoalesceRange rows) = tValidTimeStart ` set rows \<and>
   (\<forall>x\<in>set (CoalesceRange rows). x \<in> set rows \<and>
      (\<forall>r\<in>set rows. tValidTimeStart r = tValidTimeStart x \<longrightarrow> tSystemTime r \<le> tSystemTime x))"
proof (cases "length rows \<le> 1")
  case True
  then have "rows = [] \<or> (\<exists>x. rows = [x])" by (cases rows) auto
  then show ?thesis by (auto simp: CoalesceRange_def)
next
  case False
  let ?f = "\<lambda>r. (tValidTimeStart r, - tSystemTime r)"
  have "sorted (map ?f (sort_key ?f rows))" by simp
  note spec = firstOfStart_spec [OF this, of None, simplified]
  show ?thesis using spec False by (fastforce simp: CoalesceRange_def)
qed

end
