(* ===== verification/Spec2Isabelle.thy ===== *)
theory Spec2Isabelle
  imports Lamport Engine_Type Iblt_Wire Anti_Entropy Receiver Ckpt_Sched Durable Query
begin

text \<open>
  Verification of the Sovereign engine, a leaderless delta-CRDT database engine in Go (module
  \<^verbatim>\<open>github.com/hr18vk/sovereign\<close>).

  \<^bold>\<open>The program.\<close> A node keeps a map from entities to sets of entries; an entry is named by its dot, the
  pair of a node and that node's Lamport counter. The map is split into shards, each a persistent hash
  trie with an atomic root. Nodes exchange deltas, which \<^verbatim>\<open>Join\<close> merges. To find out what a peer lacks,
  a node subtracts the peer's digest (an invertible Bloom lookup table) from its own and peels the
  difference. Deltas travel as signed events in envelopes; a receiver runs cheap gates (rate, clock, depth)
  before it verifies signatures and applies the event. A local write is acknowledged once its record is
  flushed to a write-ahead log; checkpoints write an image of the engine and an anchor into the log, and a
  boot rebuilds the engine from the newest usable image and the log.

  \<^bold>\<open>The theories\<close>, in the order of their imports:

  \<^item> \<^verbatim>\<open>Sov_Prelude\<close>: machine words, byte strings and slices, little- and big-endian codecs, list facts.
  \<^item> \<^verbatim>\<open>Hamt\<close> models \<^verbatim>\<open>pkg/sync/hamt.go\<close>: nodes as a datatype, \<^verbatim>\<open>get\<close>, \<^verbatim>\<open>set\<close> with its collision and split
    cases, deletion, traversal, the wrapper with its count, and the Merkle root. Shown: a trie invariant
    that every operation keeps, refinement of a finite map for every hash function (locale
    \<^verbatim>\<open>entity_map\<close>), and what equal roots mean. Also that a map whose last key was deleted loses every later
    insertion.
  \<^item> \<^verbatim>\<open>Dot_Merge\<close>: the three-way comparison of dots, the insertion sort step and the two-pointer merge of
    \<^verbatim>\<open>crdt.go\<close>, as union of maps from dots to entries.
  \<^item> \<^verbatim>\<open>Engine\<close>, \<^verbatim>\<open>Engine_Join\<close>, \<^verbatim>\<open>Engine_Views\<close> model \<^verbatim>\<open>crdt.go\<close>, \<^verbatim>\<open>merkle_sharded.go\<close> and \<^verbatim>\<open>point_get.go\<close>: the
    engine record, routing, clock, local insertion, \<^verbatim>\<open>Join\<close>, re-sharding and the read views, with the engine
    invariant and the effect of each operation on the abstract state \<^verbatim>\<open>eng_map\<close>.
  \<^item> \<^verbatim>\<open>Convergence\<close>: replicas that absorb the same entries in any order and grouping end in equal states
    (locale \<^verbatim>\<open>delta_replica\<close>); freshness of local dots; agreement of the views.
  \<^item> \<^verbatim>\<open>Engine_Type\<close>: the operations of the engine as one step relation, with preservation of its well-formedness
    and progress.
  \<^item> \<^verbatim>\<open>Lamport\<close>: the persisted clock limit across restarts, and the dot that is issued twice when the persist
    worker drops a limit.
  \<^item> \<^verbatim>\<open>Iblt\<close>, \<^verbatim>\<open>Iblt_Peel\<close>, \<^verbatim>\<open>Strata\<close> model \<^verbatim>\<open>iblt.go\<close>: tables as sums of buckets in a commutative group, peeling
    with a conservation law, exact reconciliation under stated hash conditions, termination and a
    diverging input, the strata estimator. \<^verbatim>\<open>Iblt_Wire\<close> models \<^verbatim>\<open>iblt_wire.go\<close>: both codecs, their round trips
    and the size bound.
  \<^item> \<^verbatim>\<open>Anti_Entropy\<close>: digests of an engine, \<^verbatim>\<open>GenerateDelta\<close>, and that one exchange in both directions is defined and makes
    two replicas equal, when the hashes of the entries satisfy the stated conditions (\<^verbatim>\<open>round_safe\<close>).
  \<^item> \<^verbatim>\<open>Apply\<close> models \<^verbatim>\<open>crdt_reconstruct.go\<close>, \<^verbatim>\<open>crdt_reconstruct_skew.go\<close>, \<^verbatim>\<open>crdt_apply.go\<close>, \<^verbatim>\<open>crdt_apply_batch.go\<close> and
    \<^verbatim>\<open>crdt_capnp_wire.go\<close>: integrity checks, the saturating skew bound, atomic batches, and the round trip
    from an entry to an event and back.
  \<^item> \<^verbatim>\<open>Admission\<close> models \<^verbatim>\<open>pkg/admission/ewma.go\<close> and \<^verbatim>\<open>pkg/clock/admission.go\<close>; runs of the rate gate are a step
    relation, and its verdict is shown to be a fixed ceiling.
  \<^item> \<^verbatim>\<open>Envelope\<close> models \<^verbatim>\<open>pkg/attribution/envelope.go\<close> and \<^verbatim>\<open>pkg/receive/forward.go\<close>: the wire form with exactly the
    frames that decode to an envelope, the custody chain and exactly what it binds, the depth bound, forwarding. \<^verbatim>\<open>Frames\<close> models \<^verbatim>\<open>wire_v1.go\<close>, the dispatch and the
    digest frame of \<^verbatim>\<open>pkg/mesh/digest.go\<close>, and the reassembly of frames from a stream.
  \<^item> \<^verbatim>\<open>Identity\<close> models \<^verbatim>\<open>pkg/identity\<close>: the directory, the checks, the hybrid signer and the randomized Ed25519
    signer, whose signatures verify and whose nonce carries no secret part.
  \<^item> \<^verbatim>\<open>Receiver\<close> models \<^verbatim>\<open>pkg/receive/receiver.go\<close>: the three handlers, with what acceptance guarantees (the signatures of the very
    frame, and what its events add to the engine) and two ways around the gates.
  \<^item> \<^verbatim>\<open>Crc32c\<close>: the Castagnoli checksum as polynomial division, and that it detects every burst of at most 32
    bits. \<^verbatim>\<open>Wal\<close> models \<^verbatim>\<open>internal/chaos/wal.go\<close> and \<^verbatim>\<open>codec.go\<close>: a file as its bytes with the number that is
    flushed, records with their codecs, append, open with its scan, and replay. \<^verbatim>\<open>Wal_Props\<close>: concurrent
    appends, failing writes and flushes, crashes and reopens as a step relation whose steps are those of the code without further
    guards. The ghost field \<^verbatim>\<open>sysTorn\<close> says that a partial write has happened since the last open, and \<^verbatim>\<open>sysClean\<close> that
    nothing was written behind one and all records are readable; while \<^verbatim>\<open>sysClean\<close> holds, what a crash leaves replays.
    \<^verbatim>\<open>Wal_Damage\<close>: which damage the replay finds and which it does not, and the log after a short write.
  \<^item> \<^verbatim>\<open>Snapshot\<close> models \<^verbatim>\<open>pkg/durability/snapshot.go\<close>, \<^verbatim>\<open>state_fingerprint.go\<close> and \<^verbatim>\<open>localfs.go\<close>: the image codec with
    its round trip and its refusal of damaged files, fingerprints, the object store.
  \<^item> \<^verbatim>\<open>Recovery\<close> models \<^verbatim>\<open>pkg/durability/recovery.go\<close>: the choice of the image, the phantom check, the replay of the
    tail in chunks, the repair of holes. \<^verbatim>\<open>Recovery_Props\<close>: a boot restores exactly the records of log and image.
  \<^item> \<^verbatim>\<open>Bridge\<close> models \<^verbatim>\<open>pkg/durability/bridge.go\<close>: local writes, checkpoints and the packed word of the checkpoint
    scheduler. \<^verbatim>\<open>Ckpt_Sched\<close>: the scheduler under every interleaving of its threads.
  \<^item> \<^verbatim>\<open>Durable\<close>: engine, log, checkpoint and store as one system with crashes at any moment. Every call of the bridge, with
    every outcome of its file operations, is a run of that system. The ghost field \<^verbatim>\<open>dsClean\<close> records whether the writes and
    deliveries of the run were within the limits that the code relies on; as long as it and \<^verbatim>\<open>sysClean\<close> hold
    (\<^verbatim>\<open>undisturbed\<close>), no acknowledged write is lost. Neither field restricts a step.
  \<^item> \<^verbatim>\<open>Lsm_Store\<close> models the file names, the schema and the manifests of \<^verbatim>\<open>internal/database\<close> over an object store.
    \<^verbatim>\<open>Query\<close> models \<^verbatim>\<open>query.go\<close>: the choice of the files, shown to be the one that the predicate \<^verbatim>\<open>must_read\<close> specifies without
    the code's list operations; point and window queries with skipping, limits, the live merge and coalescing, shown to be
    correct and complete on these files.

  \<^bold>\<open>Correspondence.\<close> A Go struct is a record, a byte array a list whose length is stated where it matters,
  an unsigned or signed integer a word of its width. A method that changes its receiver returns the new
  state. Errors are values; a panic is \<^verbatim>\<open>None\<close>. An atomic root swap or a mutex makes an operation one step,
  so that every operation is modelled as the transition that it commits; retries of a lost
  compare-and-swap repeat it on the new state.

  \<^bold>\<open>Parameters.\<close> Code outside the repository and unspecified parts of the runtime are arguments: the seeded
  hash (any function; where the hash matters, the needed condition is a named hypothesis), SHA-256 and
  SHA-512, sorting (\<^verbatim>\<open>sort_ok\<close>: a sorted permutation), float rounding, the capnp encoder and decoder
  (\<^verbatim>\<open>codec_ok\<close>), Ed25519, ML-DSA, SHAKE256, the curve (\<^verbatim>\<open>curve_laws\<close>), the reader of a connection, and the Arrow
  library that reads the rows of a file.

  \<^bold>\<open>Loops.\<close> Recursion is structural or has a measure. The peeling loop, which can run for ever, is a
  \<^verbatim>\<open>while_option\<close>, and the read loop a partial function; in both, \<^verbatim>\<open>None\<close> is divergence, and the theorems that
  they return say so. There is no fuel.

  \<^bold>\<open>Not modelled.\<close> The arena allocator, reference counts and epoch reclamation under the trie, the object
  pools, Close and the persist worker's goroutine; sockets, TLS, eBPF and the epoll loop; the gossip
  sweep, topology and control port of the mesh; directory synchronisation and temporary files of the
  durability layer and the record forms that only tests write; the memtable and the writing,
  compaction and removal of files of the local database; telemetry, command-line programs and the SDK. Error texts and log lines are left out
  throughout.
\<close>

end
